(* ===== verification/Prelude.thy ===== *)
theory Prelude
  imports Main "HOL-Library.Word" "HOL-Library.Multiset"
begin

unbundle bit_operations_syntax

text \<open>
  Shared vocabulary of the development: the machine types of the C++ code, byte-addressed
  memory, address regions, and the generic lemmas on words, lists and sums that the component
  theories use. Addresses are 64-bit words, so a region that starts near the top of the address
  space wraps, exactly as pointer arithmetic on \<open>uintptr_t\<close> does.
\<close>

section \<open>Machine types\<close>

type_synonym u8 = "8 word"
type_synonym u32 = "32 word"
type_synonym u64 = "64 word"

text \<open>Host and device memory live in one unified virtual address space (CUDA UVA).\<close>

type_synonym mem = "u64 \<Rightarrow> u8"

named_theorems gfd_words \<open>rewriting of word arithmetic to natural numbers\<close>
named_theorems gfd_regions \<open>membership in and disjointness of address regions\<close>

section \<open>Words\<close>

lemma unat_of_nat_u64 [gfd_words]: "n < 2 ^ 64 \<Longrightarrow> unat (of_nat n :: u64) = n"
  by (simp add: unat_of_nat take_bit_eq_mod)

lemma unat_of_nat_u32 [gfd_words]: "n < 2 ^ 32 \<Longrightarrow> unat (of_nat n :: u32) = n"
  by (simp add: unat_of_nat take_bit_eq_mod)

lemma unat_u64_lt [gfd_words]: "unat (x :: u64) < 2 ^ 64"
  using unsigned_less [of x] by simp

lemma unat_u32_lt [gfd_words]: "unat (x :: u32) < 2 ^ 32"
  using unsigned_less [of x] by simp

lemma unat_ucast_u32_u64 [gfd_words, simp]: "unat (ucast (x :: u32) :: u64) = unat x"
proof -
  have "unat x < 2 ^ 64" using unat_u32_lt [of x] by simp
  then show ?thesis by (simp add: unsigned_ucast_eq take_bit_eq_mod)
qed

lemma unat_add_u64: "unat (a :: u64) + unat b < 2 ^ 64 \<Longrightarrow> unat (a + b) = unat a + unat b"
  by (simp add: unat_word_ariths)

section \<open>Regions of memory\<close>

definition region :: "u64 \<Rightarrow> nat \<Rightarrow> u64 set" where
  "region a n = {x. unat (x - a) < n}"

lemma in_region [gfd_regions]: "x \<in> region a n \<longleftrightarrow> unat (x - a) < n"
  by (simp add: region_def)

lemma region_0 [simp]: "region a 0 = {}"
  by (simp add: region_def)

text \<open>A region splits into a prefix and a suffix; this is what coalescing two adjacent transfers uses.\<close>

lemma in_region_add:
  assumes "m + n \<le> 2 ^ 64"
  shows "x \<in> region a (m + n) \<longleftrightarrow> x \<in> region a m \<or> x \<in> region (a + of_nat m) n"
proof -
  define d where "d = x - a"
  have "unat (d - of_nat m) = (if m \<le> unat d then unat d - m else 2 ^ 64 + unat d - m)"
    if "n > 0"
  proof -
    have m: "unat (of_nat m :: u64) = m" using assms that by (intro unat_of_nat_u64) simp
    show ?thesis
    proof (cases "m \<le> unat d")
      case True
      then have "(of_nat m :: u64) \<le> d" by (simp add: word_le_nat_alt m)
      with True show ?thesis by (simp add: unat_sub m)
    next
      case False
      then have "\<not> (of_nat m :: u64) \<le> d" by (simp add: word_le_nat_alt m)
      with False show ?thesis by (simp add: unat_sub_if' m)
    qed
  qed
  then have "unat d < m + n \<longleftrightarrow> unat d < m \<or> unat (d - of_nat m) < n"
    using assms unat_u64_lt [of d] by (cases "n = 0") auto
  then have "unat (x - a) < m + n \<longleftrightarrow> unat (x - a) < m \<or> unat (x - (a + of_nat m)) < n"
    by (simp add: d_def diff_diff_eq)
  then show ?thesis by (simp add: region_def)
qed

lemma region_add:
  "m + n \<le> 2 ^ 64 \<Longrightarrow> region a (m + n) = region a m \<union> region (a + of_nat m) n"
  using in_region_add by blast

lemma region_unat:
  assumes "x \<in> region a n" "unat a + n \<le> 2 ^ 64"
  shows "unat a \<le> unat x \<and> unat x < unat a + n"
proof -
  have d: "unat (x - a) < n" using assms(1) by (simp add: in_region)
  with assms(2) have "unat a + unat (x - a) < 2 ^ 64" by linarith
  then have "unat (a + (x - a)) = unat a + unat (x - a)" by (rule unat_add_u64)
  with d show ?thesis by simp
qed

lemma region_apart: "unat a + n \<le> unat b \<Longrightarrow> unat b + m \<le> 2 ^ 64 \<Longrightarrow> disjnt (region a n) (region b m)"
  unfolding disjnt_iff using region_unat [of _ a n] region_unat [of _ b m] unat_u64_lt [of b] by fastforce

lemma region_apart_either:
  "unat a + n \<le> unat b \<and> unat b + m \<le> 2 ^ 64 \<or> unat b + m \<le> unat a \<and> unat a + n \<le> 2 ^ 64 \<Longrightarrow> disjnt (region a n) (region b m)"
  using region_apart [of a n b m] region_apart [of b m a n] disjnt_sym by blast

lemma region_within:
  assumes "unat a \<le> unat b" "unat b + n \<le> unat a + m" "unat a + m \<le> 2 ^ 64"
  shows "region b n \<subseteq> region a m"
proof
  fix x assume "x \<in> region b n"
  from region_unat [OF this] assms have x: "unat b \<le> unat x \<and> unat x < unat b + n" by simp
  then have "unat (x - a) = unat x - unat a" using assms(1) by (intro unat_sub) (simp add: word_le_nat_alt)
  then show "x \<in> region a m" using x assms(1,2) by (auto simp: in_region)
qed

lemma region_mono: "m \<le> n \<Longrightarrow> region a m \<subseteq> region a n"
  by (auto simp: region_def)

lemma region_adjacent_disjoint:
  assumes "m + n \<le> 2 ^ 64"
  shows "disjnt (region a m) (region (a + of_nat m) n)"
proof (cases "n = 0")
  case False
  have "\<not> unat (x - (a + of_nat m)) < n" if x: "unat (x - a) < m" for x
  proof -
    define d where "d = x - a"
    have m: "unat (of_nat m :: u64) = m" using assms False by (intro unat_of_nat_u64) simp
    have "\<not> (of_nat m :: u64) \<le> d" using x by (simp add: word_le_nat_alt m d_def)
    then have "unat (d - of_nat m) = 2 ^ 64 + unat d - m"
      by (simp add: unat_sub_if' m word_le_nat_alt)
    then show ?thesis using assms x unat_u64_lt [of d] by (simp add: d_def diff_diff_eq)
  qed
  then show ?thesis by (auto simp: disjnt_def region_def)
qed (simp add: disjnt_def)

section \<open>Lists\<close>

lemma sum_list_le_const:
  "(\<And>x. x \<in> set xs \<Longrightarrow> f x \<le> (c::nat)) \<Longrightarrow> sum_list (map f xs) \<le> length xs * c"
  by (induction xs) (auto simp: add_le_mono)

text \<open>
  Loops that hand out contiguous ranges of a list to workers use ranges
  \<open>[c * k, min ((c + 1) * k) count)\<close>; \<open>piece xs k c\<close> is the part worker \<open>c\<close> gets.
\<close>

definition piece :: "'a list \<Rightarrow> nat \<Rightarrow> nat \<Rightarrow> 'a list" where
  "piece xs k c = take k (drop (c * k) xs)"

lemma pieces_prefix: "concat (map (piece xs k) [0..<n]) = take (n * k) xs"
proof (induction n)
  case (Suc n)
  have "take (Suc n * k) xs = take (n * k) xs @ take k (drop (n * k) xs)"
    by (simp only: mult_Suc add.commute [of k] take_add)
  with Suc show ?case by (simp add: piece_def)
qed simp

lemma pieces_all: "length xs \<le> n * k \<Longrightarrow> concat (map (piece xs k) [0..<n]) = xs"
  by (simp add: pieces_prefix)

lemma piece_Nil: "length xs \<le> c * k \<Longrightarrow> piece xs k c = []"
  by (simp add: piece_def)

lemma piece_range:
  "piece xs k c = take (min (c * k + k) (length xs) - c * k) (drop (c * k) xs)"
  by (auto simp: piece_def min_def)

lemma ceil_div_covers:
  assumes "0 < (n::nat)"
  shows "c \<le> n * ((c + n - 1) div n)"
proof -
  have "c + n - 1 = n * ((c + n - 1) div n) + (c + n - 1) mod n" by simp
  moreover have "(c + n - 1) mod n < n" using assms by simp
  ultimately show ?thesis using assms by linarith
qed

section \<open>Bit masks\<close>

text \<open>\<open>__builtin_ctz\<close> on a nonzero mask, and the idiom \<open>while (mask) { ch = ctz(mask); ...; mask &= mask - 1; }\<close>.\<close>

definition ctz :: "u32 \<Rightarrow> nat" where
  "ctz w = length (takeWhile (\<lambda>n. \<not> bit w n) [0..<32])"

lemma and_minus_one_less: "w \<noteq> 0 \<Longrightarrow> unat (w AND (w - 1)) < unat (w :: u32)"
proof -
  assume w: "w \<noteq> 0"
  have "w AND (w - 1) \<le> w - 1" by (rule word_and_le1)
  then have "unat (w AND (w - 1)) \<le> unat w - 1" using w by (simp add: word_le_nat_alt unat_minus_one)
  moreover have "0 < unat w" using w by (simp add: unat_gt_0)
  ultimately show ?thesis by linarith
qed

function mask_channels :: "u32 \<Rightarrow> nat list" where
  "mask_channels m = (if m = 0 then [] else ctz m # mask_channels (m AND (m - 1)))"
  by pat_completeness auto
termination
  by (relation "measure unat") (auto simp: and_minus_one_less)

declare mask_channels.simps [simp del]

lemma bit_and_minus_one_nat: "bit (n AND (n - 1)) k \<longleftrightarrow> bit n k \<and> (\<exists>j<k. bit n j)" for n :: nat
proof (induction n arbitrary: k rule: less_induct)
  case (less n)
  consider "n = 0" | "odd n" | (pos) "even n" "0 < n" by blast
  then show ?case
  proof cases
    case 2
    then have "(n - 1) div 2 = n div 2" by presburger
    moreover have "\<exists>j<Suc k'. bit n j" for k' using 2 by (intro exI [of _ 0]) (simp add: bit_0)
    moreover have "bit (n AND (n - 1)) k \<longleftrightarrow> bit n k \<and> bit (n - 1) k" by (rule bit_and_iff)
    ultimately show ?thesis using 2 by (cases k) (simp_all add: bit_0 bit_Suc del: bit_and_iff)
  next
    case pos
    then have d: "(n - 1) div 2 = n div 2 - 1" "n div 2 < n" by presburger+
    show ?thesis
    proof (cases k)
      case (Suc k')
      have "(\<exists>j<Suc k'. bit n j) \<longleftrightarrow> (\<exists>j<k'. bit (n div 2) j)"
        using pos(1) by (auto simp: less_Suc_eq_0_disj bit_0 bit_Suc)
      moreover have "bit (n AND (n - 1)) k \<longleftrightarrow> bit (n div 2 AND (n div 2 - 1)) k'"
        using d(1) bit_and_iff [of n "n - 1" k] bit_and_iff [of "n div 2" "n div 2 - 1" k']
        unfolding Suc bit_Suc by (simp only:)
      ultimately show ?thesis using less.IH [OF d(2), of k'] Suc by (simp add: bit_Suc)
    qed (use pos(1) bit_and_iff [of n "n - 1" k] in \<open>simp add: bit_0\<close>)
  qed simp
qed

lemma bit_and_minus_one: "bit (w AND (w - 1)) k \<longleftrightarrow> bit w k \<and> (\<exists>j<k. bit w j)" for w :: u32
proof (cases "w = 0")
  case False
  have u: "bit v k \<longleftrightarrow> bit (unat v) k" for v :: u32 and k
    using bit_imp_le_length [of v k] by (auto simp: bit_unsigned_iff)
  have "unat (w AND (w - 1)) = unat w AND (unat w - 1)"
    by (simp only: unsigned_and_eq unat_minus_one [OF False])
  then show ?thesis by (simp only: u bit_and_minus_one_nat)
qed simp

lemma ctz_props:
  assumes "w \<noteq> (0 :: u32)"
  shows "ctz w < 32" and "bit w (ctz w)" and "j < ctz w \<Longrightarrow> \<not> bit w j"
proof -
  obtain k where k: "bit w k" using assms by (auto simp: bit_eq_iff)
  then have "k < 32" using bit_imp_le_length [of w k] by simp
  with k have ex: "\<exists>x \<in> set [0..<32]. \<not> \<not> bit w x" by auto
  let ?t = "takeWhile (\<lambda>n. \<not> bit w n) [0..<32]"
  have "length ?t < length [0..<32]"
  proof (rule ccontr)
    assume "\<not> ?thesis"
    then have "?t = [0..<32]"
      by (metis length_takeWhile_le linorder_not_less nat_less_le takeWhile_eq_take take_all)
    then show False using ex by (metis set_takeWhileD)
  qed
  then show "ctz w < 32" by (simp add: ctz_def)
  with nth_length_takeWhile [of "\<lambda>n. \<not> bit w n" "[0..<32]"] show "bit w (ctz w)"
    by (simp add: ctz_def)
  show "\<not> bit w j" if "j < ctz w" for j
    using that \<open>ctz w < 32\<close> takeWhile_nth [of j "\<lambda>n. \<not> bit w n" "[0..<32]"]
      nth_mem [of j ?t] set_takeWhileD [of "?t ! j" "\<lambda>n. \<not> bit w n" "[0..<32]"]
    by (simp add: ctz_def)
qed

lemma mask_channels_eq: "mask_channels m = filter (bit m) [0..<32]"
proof (induction m rule: mask_channels.induct)
  case (1 m)
  show ?case
  proof (cases "m = 0")
    case True
    then show ?thesis by (simp add: mask_channels.simps)
  next
    case False
    note c = ctz_props [OF False]
    let ?c = "ctz m"
    have up: "[0..<32] = [0..<?c] @ ?c # [Suc ?c..<32]"
      using c(1) upt_add_eq_append [of 0 ?c "32 - ?c"] by (simp add: upt_conv_Cons)
    have "filter (bit m) [0..<32] = ?c # filter (bit m) [Suc ?c..<32]"
      using c(2,3) by (subst up) (auto simp: filter_empty_conv)
    also have "filter (bit m) [Suc ?c..<32] = filter (bit (m AND (m - 1))) [Suc ?c..<32]"
      using c(2) by (intro filter_cong) (auto simp: bit_and_minus_one Suc_le_eq)
    also have "\<dots> = filter (bit (m AND (m - 1))) [0..<32]"
      using c(3) by (subst up) (auto simp: filter_empty_conv bit_and_minus_one)
    finally show ?thesis using 1 [OF False] False by (simp add: mask_channels.simps [of m])
  qed
qed

lemma set_mask_channels [simp]: "set (mask_channels m) = {ch. bit m ch}"
  using bit_imp_le_length [of m] by (auto simp: mask_channels_eq)

lemma distinct_mask_channels [simp]: "distinct (mask_channels m)"
  by (simp add: mask_channels_eq)

lemma bit_or_channel: "ch < 32 \<Longrightarrow> bit (m OR push_bit ch 1 :: u32) k \<longleftrightarrow> bit m k \<or> k = ch"
  by (auto simp: bit_or_iff push_bit_eq_mult bit_exp_iff)

end
