(* ===== verification/Scatter_Gather.thy ===== *)
theory Scatter_Gather
  imports Prelude
begin

text \<open>
  Scatter-gather entries (\<open>include/gfd/copy_engine.h\<close>) and what a list of them means. An entry
  asks for one copy of \<open>size\<close> bytes; \<open>dma\<close> is the effect of that copy on memory and \<open>dmas\<close> of a
  list executed in order. The copies of one batch run on several copy-engine channels in an order
  nobody fixes, so the theory shows that for entries whose destinations are disjoint from each
  other and from all sources the order does not matter, and gives the byte every address holds
  afterwards.
\<close>

section \<open>Entries and their effect\<close>

record SGEntry =
  sg_dst :: u64
  sg_src :: u64
  sg_size :: u64

definition memcpy :: "u64 \<Rightarrow> u64 \<Rightarrow> nat \<Rightarrow> mem \<Rightarrow> mem" where
  "memcpy d s n m = (\<lambda>a. if unat (a - d) < n then m (s + (a - d)) else m a)"

definition dma :: "SGEntry \<Rightarrow> mem \<Rightarrow> mem" where
  "dma e = memcpy (sg_dst e) (sg_src e) (unat (sg_size e))"

definition dmas :: "SGEntry list \<Rightarrow> mem \<Rightarrow> mem" where
  "dmas es m = fold dma es m"

lemma dmas_simps [simp]:
  "dmas [] m = m"
  "dmas (e # es) m = dmas es (dma e m)"
  "dmas (es @ fs) m = dmas fs (dmas es m)"
  by (simp_all add: dmas_def)

abbreviation dst_region :: "SGEntry \<Rightarrow> u64 set" where
  "dst_region e \<equiv> region (sg_dst e) (unat (sg_size e))"

abbreviation src_region :: "SGEntry \<Rightarrow> u64 set" where
  "src_region e \<equiv> region (sg_src e) (unat (sg_size e))"

lemma memcpy_in: "a \<in> region d n \<Longrightarrow> memcpy d s n m a = m (s + (a - d))"
  by (simp add: memcpy_def in_region)

lemma memcpy_out: "a \<notin> region d n \<Longrightarrow> memcpy d s n m a = m a"
  by (simp add: memcpy_def in_region)

lemma dma_in: "a \<in> dst_region e \<Longrightarrow> dma e m a = m (sg_src e + (a - sg_dst e))"
  by (simp add: dma_def memcpy_in)

lemma dma_out: "a \<notin> dst_region e \<Longrightarrow> dma e m a = m a"
  by (simp add: dma_def memcpy_out)

lemma src_of_dst: "a \<in> dst_region e \<Longrightarrow> sg_src e + (a - sg_dst e) \<in> src_region e"
  by (simp add: in_region)

lemma dmas_out: "(\<And>e. e \<in> set es \<Longrightarrow> a \<notin> dst_region e) \<Longrightarrow> dmas es m a = m a"
  by (induction es arbitrary: m) (auto simp: dma_out)

section \<open>Separation\<close>

text \<open>
  The precondition callers establish: destinations pairwise disjoint, and no source overlaps a
  destination (sources are pinned host memory, destinations device memory).
\<close>

definition dst_disjoint :: "SGEntry list \<Rightarrow> bool" where
  "dst_disjoint es = sorted_wrt (\<lambda>e f. disjnt (dst_region e) (dst_region f)) es"

definition src_dst_disjoint :: "SGEntry list \<Rightarrow> bool" where
  "src_dst_disjoint es \<longleftrightarrow> (\<forall>e \<in> set es. \<forall>f \<in> set es. disjnt (src_region e) (dst_region f))"

definition separate :: "SGEntry list \<Rightarrow> bool" where
  "separate es \<longleftrightarrow> dst_disjoint es \<and> src_dst_disjoint es"

lemma separate_Nil [simp]: "separate []"
  by (simp add: separate_def dst_disjoint_def src_dst_disjoint_def)

lemma dst_disjoint_Cons [simp]:
  "dst_disjoint (e # es) \<longleftrightarrow> (\<forall>f \<in> set es. disjnt (dst_region e) (dst_region f)) \<and> dst_disjoint es"
  by (simp add: dst_disjoint_def)

lemma dst_disjoint_Nil [simp]: "dst_disjoint []"
  by (simp add: dst_disjoint_def)

lemma dst_disjoint_append [simp]:
  "dst_disjoint (es @ fs) \<longleftrightarrow> dst_disjoint es \<and> dst_disjoint fs \<and>
     (\<forall>e \<in> set es. \<forall>f \<in> set fs. disjnt (dst_region e) (dst_region f))"
  by (auto simp: dst_disjoint_def sorted_wrt_append)

lemma dst_disjoint_perm: "mset es = mset fs \<Longrightarrow> dst_disjoint es \<Longrightarrow> dst_disjoint fs"
proof (induction es arbitrary: fs)
  case (Cons e es)
  then have "e \<in> set fs" by (metis list.set_intros(1) set_mset_mset)
  then obtain as bs where fs: "fs = as @ e # bs" by (metis split_list)
  with Cons.prems(1) have m: "mset es = mset (as @ bs)" by simp
  then have s: "set es = set as \<union> set bs" by (metis set_append set_mset_mset)
  from Cons.IH [OF m] Cons.prems(2) have "dst_disjoint (as @ bs)" by simp
  with Cons.prems(2) show ?case by (auto simp: fs s disjnt_sym)
qed simp

lemma src_dst_disjoint_perm: "mset es = mset fs \<Longrightarrow> src_dst_disjoint es \<Longrightarrow> src_dst_disjoint fs"
  by (auto simp: src_dst_disjoint_def dest: mset_eq_setD)

lemma separate_perm: "mset es = mset fs \<Longrightarrow> separate es \<Longrightarrow> separate fs"
  by (auto simp: separate_def intro: dst_disjoint_perm src_dst_disjoint_perm)

lemma separate_ConsD: "separate (e # es) \<Longrightarrow> separate es"
  by (auto simp: separate_def src_dst_disjoint_def)

text \<open>Separation of a list depends on its tail only through the memory the tail covers.\<close>

lemma separate_Cons_iff:
  "separate (e # es) \<longleftrightarrow> separate es
     \<and> disjnt (dst_region e) (\<Union> (dst_region ` set es)) \<and> disjnt (src_region e) (\<Union> (dst_region ` set es))
     \<and> disjnt (\<Union> (src_region ` set es)) (dst_region e) \<and> disjnt (src_region e) (dst_region e)"
  by (auto simp: separate_def src_dst_disjoint_def disjnt_iff)

lemma separate_appendD1: "separate (es @ fs) \<Longrightarrow> separate es"
  by (auto simp: separate_def src_dst_disjoint_def)

lemma separate_appendD2: "separate (es @ fs) \<Longrightarrow> separate fs"
  by (auto simp: separate_def src_dst_disjoint_def)

section \<open>What the copies leave in memory\<close>

lemma dmas_in:
  assumes "separate es" "e \<in> set es" "a \<in> dst_region e"
  shows "dmas es m a = m (sg_src e + (a - sg_dst e))"
  using assms
proof (induction es arbitrary: m)
  case (Cons f es)
  show ?case
  proof (cases "e = f \<and> e \<notin> set es")
    case True
    with Cons.prems have "a \<notin> dst_region g" if "g \<in> set es" for g
      using that by (auto simp: separate_def disjnt_iff)
    with True Cons.prems show ?thesis by (simp add: dmas_out dma_in)
  next
    case False
    with Cons.prems(2) have e: "e \<in> set es" by auto
    have "sg_src e + (a - sg_dst e) \<notin> dst_region f"
      using Cons.prems src_of_dst [OF Cons.prems(3)]
      by (auto simp: separate_def src_dst_disjoint_def disjnt_iff)
    with Cons.IH [OF separate_ConsD [OF Cons.prems(1)] e Cons.prems(3)] show ?thesis
      by (simp add: dma_out)
  qed
qed simp

theorem dmas_perm:
  assumes "mset es = mset fs" "separate es"
  shows "dmas es m = dmas fs m"
proof
  fix a
  have s: "set es = set fs" using assms(1) by (rule mset_eq_setD)
  have f: "separate fs" using assms by (rule separate_perm)
  show "dmas es m a = dmas fs m a"
  proof (cases "\<exists>e \<in> set es. a \<in> dst_region e")
    case True
    then obtain e where "e \<in> set es" "a \<in> dst_region e" by blast
    with assms(2) f s show ?thesis by (simp add: dmas_in [of _ e])
  next
    case False
    then have "dmas es m a = m a" by (intro dmas_out) blast
    moreover from False s have "dmas fs m a = m a" by (intro dmas_out) blast
    ultimately show ?thesis by simp
  qed
qed

section \<open>Contiguity and coalescing\<close>

text \<open>The test the code repeats: the next entry continues the previous one on both sides.\<close>

definition contig :: "SGEntry \<Rightarrow> SGEntry \<Rightarrow> bool" where
  "contig prev e \<longleftrightarrow> sg_dst e = sg_dst prev + sg_size prev \<and> sg_src e = sg_src prev + sg_size prev"

definition grow :: "SGEntry \<Rightarrow> SGEntry \<Rightarrow> SGEntry" where
  "grow prev e = prev\<lparr>sg_size := sg_size prev + sg_size e\<rparr>"

definition bytes :: "SGEntry list \<Rightarrow> nat" where
  "bytes es = sum_list (map (unat \<circ> sg_size) es)"

lemma bytes_simps [simp]:
  "bytes [] = 0"
  "bytes (e # es) = unat (sg_size e) + bytes es"
  "bytes (es @ fs) = bytes es + bytes fs"
  by (simp_all add: bytes_def)

lemma bytes_perm: "mset es = mset fs \<Longrightarrow> bytes es = bytes fs"
  by (simp add: bytes_def flip: sum_mset_sum_list)

lemma grow_fields [simp]:
  "sg_dst (grow p e) = sg_dst p" "sg_src (grow p e) = sg_src p"
  "sg_size (grow p e) = sg_size p + sg_size e"
  by (simp_all add: grow_def)

lemma unat_grow:
  "unat (sg_size p) + unat (sg_size e) < 2 ^ 64 \<Longrightarrow>
   unat (sg_size (grow p e)) = unat (sg_size p) + unat (sg_size e)"
  by (simp add: unat_add_u64)

lemma grow_regions:
  assumes "contig p e" "unat (sg_size p) + unat (sg_size e) < 2 ^ 64"
  shows "dst_region (grow p e) = dst_region p \<union> dst_region e"
    and "src_region (grow p e) = src_region p \<union> src_region e"
  using assms region_add [of "unat (sg_size p)" "unat (sg_size e)"]
  by (simp_all add: unat_add_u64 contig_def)

lemma dma_grow:
  assumes c: "contig p e" and b: "unat (sg_size p) + unat (sg_size e) < 2 ^ 64"
    and d: "disjnt (src_region e) (dst_region p)" "disjnt (dst_region p) (dst_region e)"
  shows "dma (grow p e) m = dma e (dma p m)"
proof
  fix a
  consider (e) "a \<in> dst_region e" | (p) "a \<in> dst_region p" "a \<notin> dst_region e"
    | (o) "a \<notin> dst_region p" "a \<notin> dst_region e" by blast
  then show "dma (grow p e) m a = dma e (dma p m) a"
  proof cases
    case e
    then have "sg_src e + (a - sg_dst e) \<notin> dst_region p"
      using d(1) src_of_dst [OF e] by (auto simp: disjnt_iff)
    with e have "dma e (dma p m) a = m (sg_src e + (a - sg_dst e))"
      by (simp add: dma_in [of a e] dma_out [of _ p])
    also have "sg_src e + (a - sg_dst e) = sg_src p + (a - sg_dst p)"
      using c by (simp add: contig_def algebra_simps)
    also have "m \<dots> = dma (grow p e) m a"
      using e grow_regions(1) [OF c b] by (simp add: dma_in [of a "grow p e"])
    finally show ?thesis by simp
  next
    case p
    then show ?thesis using grow_regions(1) [OF c b]
      by (simp add: dma_in [of a p] dma_out [of _ e] dma_in [of a "grow p e"])
  next
    case o
    then show ?thesis using grow_regions(1) [OF c b] by (simp add: dma_out)
  qed
qed

end
