(* ===== verification/Coalescing.thy ===== *)
theory Coalescing
  imports Scatter_Gather
begin

text \<open>
  The coalescing code of \<open>src/batch_processor.cpp\<close>: the contiguity loops that decide whether a
  whole group of entries is one transfer, the single entry that replaces such a group, the run
  merging of the generic path, and the destination-run merging of the staging path. The lemmas show that the
  merged entries copy the same bytes as the entries they replace.
\<close>

section \<open>Groups that are one transfer\<close>

text \<open>The loops \<open>for (i = 1; i < n; i++)\<close> that compare entry \<open>i\<close> with entry \<open>i-1\<close>.\<close>

fun fully_contiguous :: "SGEntry list \<Rightarrow> bool" where
  "fully_contiguous (e # f # es) = (contig e f \<and> fully_contiguous (f # es))"
| "fully_contiguous es = True"

definition size_sum :: "SGEntry list \<Rightarrow> u64" where
  "size_sum es = fold (\<lambda>e acc. acc + sg_size e) es 0"

definition merged :: "SGEntry list \<Rightarrow> SGEntry" where
  "merged es = (hd es)\<lparr>sg_size := size_sum es\<rparr>"

text \<open>The generic path: extend the last coalesced entry or append a new one.\<close>

fun coalesce_from :: "SGEntry \<Rightarrow> SGEntry list \<Rightarrow> SGEntry list" where
  "coalesce_from prev [] = [prev]"
| "coalesce_from prev (e # es) =
     (if contig prev e then coalesce_from (grow prev e) es else prev # coalesce_from e es)"

fun coalesce :: "SGEntry list \<Rightarrow> SGEntry list" where
  "coalesce [] = []"
| "coalesce (e # es) = coalesce_from e es"

text \<open>
  The staging path: after the gather the staging buffer mirrors the destination range, so runs are
  merged on the destination side only, and each run reads from the mirror of its own range.
\<close>

fun dst_runs_from :: "u64 \<Rightarrow> u64 \<Rightarrow> u64 \<Rightarrow> u64 \<Rightarrow> SGEntry list \<Rightarrow> SGEntry list" where
  "dst_runs_from cur_buf min_dst run_start run_size [] =
     [\<lparr>sg_dst = run_start, sg_src = cur_buf + (run_start - min_dst), sg_size = run_size\<rparr>]"
| "dst_runs_from cur_buf min_dst run_start run_size (e # es) =
     (if sg_dst e = run_start + run_size
      then dst_runs_from cur_buf min_dst run_start (run_size + sg_size e) es
      else \<lparr>sg_dst = run_start, sg_src = cur_buf + (run_start - min_dst), sg_size = run_size\<rparr>
           # dst_runs_from cur_buf min_dst (sg_dst e) (sg_size e) es)"

fun dst_runs :: "u64 \<Rightarrow> u64 \<Rightarrow> SGEntry list \<Rightarrow> SGEntry list" where
  "dst_runs cur_buf min_dst [] = []"
| "dst_runs cur_buf min_dst (e # es) = dst_runs_from cur_buf min_dst (sg_dst e) (sg_size e) es"

section \<open>Growing an entry keeps the list separate\<close>

lemma separate_grow:
  assumes "separate (p # e # es)" "contig p e" "bytes (p # e # es) < 2 ^ 64"
  shows "separate (grow p e # es)"
proof -
  have b: "unat (sg_size p) + unat (sg_size e) < 2 ^ 64" using assms(3) by simp
  note r = grow_regions [OF assms(2) b]
  show ?thesis
    using assms(1) r
    by (simp add: separate_def src_dst_disjoint_def disjnt_Un1 disjnt_Un2 del: grow_fields)
qed

lemma dma_grow_separate:
  assumes "separate (p # e # es)" "contig p e" "bytes (p # e # es) < 2 ^ 64"
  shows "dma (grow p e) m = dma e (dma p m)"
  using assms by (intro dma_grow) (auto simp: separate_def src_dst_disjoint_def)

lemma bytes_grow:
  "bytes (p # e # es) < 2 ^ 64 \<Longrightarrow> bytes (grow p e # es) = bytes (p # e # es)"
  by (simp add: unat_grow del: grow_fields)

section \<open>Coalescing copies the same bytes\<close>

lemma coalesce_from_correct:
  assumes "separate (p # es)" "bytes (p # es) < 2 ^ 64"
  shows "dmas (coalesce_from p es) m = dmas (p # es) m"
    and "separate (coalesce_from p es)"
    and "bytes (coalesce_from p es) = bytes (p # es)"
    and "\<Union> (dst_region ` set (coalesce_from p es)) = \<Union> (dst_region ` set (p # es))"
    and "\<Union> (src_region ` set (coalesce_from p es)) = \<Union> (src_region ` set (p # es))"
proof -
  have "(\<forall>m. dmas (coalesce_from p es) m = dmas (p # es) m) \<and> separate (coalesce_from p es)
    \<and> bytes (coalesce_from p es) = bytes (p # es)
    \<and> \<Union> (dst_region ` set (coalesce_from p es)) = \<Union> (dst_region ` set (p # es))
    \<and> \<Union> (src_region ` set (coalesce_from p es)) = \<Union> (src_region ` set (p # es))"
    using assms
  proof (induction es arbitrary: p)
    case (Cons e es)
    show ?case
    proof (cases "contig p e")
      case True
      note g = separate_grow [OF Cons.prems(1) True Cons.prems(2)]
      note b = bytes_grow [OF Cons.prems(2)]
      have r: "unat (sg_size p) + unat (sg_size e) < 2 ^ 64" using Cons.prems(2) by simp
      from Cons.IH [OF g] b Cons.prems(2) True show ?thesis
        using dma_grow_separate [OF Cons.prems(1) True Cons.prems(2)] grow_regions [OF True r]
        by (simp add: Un_assoc del: grow_fields)
    next
      case False
      have t: "separate (e # es)" "bytes (e # es) < 2 ^ 64"
        using Cons.prems by (auto dest: separate_ConsD)
      note ih = Cons.IH [OF t]
      have "separate (p # coalesce_from e es)"
        using Cons.prems(1) ih unfolding separate_Cons_iff by simp
      with ih False show ?thesis by simp
    qed
  qed simp
  then show "dmas (coalesce_from p es) m = dmas (p # es) m"
    and "separate (coalesce_from p es)"
    and "bytes (coalesce_from p es) = bytes (p # es)"
    and "\<Union> (dst_region ` set (coalesce_from p es)) = \<Union> (dst_region ` set (p # es))"
    and "\<Union> (src_region ` set (coalesce_from p es)) = \<Union> (src_region ` set (p # es))"
    by blast+
qed

lemma coalesce_correct:
  assumes "separate es" "bytes es < 2 ^ 64"
  shows "dmas (coalesce es) m = dmas es m" and "separate (coalesce es)"
    and "bytes (coalesce es) = bytes es"
    and "\<Union> (dst_region ` set (coalesce es)) = \<Union> (dst_region ` set es)"
    and "\<Union> (src_region ` set (coalesce es)) = \<Union> (src_region ` set es)"
  using assms coalesce_from_correct by (cases es; simp)+

lemma length_coalesce_from: "length (coalesce_from p es) \<le> Suc (length es)"
  by (induction es arbitrary: p) (auto intro: le_SucI)

lemma length_coalesce: "length (coalesce es) \<le> length es"
  by (cases es) (simp_all add: length_coalesce_from)

section \<open>A contiguous group is one entry\<close>

lemma fold_add_acc: "fold (\<lambda>e acc. acc + sg_size e) es (a :: u64) = a + fold (\<lambda>e acc. acc + sg_size e) es 0"
proof (induction es arbitrary: a)
  case (Cons e es)
  show ?case using Cons.IH [of "a + sg_size e"] Cons.IH [of "sg_size e"] by simp
qed simp

lemma size_sum_Cons [simp]: "size_sum [] = 0" "size_sum (e # es) = sg_size e + size_sum es"
  by (simp_all add: size_sum_def fold_add_acc [of es "sg_size e"])

lemma unat_size_sum: "bytes es < 2 ^ 64 \<Longrightarrow> unat (size_sum es) = bytes es"
  by (induction es) (auto simp: unat_add_u64)

lemma fully_contiguous_Cons:
  "fully_contiguous (e # f # es) \<Longrightarrow> fully_contiguous (grow e f # es)"
  by (cases es) (auto simp: contig_def add.assoc)

lemma merged_grow: "merged (e # f # es) = merged (grow e f # es)"
  by (simp add: merged_def add.assoc grow_def)

lemma merged_dma:
  assumes "es \<noteq> []" "fully_contiguous es" "separate es" "bytes es < 2 ^ 64"
  shows "dma (merged es) m = dmas es m"
proof -
  obtain p qs where es: "es = p # qs" using assms(1) by (cases es) auto
  have "dma (merged (p # qs)) m = dmas (p # qs) m"
    using assms(2-4) unfolding es
  proof (induction qs arbitrary: p)
    case Nil
    then show ?case by (simp add: merged_def dma_def)
  next
    case (Cons e qs)
    then have c: "contig p e" by simp
    have "dma (merged (p # e # qs)) m = dma (merged (grow p e # qs)) m"
      by (simp add: merged_grow)
    also have "\<dots> = dmas (grow p e # qs) m"
      using Cons.prems bytes_grow [OF Cons.prems(3)]
      by (intro Cons.IH fully_contiguous_Cons separate_grow [OF Cons.prems(2) c Cons.prems(3)])
        (simp_all del: bytes_simps)
    also have "\<dots> = dmas (p # e # qs) m"
      by (simp add: dma_grow_separate [OF Cons.prems(2) c Cons.prems(3)])
    finally show ?case .
  qed
  then show ?thesis by (simp add: es)
qed

end
