(* ===== verification/Staging.thy ===== *)
theory Staging
  imports Coalescing
begin

text \<open>
  Gathering through a staging buffer. The gather copies every source to the place in the staging
  buffer that mirrors its destination (\<open>staging + (dst - min_dst)\<close>, as in
  \<open>gather_worker_loop\<close> and \<open>parallel_gather\<close>), and the DMA then copies runs of the mirror to the device.
  The main lemma: outside the staging buffer this leaves exactly what copying every entry directly would.
\<close>

definition staged :: "u64 \<Rightarrow> u64 \<Rightarrow> SGEntry \<Rightarrow> SGEntry" where
  "staged staging min_dst e = e\<lparr>sg_dst := staging + (sg_dst e - min_dst)\<rparr>"

definition mirrored :: "u64 \<Rightarrow> u64 \<Rightarrow> SGEntry \<Rightarrow> SGEntry" where
  "mirrored staging min_dst e = e\<lparr>sg_src := staging + (sg_dst e - min_dst)\<rparr>"

lemma staged_fields [simp]:
  "sg_dst (staged b d e) = b + (sg_dst e - d)" "sg_src (staged b d e) = sg_src e"
  "sg_size (staged b d e) = sg_size e"
  by (simp_all add: staged_def)

lemma mirrored_fields [simp]:
  "sg_dst (mirrored b d e) = sg_dst e" "sg_src (mirrored b d e) = b + (sg_dst e - d)"
  "sg_size (mirrored b d e) = sg_size e"
  by (simp_all add: mirrored_def)

text \<open>The staging buffer is big enough and apart from everything the batch touches.\<close>

definition staging_fits :: "u64 \<Rightarrow> u64 \<Rightarrow> nat \<Rightarrow> SGEntry list \<Rightarrow> bool" where
  "staging_fits staging min_dst n es \<longleftrightarrow> (\<forall>e \<in> set es. dst_region e \<subseteq> region min_dst n
     \<and> disjnt (src_region e) (region staging n) \<and> disjnt (dst_region e) (region staging n))"

lemma region_shift: "x \<in> region (b + (d - c)) n \<longleftrightarrow> x - b + c \<in> region d n"
proof -
  have "x - (b + (d - c)) = (x - b + c) - d" by simp
  then show ?thesis by (simp only: in_region)
qed

lemma mirror_of_dst: "a \<in> region d n \<Longrightarrow> b + (a - c) \<in> region (b + (d - c)) n"
  by (simp add: region_shift)

lemma staged_subset:
  assumes "region (sg_dst e) k \<subseteq> region d n"
  shows "region (b + (sg_dst e - d)) k \<subseteq> region b n"
proof
  fix x assume "x \<in> region (b + (sg_dst e - d)) k"
  then have "x - b + d \<in> region d n" using assms by (auto simp: region_shift)
  then show "x \<in> region b n" by (simp add: in_region)
qed

lemma staged_in_buffer:
  "staging_fits b d n es \<Longrightarrow> e \<in> set es \<Longrightarrow>
     region (b + (sg_dst e - d)) (unat (sg_size e)) \<subseteq> region b n"
  by (rule staged_subset) (simp add: staging_fits_def)

lemma mirrored_eq:
  "mirrored b d e = \<lparr>sg_dst = sg_dst e, sg_src = b + (sg_dst e - d), sg_size = sg_size e\<rparr>"
  by (cases e) (simp add: mirrored_def)

lemma dst_runs_from_mirrored:
  "dst_runs_from b d s n es =
     coalesce_from \<lparr>sg_dst = s, sg_src = b + (s - d), sg_size = n\<rparr> (map (mirrored b d) es)"
proof (induction es arbitrary: s n)
  case (Cons e es)
  have "contig \<lparr>sg_dst = s, sg_src = b + (s - d), sg_size = n\<rparr> (mirrored b d e) \<longleftrightarrow> sg_dst e = s + n"
    by (auto simp: contig_def)
  with Cons.IH show ?case by (simp add: grow_def mirrored_eq)
qed simp

lemma dst_runs_mirrored: "dst_runs b d es = coalesce (map (mirrored b d) es)"
  by (cases es) (simp_all add: dst_runs_from_mirrored mirrored_eq)

lemma separate_staged:
  assumes s: "separate es" and f: "staging_fits b d n es"
  shows "separate (map (staged b d) es)"
proof -
  have "dst_disjoint (map (staged b d) es)"
    using s unfolding separate_def dst_disjoint_def
    by (auto simp: sorted_wrt_map disjnt_iff region_shift elim: sorted_wrt_mono_rel [rotated])
  moreover have "src_dst_disjoint (map (staged b d) es)"
    using f staged_in_buffer [OF f] unfolding src_dst_disjoint_def staging_fits_def
    by simp (meson disjnt_subset2)
  ultimately show ?thesis by (simp add: separate_def)
qed

lemma separate_mirrored:
  assumes s: "separate es" and f: "staging_fits b d n es"
  shows "separate (map (mirrored b d) es)"
proof -
  have "dst_disjoint (map (mirrored b d) es)"
    using s by (simp add: separate_def dst_disjoint_def sorted_wrt_map)
  moreover have "src_dst_disjoint (map (mirrored b d) es)"
    using f staged_in_buffer [OF f] unfolding src_dst_disjoint_def staging_fits_def
    by simp (meson disjnt_subset1 disjnt_sym)
  ultimately show ?thesis by (simp add: separate_def)
qed

lemma gather_then_mirror:
  assumes s: "separate es" and f: "staging_fits b d n es" and a: "a \<notin> region b n"
  shows "dmas (map (mirrored b d) es) (dmas (map (staged b d) es) m) a = dmas es m a"
proof (cases "\<exists>e \<in> set es. a \<in> dst_region e")
  case True
  then obtain e where e: "e \<in> set es" "a \<in> dst_region e" by blast
  let ?m = "dmas (map (staged b d) es) m"
  have "dmas (map (mirrored b d) es) ?m a = ?m (b + (a - d))"
    using dmas_in [OF separate_mirrored [OF s f], of "mirrored b d e" a ?m] e
    by (simp add: algebra_simps)
  also have "\<dots> = m (sg_src e + (a - sg_dst e))"
    using dmas_in [OF separate_staged [OF s f], of "staged b d e" "b + (a - d)" m] e
      mirror_of_dst [OF e(2), of b d]
    by (simp add: algebra_simps)
  also have "\<dots> = dmas es m a" using dmas_in [OF s e] by simp
  finally show ?thesis .
next
  case False
  have "a \<notin> dst_region (staged b d e)" if "e \<in> set es" for e
    using staged_in_buffer [OF f that] a by auto
  then have "dmas (map (staged b d) es) m a = m a" by (intro dmas_out) auto
  moreover have "dmas (map (mirrored b d) es) m' a = m' a" for m'
    using False by (intro dmas_out) auto
  moreover have "dmas es m a = m a" using False by (intro dmas_out) blast
  ultimately show ?thesis by simp
qed

lemma bytes_mirrored [simp]: "bytes (map (mirrored b d) es) = bytes es"
  by (simp add: bytes_def comp_def)

theorem staging_correct:
  assumes "separate es" "staging_fits b d n es" "bytes es < 2 ^ 64" "a \<notin> region b n"
    and "mset es' = mset es"
  shows "dmas (dst_runs b d es') (dmas (map (staged b d) es) m) a = dmas es m a"
proof -
  let ?m = "dmas (map (staged b d) es) m"
  have s': "separate es'" using assms(1,5) by (metis separate_perm)
  have f': "staging_fits b d n es'"
    using assms(2) mset_eq_setD [OF assms(5)] by (simp add: staging_fits_def)
  have b': "bytes es' < 2 ^ 64" using assms(3) bytes_perm [OF assms(5)] by simp
  have "dmas (dst_runs b d es') ?m = dmas (map (mirrored b d) es') ?m"
    unfolding dst_runs_mirrored using b'
    by (intro coalesce_correct separate_mirrored [OF s' f']) simp
  also have "\<dots> = dmas (map (mirrored b d) es) ?m"
    using assms(5) by (intro dmas_perm separate_mirrored [OF s' f']) simp
  finally show ?thesis using gather_then_mirror [OF assms(1,2,4)] by simp
qed

end
