(* ===== verification/Radix_Sort.thy ===== *)
theory Radix_Sort
  imports Staging
begin

text \<open>
  \<open>radix_sort_sg\<close> of \<open>src/batch_processor.cpp\<close>: counting sort on 8-bit digits, least significant
  first, four passes over ping-pong buffers; \<open>std::sort\<close> for at most 64 entries. The integer
  arrays \<open>counts\<close> and \<open>offsets\<close> are functions on indices, the entry arrays are lists updated
  in place. The theory shows that one pass is a stable sort by the digit, and the whole routine a stable
  sort by the low 32 bits of the key: the upper half of an address does not take part.
\<close>

section \<open>The code\<close>

definition RADIX_BITS :: nat where "RADIX_BITS = 8"
definition RADIX_SIZE :: nat where "RADIX_SIZE = 256"
definition RADIX_MASK :: u64 where "RADIX_MASK = 255"

definition bucket :: "nat \<Rightarrow> u64 \<Rightarrow> nat" where
  "bucket shift k = unat (drop_bit shift k AND RADIX_MASK)"

definition radix_counts :: "(SGEntry \<Rightarrow> u64) \<Rightarrow> nat \<Rightarrow> SGEntry list \<Rightarrow> nat \<Rightarrow> nat" where
  "radix_counts key_fn shift src =
     fold (\<lambda>e counts. counts(bucket shift (key_fn e) := counts (bucket shift (key_fn e)) + 1)) src (\<lambda>_. 0)"

fun radix_offsets :: "(nat \<Rightarrow> nat) \<Rightarrow> nat \<Rightarrow> nat" where
  "radix_offsets counts 0 = 0"
| "radix_offsets counts (Suc i) = radix_offsets counts i + counts i"

definition radix_scatter ::
  "(SGEntry \<Rightarrow> u64) \<Rightarrow> nat \<Rightarrow> SGEntry list \<Rightarrow> (nat \<Rightarrow> nat) \<times> SGEntry list \<Rightarrow> (nat \<Rightarrow> nat) \<times> SGEntry list" where
  "radix_scatter key_fn shift src =
     fold (\<lambda>e (offsets, dst). let b = bucket shift (key_fn e)
                              in (offsets(b := offsets b + 1), dst[offsets b := e])) src"

definition radix_pass :: "(SGEntry \<Rightarrow> u64) \<Rightarrow> nat \<Rightarrow> SGEntry list \<Rightarrow> SGEntry list \<Rightarrow> SGEntry list" where
  "radix_pass key_fn pass src dst =
     (let shift = pass * RADIX_BITS; counts = radix_counts key_fn shift src
      in snd (radix_scatter key_fn shift src (radix_offsets counts, dst)))"

text \<open>
  The pass loop. The third component says whether \<open>src\<close> points to \<open>arr\<close>; after the loop the result
  is copied back when it does not.
\<close>

fun radix_loop :: "(SGEntry \<Rightarrow> u64) \<Rightarrow> nat list \<Rightarrow> SGEntry list \<times> SGEntry list \<times> bool
    \<Rightarrow> SGEntry list \<times> SGEntry list \<times> bool" where
  "radix_loop key_fn [] s = s"
| "radix_loop key_fn (pass # ps) (src, dst, src_is_arr) =
     radix_loop key_fn ps (radix_pass key_fn pass src dst, src, \<not> src_is_arr)"

definition std_sort :: "(SGEntry \<Rightarrow> u64) \<Rightarrow> SGEntry list \<Rightarrow> SGEntry list" where
  "std_sort key_fn arr = sort_key key_fn arr"

definition radix_sort_sg :: "SGEntry list \<Rightarrow> SGEntry list \<Rightarrow> (SGEntry \<Rightarrow> u64) \<Rightarrow> SGEntry list" where
  "radix_sort_sg arr tmp key_fn =
     (if length arr \<le> 64 then std_sort key_fn arr
      else case radix_loop key_fn [0..<4] (arr, take (length arr) tmp, True) of
             (src, dst, src_is_arr) \<Rightarrow> if src_is_arr then src else take (length arr) src)"

section \<open>Stable sorting by one digit\<close>

lemma bucket_lt: "bucket shift k < RADIX_SIZE"
proof -
  have "bucket shift k \<le> unat RADIX_MASK"
    unfolding bucket_def by (rule word_and_le1 [THEN word_le_nat_alt [THEN iffD1]])
  then show ?thesis by (simp add: RADIX_MASK_def RADIX_SIZE_def)
qed

lemma bucket_eq: "bucket shift k = unat k div 2 ^ shift mod 256"
proof -
  have "(RADIX_MASK :: u64) = mask 8" by (simp add: RADIX_MASK_def mask_eq_exp_minus_1)
  then have "bucket shift k = unat (take_bit 8 (drop_bit shift k))"
    by (simp only: bucket_def take_bit_eq_mask)
  also have "\<dots> = take_bit 8 (drop_bit shift (unat k))"
    by (simp only: unsigned_take_bit_eq unat_drop_bit_eq)
  finally show ?thesis by (simp add: take_bit_eq_mod drop_bit_eq_div)
qed

text \<open>Counting sort on an arbitrary digit function, stated for lists.\<close>

definition digit_lists :: "('a \<Rightarrow> nat) \<Rightarrow> 'a list \<Rightarrow> nat \<Rightarrow> 'a list" where
  "digit_lists f xs b = filter (\<lambda>x. f x = b) xs"

lemma radix_counts_eq:
  "radix_counts key shift src b = length (digit_lists (\<lambda>e. bucket shift (key e)) src b)"
proof -
  have "fold (\<lambda>e c. c(bucket shift (key e) := c (bucket shift (key e)) + 1)) src c b
      = c b + length (digit_lists (\<lambda>e. bucket shift (key e)) src b)" for c
    by (induction src arbitrary: c) (auto simp: digit_lists_def)
  then show ?thesis by (simp add: radix_counts_def)
qed

lemma radix_offsets_eq:
  assumes "\<And>b. counts b = length (L b)"
  shows "radix_offsets counts b = length (concat (map L [0..<b]))"
  by (induction b) (simp_all add: assms)

lemma radix_offsets_mono: "i \<le> j \<Longrightarrow> radix_offsets c i \<le> radix_offsets c j"
  by (induction j) (auto simp: le_Suc_eq)

lemma radix_offsets_disjoint:
  assumes "b \<noteq> b'" "j < c b" "j' < c b'"
  shows "radix_offsets c b + j \<noteq> radix_offsets c b' + j'"
proof (cases "b < b'")
  case True
  then have "radix_offsets c (Suc b) \<le> radix_offsets c b'" by (intro radix_offsets_mono) simp
  with assms show ?thesis by simp
next
  case False
  with assms(1) have "radix_offsets c (Suc b') \<le> radix_offsets c b" by (intro radix_offsets_mono) simp
  with assms show ?thesis by simp
qed

lemma nth_concat_blocks:
  assumes "length ys = length (concat (map L [0..<n]))"
    and "\<And>b j. b < n \<Longrightarrow> j < length (L b) \<Longrightarrow> ys ! (length (concat (map L [0..<b])) + j) = L b ! j"
  shows "ys = concat (map L [0..<n])"
  using assms
proof (induction n arbitrary: ys)
  case (Suc n)
  let ?k = "length (concat (map L [0..<n]))"
  have l: "length ys = ?k + length (L n)" using Suc.prems(1) by simp
  have "take ?k ys = concat (map L [0..<n])"
  proof (rule Suc.IH)
    show "length (take ?k ys) = ?k" using l by simp
    fix b j assume b: "b < n" and j: "j < length (L b)"
    have "length (concat (map L [0..<Suc b])) \<le> ?k"
    proof -
      have "[0..<n] = [0..<Suc b] @ [Suc b..<n]"
        using b upt_add_eq_append [of 0 "Suc b" "n - Suc b"] by simp
      then show ?thesis by simp
    qed
    with j have "length (concat (map L [0..<b])) + j < ?k" by simp
    with Suc.prems(2) [of b j] b j show "take ?k ys ! (length (concat (map L [0..<b])) + j) = L b ! j"
      by simp
  qed
  moreover have "drop ?k ys = L n"
    using l Suc.prems(2) [of n] by (intro nth_equalityI) simp_all
  ultimately have "take ?k ys @ drop ?k ys = concat (map L [0..<Suc n])" by simp
  then show ?case by simp
qed simp

text \<open>
  The scatter loop. \<open>start b\<close> is where bucket \<open>b\<close> begins; after a prefix of the input, bucket \<open>b\<close>
  holds that prefix's entries with digit \<open>b\<close>, in order, and nothing written is ever overwritten.
\<close>

definition scattered :: "('a \<Rightarrow> nat) \<Rightarrow> (nat \<Rightarrow> nat) \<Rightarrow> 'a list \<Rightarrow> (nat \<Rightarrow> nat) \<times> 'a list \<Rightarrow> bool" where
  "scattered f start xs s \<longleftrightarrow> (\<forall>b. fst s b = start b + length (digit_lists f xs b)) \<and>
     (\<forall>b j. j < length (digit_lists f xs b) \<longrightarrow> snd s ! (start b + j) = digit_lists f xs b ! j)"

lemma scattered_step:
  assumes s: "scattered f start xs (offs, d)"
    and sep: "\<And>b b' j j'. b \<noteq> b' \<Longrightarrow> j < c b \<Longrightarrow> j' < c b' \<Longrightarrow> start b + j \<noteq> start b' + j'"
    and fits: "\<And>b. length (digit_lists f (xs @ [e]) b) \<le> c b"
    and room: "start (f e) + c (f e) \<le> length d"
  shows "scattered f start (xs @ [e]) (offs(f e := offs (f e) + 1), d[offs (f e) := e])"
proof -
  have pos: "offs b = start b + length (digit_lists f xs b)" for b
    using s by (simp add: scattered_def)
  have len: "length (digit_lists f xs (f e)) < c (f e)"
    using fits [of "f e"] by (simp add: digit_lists_def)
  have "d[offs (f e) := e] ! (start b + j) = digit_lists f (xs @ [e]) b ! j"
    if j: "j < length (digit_lists f (xs @ [e]) b)" for b j
  proof (cases "b = f e \<and> j = length (digit_lists f xs b)")
    case True
    with len room show ?thesis by (simp add: pos digit_lists_def nth_append)
  next
    case False
    with j have j': "j < length (digit_lists f xs b)" by (auto simp: digit_lists_def split: if_splits)
    have "offs (f e) \<noteq> start b + j"
    proof (cases "b = f e")
      case False
      have "length (digit_lists f xs b) \<le> c b" using fits [of b] by (simp add: digit_lists_def)
      with sep [OF False, of j "length (digit_lists f xs (f e))"] j' len show ?thesis by (simp add: pos)
    qed (use j' pos in simp)
    with j' s show ?thesis by (simp add: scattered_def digit_lists_def nth_append)
  qed
  then show ?thesis by (simp add: scattered_def pos digit_lists_def)
qed

lemma scatter_loop:
  assumes sep: "\<And>b b' j j'. b \<noteq> b' \<Longrightarrow> j < c b \<Longrightarrow> j' < c b' \<Longrightarrow> start b + j \<noteq> start b' + j'"
    and fits: "\<And>b. length (digit_lists f (xs @ ys) b) \<le> c b"
    and room: "\<And>e. e \<in> set ys \<Longrightarrow> start (f e) + c (f e) \<le> length d"
    and s: "scattered f start xs (offs, d)"
  shows "let s' = fold (\<lambda>e (offs, d). (offs(f e := offs (f e) + 1), d[offs (f e) := e])) ys (offs, d)
         in scattered f start (xs @ ys) s' \<and> length (snd s') = length d"
  using fits room s
proof (induction ys arbitrary: xs offs d)
  case (Cons e ys)
  let ?d = "d[offs (f e) := e]"
  have "length (digit_lists f (xs @ [e]) b) \<le> c b" for b
    using Cons.prems(1) [of b] by (simp add: digit_lists_def split: if_splits)
  then have "scattered f start (xs @ [e]) (offs(f e := offs (f e) + 1), ?d)"
    using Cons.prems(2,3) by (intro scattered_step [where c = c] sep) auto
  with Cons.IH [of "xs @ [e]" ?d "offs(f e := offs (f e) + 1)"] Cons.prems(1,2) show ?case
    by (simp add: Let_def fun_upd_def)
qed (simp add: Let_def)

lemma length_filter_less_Suc:
  "length (filter (\<lambda>x. f x < Suc n) xs) = length (filter (\<lambda>x. f x < n) xs) + length (filter (\<lambda>x. f x = n) xs)"
  by (induction xs) auto

lemma radix_pass_blocks:
  fixes key :: "SGEntry \<Rightarrow> u64" and pass :: nat
  assumes "length dst = length src"
  defines "f \<equiv> \<lambda>e. bucket (pass * RADIX_BITS) (key e)"
  shows "radix_pass key pass src dst = concat (map (digit_lists f src) [0..<RADIX_SIZE])"
proof -
  let ?L = "digit_lists f src" and ?c = "radix_counts key (pass * RADIX_BITS) src"
  let ?start = "radix_offsets ?c"
  have c: "?c b = length (?L b)" for b by (simp add: radix_counts_eq f_def)
  have off: "?start b = length (concat (map ?L [0..<b]))" for b by (rule radix_offsets_eq) (rule c)
  have total: "length (concat (map ?L [0..<RADIX_SIZE])) = length src"
  proof -
    have "f e < RADIX_SIZE" for e by (simp add: f_def bucket_lt)
    then have "sum_list (map (\<lambda>b. length (?L b)) [0..<n]) = length (filter (\<lambda>e. f e < n) src)" for n
      by (induction n) (simp_all add: digit_lists_def length_filter_less_Suc)
    with \<open>\<And>e. f e < RADIX_SIZE\<close> show ?thesis by (simp add: length_concat comp_def)
  qed
  have room: "?start (f e) + ?c (f e) \<le> length dst" for e
    using radix_offsets_mono [of "Suc (f e)" RADIX_SIZE ?c] bucket_lt off [of RADIX_SIZE] total assms(1)
    by (simp add: f_def Suc_le_eq)
  let ?s = "radix_scatter key (pass * RADIX_BITS) src (?start, dst)"
  have "scattered f ?start src ?s \<and> length (snd ?s) = length dst"
    using scatter_loop [where c = ?c and start = ?start and xs = "[]" and ys = src and f = f
        and offs = ?start and d = dst] radix_offsets_disjoint room
    by (simp add: scattered_def digit_lists_def c Let_def radix_scatter_def f_def split_def)
  then have "snd ?s = concat (map ?L [0..<RADIX_SIZE])"
    using off total assms(1) by (intro nth_concat_blocks) (auto simp: scattered_def)
  then show ?thesis by (simp add: radix_pass_def Let_def)
qed

section \<open>From digits to the low 32 bits\<close>

lemma blocks_sort_key:
  assumes "\<And>x. f x < n"
  shows "concat (map (digit_lists f xs) [0..<n]) = sort_key f xs"
proof (rule properties_for_sort_key [symmetric])
  have cut: "mset (concat (map (digit_lists f xs) [0..<k])) = mset (filter (\<lambda>x. f x < k) xs)" for k
  proof (induction k)
    case (Suc k)
    have "mset (filter (\<lambda>x. f x < Suc k) xs) = mset (filter (\<lambda>x. f x < k) xs) + mset (digit_lists f xs k)"
      unfolding digit_lists_def by (induction xs) auto
    with Suc show ?case by simp
  qed simp
  show "mset (concat (map (digit_lists f xs) [0..<n])) = mset xs" using cut [of n] assms by simp
  have pick: "filter (\<lambda>x. v = f x) (concat (map (digit_lists f xs) [0..<k]))
      = (if v < k then digit_lists f xs v else [])" for v k
    by (induction k) (auto simp: digit_lists_def less_Suc_eq filter_empty_conv intro: filter_cong)
  show "filter (\<lambda>x. f y = f x) (concat (map (digit_lists f xs) [0..<n])) = filter (\<lambda>x. f y = f x) xs" for y
    using pick [of "f y" n] assms by (auto simp: digit_lists_def intro: filter_cong)
  show "sorted (map f (concat (map (digit_lists f xs) [0..<n])))"
  proof (induction n)
    case (Suc k)
    have "\<forall>x \<in> set (concat (map (digit_lists f xs) [0..<k])). f x < k" by (auto simp: digit_lists_def)
    moreover have "sorted (map f (digit_lists f xs k))"
      unfolding digit_lists_def by (rule sorted_map_same)
    ultimately show ?case using Suc by (auto simp: sorted_append digit_lists_def less_imp_le)
  qed simp
qed

lemma radix_pass_sort_key:
  "length dst = length src \<Longrightarrow>
   radix_pass key pass src dst = sort_key (\<lambda>e. bucket (pass * RADIX_BITS) (key e)) src"
  by (simp add: radix_pass_blocks blocks_sort_key bucket_lt)

lemma sorted_wrt_lex:
  assumes "\<And>v. sorted_wrt R (filter (\<lambda>x. f x = v) xs)" "sorted (map f xs)"
  shows "sorted_wrt (\<lambda>x y. f x < f y \<or> f x = f y \<and> R x y) xs"
  using assms
proof (induction xs)
  case (Cons x xs)
  have "f x < f y \<or> f x = f y \<and> R x y" if y: "y \<in> set xs" for y
  proof (cases "f x = f y")
    case True
    with Cons.prems(1) [of "f x"] y show ?thesis by auto
  next
    case False
    with Cons.prems(2) y show ?thesis by auto
  qed
  moreover have "sorted_wrt R (filter (\<lambda>x. f x = v) xs)" for v
    using Cons.prems(1) [of v] by (auto split: if_splits)
  ultimately show ?case using Cons by auto
qed simp

lemma sort_key_lex:
  fixes f g :: "'a \<Rightarrow> nat"
  assumes g: "\<And>x. g x < M"
  shows "sort_key f (sort_key g xs) = sort_key (\<lambda>x. f x * M + g x) xs"
proof (rule properties_for_sort_key [symmetric])
  have split: "f x * M + g x = f y * M + g y \<longleftrightarrow> f x = f y \<and> g x = g y" for x y
    by (metis add.commute add_cancel_right_right div_less div_mult_self3 g mod_less mod_mult_self3 not_less_zero)
  show "mset (sort_key f (sort_key g xs)) = mset xs" by simp
  show "filter (\<lambda>x. f y * M + g y = f x * M + g x) (sort_key f (sort_key g xs))
      = filter (\<lambda>x. f y * M + g y = f x * M + g x) xs" for y
  proof -
    let ?P = "\<lambda>x. f y * M + g y = f x * M + g x"
    have fg: "filter ?P zs = filter (\<lambda>x. g x = g y) (filter (\<lambda>x. f x = f y) zs)" for zs
      by (auto simp: split intro: filter_cong)
    have gf: "filter ?P zs = filter (\<lambda>x. f x = f y) (filter (\<lambda>x. g x = g y) zs)" for zs
      by (auto simp: split intro: filter_cong)
    have "filter ?P (sort_key f (sort_key g xs)) = filter ?P (sort_key g xs)"
      by (simp only: fg sort_key_stable)
    also have "\<dots> = filter ?P xs" by (simp only: gf sort_key_stable)
    finally show ?thesis .
  qed
  have "sorted_wrt (\<lambda>x y. g x \<le> g y) (filter (\<lambda>x. f x = v) (sort_key f (sort_key g xs)))" for v
    using sorted_sort_key [of g xs]
    by (simp only: sort_key_stable sorted_map) (rule sorted_wrt_filter)
  then have "sorted_wrt (\<lambda>x y. f x < f y \<or> f x = f y \<and> g x \<le> g y) (sort_key f (sort_key g xs))"
    by (rule sorted_wrt_lex) simp
  then have "sorted_wrt (\<lambda>x y. f x * M + g x \<le> f y * M + g y) (sort_key f (sort_key g xs))"
  proof (rule sorted_wrt_mono_rel [rotated])
    fix x y assume "f x < f y \<or> f x = f y \<and> g x \<le> g y"
    then show "f x * M + g x \<le> f y * M + g y"
    proof
      assume "f x < f y"
      then have "f x * M + M \<le> f y * M" by (metis Suc_leI mult_Suc mult_le_mono1 add.commute)
      with g [of x] show ?thesis by simp
    qed simp
  qed
  then show "sorted (map (\<lambda>x. f x * M + g x) (sort_key f (sort_key g xs)))" by (simp add: sorted_map)
qed

definition low32 :: "u64 \<Rightarrow> nat" where
  "low32 k = unat k mod 2 ^ 32"

lemma low32_digits:
  "bucket 24 k * 256 ^ 3 + (bucket 16 k * 256 ^ 2 + (bucket 8 k * 256 + bucket 0 k)) = low32 k"
proof -
  have "n mod 2 ^ 32 = n div 2 ^ 24 mod 256 * 256 ^ 3 + (n div 2 ^ 16 mod 256 * 256 ^ 2
      + (n div 2 ^ 8 mod 256 * 256 + n mod 256))" for n :: nat
    using mod_mult2_eq [of n "2 ^ 24" "2 ^ 8"] mod_mult2_eq [of n "2 ^ 16" "2 ^ 8"]
      mod_mult2_eq [of n "2 ^ 8" "2 ^ 8"] by simp
  then show ?thesis by (simp add: bucket_eq low32_def)
qed

lemma bucket_lt_256: "bucket s k < 256"
  using bucket_lt [of s k] by (simp add: RADIX_SIZE_def)

lemma four_digits_low32:
  "sort_key (\<lambda>e. bucket 24 (key e)) (sort_key (\<lambda>e. bucket 16 (key e))
     (sort_key (\<lambda>e. bucket 8 (key e)) (sort_key (\<lambda>e. bucket 0 (key e)) xs)))
   = sort_key (\<lambda>e. low32 (key e)) xs"
proof -
  note lt = bucket_lt_256 [of _ "key x" for x]
  have two: "bucket 8 (key x) * 256 + bucket 0 (key x) < 256 ^ 2" for x
    using lt [of 8 x] lt [of 0 x] by simp
  have three: "bucket 16 (key x) * 256 ^ 2 + (bucket 8 (key x) * 256 + bucket 0 (key x)) < 256 ^ 3" for x
    using lt [of 16 x] two [of x] by simp
  show ?thesis
    by (simp only: sort_key_lex [OF lt] sort_key_lex [OF two] sort_key_lex [OF three] low32_digits)
qed

lemma radix_loop_four:
  assumes "length tmp = length arr"
  shows "radix_loop key [0..<4] (arr, tmp, True) =
    (sort_key (\<lambda>e. low32 (key e)) arr,
     sort_key (\<lambda>e. bucket 16 (key e)) (sort_key (\<lambda>e. bucket 8 (key e)) (sort_key (\<lambda>e. bucket 0 (key e)) arr)),
     True)"
proof -
  have "[0..<4] = [0, 1, 2, 3 :: nat]" by (simp add: upt_rec)
  with assms show ?thesis
    by (simp add: radix_pass_sort_key RADIX_BITS_def four_digits_low32)
qed

lemma radix_sort_large:
  assumes "64 < length arr" "length arr \<le> length tmp"
  shows "radix_sort_sg arr tmp key = sort_key (\<lambda>e. low32 (key e)) arr"
  using assms radix_loop_four [of "take (length arr) tmp" arr key] by (simp add: radix_sort_sg_def)

lemma radix_sort_small: "length arr \<le> 64 \<Longrightarrow> radix_sort_sg arr tmp key = sort_key key arr"
  by (simp add: radix_sort_sg_def std_sort_def)

lemma mset_radix_sort: "length arr \<le> length tmp \<Longrightarrow> mset (radix_sort_sg arr tmp key) = mset arr"
  by (cases "length arr \<le> 64") (simp_all add: radix_sort_small radix_sort_large)

section \<open>What the transfer code needs of a sort\<close>

text \<open>
  The batch processor sorts entries before it merges them. It relies on the sort only for keeping the
  entries: merging checks adjacency itself, so the order decides how much is merged and never what is copied.
\<close>

locale entry_sort =
  fixes srt :: "SGEntry list \<Rightarrow> SGEntry list" and ok :: "SGEntry list \<Rightarrow> bool"
  assumes keeps: "ok es \<Longrightarrow> mset (srt es) = mset es"
begin

lemma srt_separate: "ok es \<Longrightarrow> separate es \<Longrightarrow> separate (srt es)"
  by (rule separate_perm [of es]) (simp_all add: keeps)

lemma srt_bytes: "ok es \<Longrightarrow> bytes (srt es) = bytes es"
  by (rule bytes_perm) (rule keeps)

lemma length_srt: "ok es \<Longrightarrow> length (srt es) = length es"
  using keeps by (metis size_mset)

lemma srt_dmas: "ok es \<Longrightarrow> separate es \<Longrightarrow> dmas (srt es) m = dmas es m"
  by (rule dmas_perm [symmetric]) (simp_all add: keeps)

lemma srt_coalesce:
  assumes "ok es" "separate es" "bytes es < 2 ^ 64"
  shows "dmas (coalesce (srt es)) m = dmas es m" and "separate (coalesce (srt es))"
    and "bytes (coalesce (srt es)) = bytes es"
    and "\<Union> (dst_region ` set (coalesce (srt es))) = \<Union> (dst_region ` set es)"
    and "\<Union> (src_region ` set (coalesce (srt es))) = \<Union> (src_region ` set es)"
proof -
  have b: "bytes (srt es) < 2 ^ 64" using assms by (simp only: srt_bytes)
  note c = coalesce_correct [OF srt_separate [OF assms(1,2)] b]
  note k = mset_eq_setD [OF keeps [OF assms(1)]]
  show "dmas (coalesce (srt es)) m = dmas es m" unfolding c(1) using assms(1,2) by (rule srt_dmas)
  show "separate (coalesce (srt es))" by (rule c(2))
  show "bytes (coalesce (srt es)) = bytes es" unfolding c(3) using assms(1) by (rule srt_bytes)
  show "\<Union> (dst_region ` set (coalesce (srt es))) = \<Union> (dst_region ` set es)" unfolding c(4) k ..
  show "\<Union> (src_region ` set (coalesce (srt es))) = \<Union> (src_region ` set es)" unfolding c(5) k ..
qed

lemma srt_staging:
  assumes "ok es" "separate es" "staging_fits b d n es" "bytes es < 2 ^ 64" "a \<notin> region b n"
  shows "dmas (dst_runs b d (srt es)) (dmas (map (staged b d) es) m) a = dmas es m a"
  using staging_correct assms keeps by blast

end

interpretation radix: entry_sort "\<lambda>es. radix_sort_sg es tmp key" "\<lambda>es. length es \<le> length tmp" for tmp key
  by unfold_locales (rule mset_radix_sort)

interpretation stdsort: entry_sort "std_sort key" "\<lambda>_. True" for key
  by unfold_locales (simp add: std_sort_def)

end
