(* ===== verification/Transition_Systems.thy ===== *)
theory Transition_Systems
  imports Prelude
begin

text \<open>
  What the concurrent parts of the program share: a step relation, the states it starts from and an invariant that every
  step keeps; a rank that every step lowers; and progress until a final state. The gather, the descriptor ring, the space
  guard and the kernels are instances.
\<close>

locale step_invariant =
  fixes step :: "'s \<Rightarrow> 's \<Rightarrow> bool" and start :: "'s \<Rightarrow> bool" and inv :: "'s \<Rightarrow> bool"
  assumes inv_start: "start s \<Longrightarrow> inv s"
    and inv_step: "inv s \<Longrightarrow> step s s' \<Longrightarrow> inv s'"
begin

lemma inv_steps: "step\<^sup>*\<^sup>* s s' \<Longrightarrow> inv s \<Longrightarrow> inv s'"
  by (induction rule: rtranclp_induct) (auto intro: inv_step)

lemma inv_reach: "step\<^sup>*\<^sup>* s0 s \<Longrightarrow> start s0 \<Longrightarrow> inv s"
  using inv_steps inv_start by blast

lemma inv_run:
  assumes "start (f 0)" "\<And>n. n < k \<Longrightarrow> step (f n) (f (Suc n))"
  shows "n \<le> k \<Longrightarrow> inv (f n)"
  using assms by (induction n) (auto intro: inv_step inv_start)

end

locale ranked_steps = step_invariant +
  fixes rank :: "'s \<Rightarrow> nat"
  assumes rank_step: "inv s \<Longrightarrow> step s s' \<Longrightarrow> rank s' < rank s"
begin

text \<open>No execution is longer than the rank of its first state.\<close>

lemma run_bounded:
  assumes "start (f 0)" "\<And>n. n < k \<Longrightarrow> step (f n) (f (Suc n))"
  shows "k \<le> rank (f 0)"
proof -
  have "n + rank (f n) \<le> rank (f 0)" if "n \<le> k" for n
    using that
  proof (induction n)
    case (Suc n)
    from rank_step [OF inv_run [OF assms, of n] assms(2)] Suc show ?case by fastforce
  qed simp
  from this [of k] show ?thesis by simp
qed

end

locale terminating_steps = ranked_steps +
  fixes final :: "'s \<Rightarrow> bool"
  assumes progress: "inv s \<Longrightarrow> \<not> final s \<Longrightarrow> \<exists>s'. step s s'"
begin

text \<open>Every reachable state can be continued to a final one, and no step is left only in a final state.\<close>

lemma can_finish:
  assumes "step\<^sup>*\<^sup>* s0 s" "start s0"
  shows "\<exists>s'. step\<^sup>*\<^sup>* s s' \<and> final s'"
  using inv_reach [OF assms]
proof (induction "rank s" arbitrary: s rule: less_induct)
  case less
  show ?case
  proof (cases "final s")
    case False
    with progress less.prems obtain s1 where st: "step s s1" by blast
    from less.hyps [OF rank_step [OF less.prems st] inv_step [OF less.prems st]] st
    show ?thesis by (meson converse_rtranclp_into_rtranclp)
  qed auto
qed

lemma stuck_final: "step\<^sup>*\<^sup>* s0 s \<Longrightarrow> start s0 \<Longrightarrow> (\<nexists>s'. step s s') \<Longrightarrow> final s"
  using inv_reach progress by blast

end

end
