(* ===== verification/Parallel_Gather.thy ===== *)
theory Parallel_Gather
  imports Staging Transition_Systems
begin

text \<open>
  \<open>src/parallel_gather.cpp\<close>: the streaming copy, the static partition of a gather over the polling
  thread and its workers, and the \<open>has_work\<close>/\<open>done\<close> handshake between them. Each thread is a
  function that performs its next atomic action; a run interleaves these actions freely. The copy of one
  entry is one action (concurrent copies touch disjoint memory), prefetches have no effect.
  A call that starts with every worker at rest gathers exactly the entries, whatever the interleaving;
  a call that starts while a worker has raised \<open>done\<close> but not yet lowered \<open>has_work\<close> can lose its work.
\<close>

section \<open>The streaming copy\<close>

text \<open>64-byte blocks with non-temporal stores, then the tail with \<open>memcpy\<close>.\<close>

definition streaming_memcpy_g :: "u64 \<Rightarrow> u64 \<Rightarrow> u64 \<Rightarrow> mem \<Rightarrow> mem" where
  "streaming_memcpy_g d s sz m =
     (let aligned = sz AND NOT 63;
          m1 = fold (\<lambda>i. memcpy (d + of_nat (64 * i)) (s + of_nat (64 * i)) 64) [0..<unat aligned div 64] m
      in if aligned < sz then memcpy (d + aligned) (s + aligned) (unat (sz - aligned)) m1 else m1)"

lemma memcpy_append:
  assumes "disjnt (region s (j + k)) (region d (j + k))" "j + k < 2 ^ 64"
  shows "memcpy (d + of_nat j) (s + of_nat j) k (memcpy d s j m) = memcpy d s (j + k) m"
proof
  fix a
  have j: "unat (of_nat j :: u64) = j" using assms(2) by (simp add: unat_of_nat_u64)
  have out: "b \<notin> region d j" if "b \<in> region (s + of_nat j) k" for b
    using that assms region_add [of j k s] region_mono [of j "j + k" d] by (auto simp: disjnt_iff)
  have reg: "a \<in> region d (j + k) \<longleftrightarrow> a \<in> region d j \<or> a \<in> region (d + of_nat j) k"
    using region_add [of j k d] assms(2) by auto
  show "memcpy (d + of_nat j) (s + of_nat j) k (memcpy d s j m) a = memcpy d s (j + k) m a"
  proof (cases "a \<in> region (d + of_nat j) k")
    case True
    have "s + of_nat j + (a - (d + of_nat j)) \<in> region (s + of_nat j) k" using True by (simp add: in_region diff_diff_eq)
    with True reg show ?thesis by (simp add: memcpy_in memcpy_out out algebra_simps)
  next
    case False
    with reg show ?thesis by (cases "a \<in> region d j") (simp_all add: memcpy_in memcpy_out)
  qed
qed

lemma memcpy_0 [simp]: "memcpy d s 0 m = m"
  by (simp add: memcpy_def)

lemma stream_blocks:
  assumes "disjnt (region s (64 * k)) (region d (64 * k))" "64 * k < 2 ^ 64"
  shows "fold (\<lambda>i. memcpy (d + of_nat (64 * i)) (s + of_nat (64 * i)) 64) [0..<k] m = memcpy d s (64 * k) m"
  using assms
proof (induction k)
  case (Suc k)
  have sub: "region x (64 * k) \<subseteq> region x (64 * Suc k)" for x by (rule region_mono) simp
  have "disjnt (region s (64 * k)) (region d (64 * k))"
    using Suc.prems(1) sub by (meson disjnt_subset1 disjnt_subset2)
  with Suc have "fold (\<lambda>i. memcpy (d + of_nat (64 * i)) (s + of_nat (64 * i)) 64) [0..<k] m = memcpy d s (64 * k) m" by simp
  moreover have "memcpy (d + of_nat (64 * k)) (s + of_nat (64 * k)) 64 (memcpy d s (64 * k) m) = memcpy d s (64 * k + 64) m"
    using Suc.prems by (intro memcpy_append) (simp_all add: algebra_simps)
  ultimately show ?case by (simp add: add.commute)
qed simp

lemma unat_aligned: "unat (n AND NOT 63 :: u64) = 64 * (unat n div 64)"
proof -
  have "n AND NOT 63 = n AND NOT (mask 6)" by (simp add: mask_eq_exp_minus_1)
  also have "\<dots> = push_bit 6 (drop_bit 6 n)" by (rule bit_eqI) (auto simp: bit_simps)
  finally have "unat (n AND NOT 63) = push_bit 6 (drop_bit 6 (unat n)) mod 2 ^ 64"
    by (simp add: unat_drop_bit_eq unsigned_push_bit_eq take_bit_eq_mod)
  moreover have "push_bit 6 (drop_bit 6 (unat n)) = 64 * (unat n div 64)" by (simp add: push_bit_eq_mult drop_bit_eq_div)
  moreover have "64 * (unat n div 64) < 2 ^ 64"
    using unat_u64_lt [of n] by (meson le_less_trans times_div_less_eq_dividend)
  ultimately show ?thesis by simp
qed

lemma streaming_memcpy_correct:
  assumes "disjnt (region s (unat n)) (region d (unat n))"
  shows "streaming_memcpy_g d s n m = memcpy d s (unat n) m"
proof -
  let ?k = "unat n div 64"
  have al: "unat (n AND NOT 63) = 64 * ?k" by (rule unat_aligned)
  have num64: "(64::nat) \<noteq> 0" by simp
  have lt: "64 * ?k < 2 ^ 64" using al unat_u64_lt by metis
  have al': "n AND NOT 63 = of_nat (64 * ?k)" using al by (metis of_nat_unat ucast_id)
  have sub: "region x (64 * ?k) \<subseteq> region x (unat n)" for x by (rule region_mono) simp
  have blocks: "fold (\<lambda>i. memcpy (d + of_nat (64 * i)) (s + of_nat (64 * i)) 64) [0..<?k] m = memcpy d s (64 * ?k) m"
    using assms sub lt by (intro stream_blocks) (meson disjnt_subset1 disjnt_subset2)
  have rest: "unat (n - (n AND NOT 63)) = unat n - 64 * ?k"
    using al by (subst unat_sub) (simp_all add: word_le_nat_alt)
  have "memcpy (d + of_nat (64 * ?k)) (s + of_nat (64 * ?k)) (unat n - 64 * ?k) (memcpy d s (64 * ?k) m) = memcpy d s (unat n) m"
    using memcpy_append [of s "64 * ?k" "unat n - 64 * ?k" d m] assms unat_u64_lt [of n] by simp
  moreover have "n AND NOT 63 < n \<longleftrightarrow> 64 * ?k < unat n" by (simp only: word_less_nat_alt al)
  moreover have "64 * ?k = unat n" if "\<not> 64 * ?k < unat n" using that by (simp add: le_antisym not_less)
  ultimately show ?thesis
    unfolding streaming_memcpy_g_def Let_def al rest nonzero_mult_div_cancel_left [OF num64] blocks
    using al' by (cases "64 * ?k < unat n") simp_all
qed

section \<open>Threads\<close>

record GatherTask =
  has_work :: bool
  task_done :: bool
  t_entries :: "SGEntry list"
  t_staging :: u64
  t_min_dst :: u64
  t_start :: nat
  t_end :: nat

datatype worker_pc = Idle | Copying nat | Clearing

datatype main_pc = Dispatch nat | Publish nat | Main_Copy nat | Await nat | Returned

record gather_state =
  gather_tasks :: "nat \<Rightarrow> GatherTask"
  worker_at :: "nat \<Rightarrow> worker_pc"
  main_at :: main_pc
  gmem :: mem

definition gather_entry :: "SGEntry list \<Rightarrow> u64 \<Rightarrow> u64 \<Rightarrow> nat \<Rightarrow> mem \<Rightarrow> mem" where
  "gather_entry entries staging min_dst i m =
     (let e = entries ! i; offset = sg_dst e - min_dst
      in streaming_memcpy_g (staging + offset) (sg_src e) (sg_size e) m)"

text \<open>One action of \<open>gather_worker_loop(w)\<close>; \<open>None\<close> is the pause of an idle worker.\<close>

definition gather_worker_loop :: "nat \<Rightarrow> gather_state \<Rightarrow> gather_state option" where
  "gather_worker_loop w g =
     (let task = gather_tasks g w in
      case worker_at g w of
        Idle \<Rightarrow> if has_work task then Some (g\<lparr>worker_at := (worker_at g)(w := Copying (t_start task))\<rparr>) else None
      | Copying i \<Rightarrow>
          if i < t_end task
          then Some (g\<lparr>gmem := gather_entry (t_entries task) (t_staging task) (t_min_dst task) i (gmem g),
                       worker_at := (worker_at g)(w := Copying (i + 1))\<rparr>)
          else Some (g\<lparr>gather_tasks := (gather_tasks g)(w := task\<lparr>task_done := True\<rparr>),
                       worker_at := (worker_at g)(w := Clearing)\<rparr>)
      | Clearing \<Rightarrow> Some (g\<lparr>gather_tasks := (gather_tasks g)(w := task\<lparr>has_work := False\<rparr>),
                            worker_at := (worker_at g)(w := Idle)\<rparr>))"

record gather_call =
  gc_entries :: "SGEntry list"
  gc_staging :: u64
  gc_min_dst :: u64
  gc_workers :: nat

definition gc_count :: "gather_call \<Rightarrow> nat" where
  "gc_count c = length (gc_entries c)"

definition gc_chunk :: "gather_call \<Rightarrow> nat" where
  "gc_chunk c = (let total_threads = gc_workers c + 1 in (gc_count c + total_threads - 1) div total_threads)"

text \<open>One action of \<open>parallel_gather\<close> in the polling thread; \<open>None\<close> is the pause of its wait or its return.\<close>

definition parallel_gather :: "gather_call \<Rightarrow> gather_state \<Rightarrow> gather_state option" where
  "parallel_gather c g =
     (case main_at g of
        Dispatch w \<Rightarrow>
          if gc_workers c \<le> w then Some (g\<lparr>main_at := Main_Copy 0\<rparr>)
          else let start = (w + 1) * gc_chunk c; stop = min (start + gc_chunk c) (gc_count c)
               in if gc_count c \<le> start then Some (g\<lparr>main_at := Dispatch (w + 1)\<rparr>)
                  else Some (g\<lparr>gather_tasks := (gather_tasks g)(w := (gather_tasks g w)\<lparr>t_entries := gc_entries c,
                                 t_staging := gc_staging c, t_min_dst := gc_min_dst c, t_start := start, t_end := stop,
                                 task_done := False\<rparr>),
                               main_at := Publish w\<rparr>)
      | Publish w \<Rightarrow> Some (g\<lparr>gather_tasks := (gather_tasks g)(w := (gather_tasks g w)\<lparr>has_work := True\<rparr>),
                            main_at := Dispatch (w + 1)\<rparr>)
      | Main_Copy i \<Rightarrow>
          if i < min (gc_chunk c) (gc_count c)
          then Some (g\<lparr>gmem := gather_entry (gc_entries c) (gc_staging c) (gc_min_dst c) i (gmem g),
                       main_at := Main_Copy (i + 1)\<rparr>)
          else Some (g\<lparr>main_at := Await 0\<rparr>)
      | Await w \<Rightarrow>
          if gc_workers c \<le> w then Some (g\<lparr>main_at := Returned\<rparr>)
          else if gc_count c \<le> (w + 1) * gc_chunk c then Some (g\<lparr>main_at := Await (w + 1)\<rparr>)
          else if task_done (gather_tasks g w) then Some (g\<lparr>main_at := Await (w + 1)\<rparr>) else None
      | Returned \<Rightarrow> None)"

inductive gather_step :: "gather_call \<Rightarrow> gather_state \<Rightarrow> gather_state \<Rightarrow> bool" for c where
  step_main: "parallel_gather c g = Some g' \<Longrightarrow> gather_step c g g'"
| step_worker: "w < gc_workers c \<Longrightarrow> gather_worker_loop w g = Some g' \<Longrightarrow> gather_step c g g'"

abbreviation gather_reach :: "gather_call \<Rightarrow> gather_state \<Rightarrow> gather_state \<Rightarrow> bool" where
  "gather_reach c \<equiv> (gather_step c)\<^sup>*\<^sup>*"

text \<open>Every worker at rest, the polling thread about to dispatch.\<close>

definition at_rest :: "gather_call \<Rightarrow> gather_state \<Rightarrow> bool" where
  "at_rest c g \<longleftrightarrow> main_at g = Dispatch 0
     \<and> (\<forall>w<gc_workers c. worker_at g w = Idle \<and> \<not> has_work (gather_tasks g w))"

section \<open>The partition\<close>

text \<open>Thread 0 is the polling thread, thread \<open>w + 1\<close> is worker \<open>w\<close>.\<close>

definition share :: "gather_call \<Rightarrow> nat \<Rightarrow> nat set" where
  "share c t = {t * gc_chunk c ..< min (t * gc_chunk c + gc_chunk c) (gc_count c)}"

lemma gc_chunk_covers: "gc_count c \<le> (gc_workers c + 1) * gc_chunk c"
  unfolding gc_chunk_def Let_def by (rule ceil_div_covers) simp

lemma in_share: "i \<in> share c t \<Longrightarrow> i div gc_chunk c = t"
proof -
  assume "i \<in> share c t"
  then have i: "t * gc_chunk c \<le> i" "i < Suc t * gc_chunk c" by (simp_all add: share_def)
  then have "i div gc_chunk c < Suc t" by (intro div_less_iff_less_mult [THEN iffD2]) (auto intro: gr0I)
  moreover have "t \<le> i div gc_chunk c" using i by (intro less_eq_div_iff_mult_less_eq [THEN iffD2]) (auto intro: gr0I)
  ultimately show ?thesis by simp
qed

lemma share_disjoint: "t \<noteq> u \<Longrightarrow> i \<in> share c t \<Longrightarrow> i \<notin> share c u"
  using in_share by blast

lemma shares_cover: "(\<Union>t\<le>gc_workers c. share c t) = {..<gc_count c}"
proof (intro equalityI subsetI)
  fix i assume i: "i \<in> {..<gc_count c}"
  with gc_chunk_covers [of c] have lt: "i < (gc_workers c + 1) * gc_chunk c" by simp
  then have pos: "0 < gc_chunk c" by (auto intro: gr0I)
  have "i div gc_chunk c \<le> gc_workers c" using lt pos by (simp add: less_Suc_eq_le [symmetric] div_less_iff_less_mult)
  moreover have "i < i div gc_chunk c * gc_chunk c + gc_chunk c"
    using mod_less_divisor [OF pos, of i] div_mult_mod_eq [of i "gc_chunk c"] by linarith
  with i have "i \<in> share c (i div gc_chunk c)" by (simp add: share_def)
  ultimately show "i \<in> (\<Union>t\<le>gc_workers c. share c t)" by blast
qed (auto simp: share_def)

section \<open>The invariant of one call\<close>

fun published :: "main_pc \<Rightarrow> nat \<Rightarrow> bool" where
  "published (Dispatch v) w \<longleftrightarrow> w < v"
| "published (Publish v) w \<longleftrightarrow> w < v"
| "published _ w \<longleftrightarrow> True"

definition busy :: "gather_call \<Rightarrow> nat \<Rightarrow> bool" where
  "busy c w \<longleftrightarrow> (w + 1) * gc_chunk c < gc_count c"

definition loaded :: "gather_call \<Rightarrow> nat \<Rightarrow> GatherTask \<Rightarrow> bool" where
  "loaded c w t \<longleftrightarrow> t_entries t = gc_entries c \<and> t_staging t = gc_staging c
     \<and> t_min_dst t = gc_min_dst c \<and> t_start t = (w + 1) * gc_chunk c
     \<and> t_end t = min ((w + 1) * gc_chunk c + gc_chunk c) (gc_count c)"

fun running_ok :: "GatherTask \<Rightarrow> worker_pc \<Rightarrow> bool" where
  "running_ok t Idle \<longleftrightarrow> task_done t = (\<not> has_work t)"
| "running_ok t (Copying i) \<longleftrightarrow> has_work t \<and> \<not> task_done t \<and> t_start t \<le> i \<and> i \<le> t_end t"
| "running_ok t Clearing \<longleftrightarrow> has_work t \<and> task_done t"

definition worker_ok :: "gather_call \<Rightarrow> nat \<Rightarrow> bool \<Rightarrow> GatherTask \<Rightarrow> worker_pc \<Rightarrow> bool" where
  "worker_ok c w pub t pc \<longleftrightarrow>
     (if pub \<and> busy c w then loaded c w t \<and> running_ok t pc else pc = Idle \<and> \<not> has_work t)"

fun main_ok :: "gather_call \<Rightarrow> (nat \<Rightarrow> GatherTask) \<Rightarrow> main_pc \<Rightarrow> bool" where
  "main_ok c ts (Dispatch w) \<longleftrightarrow> True"
| "main_ok c ts (Publish w) \<longleftrightarrow> w < gc_workers c \<and> busy c w \<and> loaded c w (ts w) \<and> \<not> task_done (ts w)"
| "main_ok c ts (Main_Copy i) \<longleftrightarrow> i \<le> min (gc_chunk c) (gc_count c)"
| "main_ok c ts (Await w) \<longleftrightarrow> (\<forall>v<gc_workers c. v < w \<longrightarrow> busy c v \<longrightarrow> task_done (ts v))"
| "main_ok c ts Returned \<longleftrightarrow> (\<forall>v<gc_workers c. busy c v \<longrightarrow> task_done (ts v))"

definition gather_inv :: "gather_call \<Rightarrow> gather_state \<Rightarrow> bool" where
  "gather_inv c g \<longleftrightarrow> main_ok c (gather_tasks g) (main_at g)
     \<and> (\<forall>w<gc_workers c. worker_ok c w (published (main_at g) w) (gather_tasks g w) (worker_at g w))"

lemma gather_inv_rest: "at_rest c g \<Longrightarrow> gather_inv c g"
  by (auto simp: gather_inv_def worker_ok_def at_rest_def)

lemma busy_iff [simp]: "gc_count c \<le> gc_chunk c + w * gc_chunk c \<longleftrightarrow> \<not> busy c w"
  by (auto simp: busy_def)

lemma gather_inv_main:
  assumes "gather_inv c g" "parallel_gather c g = Some g'"
  shows "gather_inv c g'"
proof (cases "main_at g")
  case (Dispatch w)
  then show ?thesis
  proof (cases "gc_workers c \<le> w \<or> \<not> busy c w")
    case True
    then show ?thesis using assms Dispatch
      by (auto simp: parallel_gather_def gather_inv_def worker_ok_def less_Suc_eq Let_def split: if_splits)
  next
    case False
    then obtain t where "g' = g\<lparr>gather_tasks := (gather_tasks g)(w := t), main_at := Publish w\<rparr>"
      "loaded c w t" "\<not> task_done t" "has_work t = has_work (gather_tasks g w)"
      using assms(2) Dispatch by (auto simp: parallel_gather_def Let_def loaded_def)
    then show ?thesis using assms(1) Dispatch False by (auto simp: gather_inv_def worker_ok_def)
  qed
next
  case (Publish w)
  then have g': "g' = g\<lparr>gather_tasks := (gather_tasks g)(w := (gather_tasks g w)\<lparr>has_work := True\<rparr>), main_at := Dispatch (w + 1)\<rparr>"
    using assms(2) by (simp add: parallel_gather_def)
  have "worker_ok c v (published (main_at g') v) (gather_tasks g' v) (worker_at g' v)" if "v < gc_workers c" for v
  proof -
    have "worker_ok c v (v < w) (gather_tasks g v) (worker_at g v)" using assms(1) Publish that by (simp add: gather_inv_def)
    then show ?thesis using assms(1) Publish g'
      by (cases "v = w") (auto simp: gather_inv_def worker_ok_def less_Suc_eq loaded_def)
  qed
  then show ?thesis using g' by (simp add: gather_inv_def)
next
  case (Main_Copy i)
  then show ?thesis using assms by (auto simp: parallel_gather_def gather_inv_def split: if_splits)
next
  case (Await w)
  then show ?thesis using assms by (auto simp: parallel_gather_def gather_inv_def less_Suc_eq split: if_splits)
next
  case Returned
  then show ?thesis using assms(2) by (simp add: parallel_gather_def)
qed

lemma worker_frame:
  assumes "gather_worker_loop v g = Some g'"
  obtains t pc m where "g' = g\<lparr>gmem := m, gather_tasks := (gather_tasks g)(v := t), worker_at := (worker_at g)(v := pc)\<rparr>"
    "task_done (gather_tasks g v) \<longrightarrow> task_done t"
    "worker_at g v = Idle \<and> has_work (gather_tasks g v) \<and> pc = Copying (t_start (gather_tasks g v)) \<and> t = gather_tasks g v \<and> m = gmem g
     \<or> (\<exists>i. worker_at g v = Copying i \<and> i < t_end (gather_tasks g v) \<and> pc = Copying (i + 1) \<and> t = gather_tasks g v
          \<and> m = gather_entry (t_entries t) (t_staging t) (t_min_dst t) i (gmem g))
     \<or> (\<exists>i. worker_at g v = Copying i \<and> t_end (gather_tasks g v) \<le> i \<and> pc = Clearing
          \<and> t = (gather_tasks g v)\<lparr>task_done := True\<rparr> \<and> m = gmem g)
     \<or> worker_at g v = Clearing \<and> pc = Idle \<and> t = (gather_tasks g v)\<lparr>has_work := False\<rparr> \<and> m = gmem g"
proof (cases "worker_at g v")
  case Idle
  then show ?thesis using assms
    by (intro that [where m = "gmem g" and t = "gather_tasks g v" and pc = "Copying (t_start (gather_tasks g v))"])
      (auto simp: gather_worker_loop_def Let_def split: if_splits)
next
  case (Copying i)
  show ?thesis
  proof (cases "i < t_end (gather_tasks g v)")
    case True
    then show ?thesis using assms Copying
      by (intro that [where m = "gmem g'" and t = "gather_tasks g v" and pc = "Copying (i + 1)"]) (auto simp: gather_worker_loop_def Let_def)
  next
    case False
    then show ?thesis using assms Copying
      by (intro that [where m = "gmem g" and t = "(gather_tasks g v)\<lparr>task_done := True\<rparr>" and pc = Clearing]) (auto simp: gather_worker_loop_def Let_def)
  qed
next
  case Clearing
  then show ?thesis using assms
    by (intro that [where m = "gmem g" and t = "(gather_tasks g v)\<lparr>has_work := False\<rparr>" and pc = Idle]) (auto simp: gather_worker_loop_def Let_def)
qed

lemma worker_step_ok:
  assumes "worker_ok c v pub (gather_tasks g v) (worker_at g v)" "gather_worker_loop v g = Some g'"
  shows "pub \<and> busy c v" and "worker_ok c v pub (gather_tasks g' v) (worker_at g' v)"
proof -
  from assms(2) show pb: "pub \<and> busy c v"
    by (rule worker_frame) (use assms(1) in \<open>auto simp: worker_ok_def split: if_splits\<close>)
  from assms(1) pb have l: "loaded c v (gather_tasks g v)" "running_ok (gather_tasks g v) (worker_at g v)"
    by (simp_all add: worker_ok_def)
  then have le: "t_start (gather_tasks g v) \<le> t_end (gather_tasks g v)" using pb by (auto simp: loaded_def busy_def)
  from assms(2) show "worker_ok c v pub (gather_tasks g' v) (worker_at g' v)"
    by (rule worker_frame) (use l le pb in \<open>auto simp: worker_ok_def loaded_def\<close>)
qed

lemma gather_inv_worker:
  assumes "gather_inv c g" "v < gc_workers c" "gather_worker_loop v g = Some g'"
  shows "gather_inv c g'"
proof -
  have v: "worker_ok c v (published (main_at g) v) (gather_tasks g v) (worker_at g v)"
    using assms(1,2) by (simp add: gather_inv_def)
  obtain t pc m where g': "g' = g\<lparr>gmem := m, gather_tasks := (gather_tasks g)(v := t), worker_at := (worker_at g)(v := pc)\<rparr>"
    and mono: "task_done (gather_tasks g v) \<longrightarrow> task_done t" using assms(3) by (rule worker_frame)
  have "main_ok c (gather_tasks g') (main_at g')"
    using assms(1) worker_step_ok(1) [OF v assms(3)] mono
    by (cases "main_at g") (auto simp: gather_inv_def g')
  moreover have "worker_ok c w (published (main_at g') w) (gather_tasks g' w) (worker_at g' w)" if "w < gc_workers c" for w
    using assms(1) worker_step_ok(2) [OF v assms(3)] that by (cases "w = v") (simp_all add: gather_inv_def g')
  ultimately show ?thesis by (simp add: gather_inv_def)
qed

lemma gather_inv_step: "gather_inv c g \<Longrightarrow> gather_step c g g' \<Longrightarrow> gather_inv c g'"
  by (auto elim!: gather_step.cases intro: gather_inv_main gather_inv_worker)

interpretation gather: step_invariant "gather_step c" "at_rest c" "gather_inv c" for c
  by unfold_locales (auto intro: gather_inv_rest gather_inv_step)

section \<open>What has been copied\<close>

fun main_copied :: "gather_call \<Rightarrow> main_pc \<Rightarrow> nat set" where
  "main_copied c (Dispatch _) = {}"
| "main_copied c (Publish _) = {}"
| "main_copied c (Main_Copy i) = {..<i}"
| "main_copied c _ = share c 0"

fun run_copied :: "gather_call \<Rightarrow> nat \<Rightarrow> GatherTask \<Rightarrow> worker_pc \<Rightarrow> nat set" where
  "run_copied c w t Idle = (if has_work t then {} else share c (w + 1))"
| "run_copied c w t (Copying i) = {(w + 1) * gc_chunk c ..< i}"
| "run_copied c w t Clearing = share c (w + 1)"

definition worker_copied :: "gather_call \<Rightarrow> gather_state \<Rightarrow> nat \<Rightarrow> nat set" where
  "worker_copied c g w =
     (if published (main_at g) w \<and> busy c w then run_copied c w (gather_tasks g w) (worker_at g w) else {})"

definition copied :: "gather_call \<Rightarrow> gather_state \<Rightarrow> nat set" where
  "copied c g = main_copied c (main_at g) \<union> (\<Union>w<gc_workers c. worker_copied c g w)"

abbreviation call_entry :: "gather_call \<Rightarrow> nat \<Rightarrow> mem \<Rightarrow> mem" where
  "call_entry c \<equiv> gather_entry (gc_entries c) (gc_staging c) (gc_min_dst c)"

lemma not_busy_share: "\<not> busy c w \<Longrightarrow> share c (w + 1) = {}"
  by (auto simp: busy_def share_def)

lemma copied_subset:
  assumes "gather_inv c g"
  shows "main_copied c (main_at g) \<subseteq> share c 0" and "w < gc_workers c \<Longrightarrow> worker_copied c g w \<subseteq> share c (w + 1)"
proof -
  show "main_copied c (main_at g) \<subseteq> share c 0"
    using assms by (cases "main_at g") (auto simp: gather_inv_def share_def)
  assume "w < gc_workers c"
  with assms have "worker_ok c w (published (main_at g) w) (gather_tasks g w) (worker_at g w)" by (simp add: gather_inv_def)
  then show "worker_copied c g w \<subseteq> share c (w + 1)"
    by (cases "worker_at g w") (auto simp: worker_copied_def worker_ok_def share_def loaded_def)
qed

lemma copied_main:
  assumes inv: "gather_inv c g" and step: "parallel_gather c g = Some g'"
  shows "gmem g' = gmem g \<and> copied c g' = copied c g
     \<or> (\<exists>i<gc_count c. gmem g' = call_entry c i (gmem g) \<and> i \<notin> copied c g \<and> copied c g' = insert i (copied c g))"
proof -
  have ok: "worker_ok c w (published (main_at g) w) (gather_tasks g w) (worker_at g w)" if "w < gc_workers c" for w
    using inv that by (simp add: gather_inv_def)
  have same: "worker_copied c g' w = worker_copied c g w" if "w < gc_workers c" for w
    using ok [OF that] step that
    by (cases "main_at g") (auto simp: parallel_gather_def worker_copied_def worker_ok_def Let_def less_Suc_eq split: if_splits)
  have un: "(\<Union>w<gc_workers c. worker_copied c g' w) = (\<Union>w<gc_workers c. worker_copied c g w)"
    using same by (intro SUP_cong) auto
  show ?thesis
  proof (cases "\<exists>i. main_at g = Main_Copy i \<and> i < min (gc_chunk c) (gc_count c)")
    case True
    then obtain i where i: "main_at g = Main_Copy i" "i < min (gc_chunk c) (gc_count c)" by blast
    then have g': "g' = g\<lparr>gmem := call_entry c i (gmem g), main_at := Main_Copy (i + 1)\<rparr>"
      using step by (simp add: parallel_gather_def)
    have "i \<in> share c 0" using i(2) by (simp add: share_def)
    then have "i \<notin> worker_copied c g w" if "w < gc_workers c" for w
      using copied_subset(2) [OF inv that] share_disjoint [of 0 "w + 1" i c] by auto
    then show ?thesis using i g' un by (intro disjI2 exI [of _ i]) (auto simp: copied_def)
  next
    case False
    then have "main_copied c (main_at g') = main_copied c (main_at g)" "gmem g' = gmem g"
      using step inv by (cases "main_at g"; auto simp: parallel_gather_def gather_inv_def share_def Let_def split: if_splits)+
    then show ?thesis using un by (simp add: copied_def)
  qed
qed

lemma copied_worker:
  assumes inv: "gather_inv c g" and v: "v < gc_workers c" and step: "gather_worker_loop v g = Some g'"
  shows "gmem g' = gmem g \<and> copied c g' = copied c g
     \<or> (\<exists>i<gc_count c. gmem g' = call_entry c i (gmem g) \<and> i \<notin> copied c g \<and> copied c g' = insert i (copied c g))"
proof -
  obtain t pc m where g': "g' = g\<lparr>gmem := m, gather_tasks := (gather_tasks g)(v := t), worker_at := (worker_at g)(v := pc)\<rparr>"
    and st: "worker_at g v = Idle \<and> has_work (gather_tasks g v) \<and> pc = Copying (t_start (gather_tasks g v)) \<and> t = gather_tasks g v \<and> m = gmem g
     \<or> (\<exists>i. worker_at g v = Copying i \<and> i < t_end (gather_tasks g v) \<and> pc = Copying (i + 1) \<and> t = gather_tasks g v
          \<and> m = gather_entry (t_entries t) (t_staging t) (t_min_dst t) i (gmem g))
     \<or> (\<exists>i. worker_at g v = Copying i \<and> t_end (gather_tasks g v) \<le> i \<and> pc = Clearing
          \<and> t = (gather_tasks g v)\<lparr>task_done := True\<rparr> \<and> m = gmem g)
     \<or> worker_at g v = Clearing \<and> pc = Idle \<and> t = (gather_tasks g v)\<lparr>has_work := False\<rparr> \<and> m = gmem g"
    using step by (rule worker_frame)
  have ok: "worker_ok c v (published (main_at g) v) (gather_tasks g v) (worker_at g v)"
    using inv v by (simp add: gather_inv_def)
  from worker_step_ok(1) [OF ok step] have pb: "published (main_at g) v" "busy c v" by simp_all
  with ok have l: "loaded c v (gather_tasks g v)" "running_ok (gather_tasks g v) (worker_at g v)" by (simp_all add: worker_ok_def)
  have other: "worker_copied c g' w = worker_copied c g w" if "w \<noteq> v" for w using that by (simp add: worker_copied_def g')
  have split: "copied c h = worker_copied c h v \<union> (main_copied c (main_at h) \<union> (\<Union>w\<in>{..<gc_workers c} - {v}. worker_copied c h w))" for h
    using v by (auto simp: copied_def)
  have rest: "main_copied c (main_at g') \<union> (\<Union>w\<in>{..<gc_workers c} - {v}. worker_copied c g' w)
      = main_copied c (main_at g) \<union> (\<Union>w\<in>{..<gc_workers c} - {v}. worker_copied c g w)"
    using other by (simp add: g')
  show ?thesis
  proof (cases "\<exists>i. worker_at g v = Copying i \<and> i < t_end (gather_tasks g v)")
    case True
    then obtain i where i: "worker_at g v = Copying i" "i < t_end (gather_tasks g v)" by blast
    have m: "m = call_entry c i (gmem g)" "pc = Copying (i + 1)" using st i l(1) by (auto simp: loaded_def)
    have sh: "i \<in> share c (v + 1)" using i l by (auto simp: loaded_def share_def)
    have "i \<notin> main_copied c (main_at g)" using copied_subset(1) [OF inv] share_disjoint [of "v + 1" 0, OF _ sh] by auto
    moreover have "i \<notin> worker_copied c g w" if "w < gc_workers c" "w \<noteq> v" for w
      using copied_subset(2) [OF inv that(1)] share_disjoint [of "v + 1" "w + 1", OF _ sh] that(2) by auto
    moreover have "worker_copied c g v = {(v + 1) * gc_chunk c ..< i}" using i pb by (simp add: worker_copied_def)
    moreover have "worker_copied c g' v = insert i {(v + 1) * gc_chunk c ..< i}"
      using m(2) pb sh by (auto simp: worker_copied_def g' share_def)
    moreover have "i < gc_count c" using sh by (simp add: share_def)
    ultimately show ?thesis
      using m(1) rest unfolding split [of g] split [of g'] by (intro disjI2 exI [of _ i]) (auto simp: g')
  next
    case False
    then have "m = gmem g" using st by auto
    moreover have "worker_copied c g' v = worker_copied c g v"
      using st False l pb by (auto simp: worker_copied_def g' loaded_def share_def)
    ultimately show ?thesis using rest unfolding split [of g] split [of g'] by (simp add: g')
  qed
qed

section \<open>The memory after a call\<close>

abbreviation staged_entries :: "gather_call \<Rightarrow> SGEntry list" where
  "staged_entries c \<equiv> map (staged (gc_staging c) (gc_min_dst c)) (gc_entries c)"

definition mem_inv :: "gather_call \<Rightarrow> mem \<Rightarrow> gather_state \<Rightarrow> bool" where
  "mem_inv c m0 g \<longleftrightarrow> (\<exists>log. distinct log \<and> set log = copied c g \<and> gmem g = dmas (map ((!) (staged_entries c)) log) m0)"

lemma gather_entry_dma:
  assumes "src_dst_disjoint (staged_entries c)" "i < gc_count c"
  shows "call_entry c i m = dma (staged_entries c ! i) m"
proof -
  let ?e = "gc_entries c ! i"
  have i: "i < length (gc_entries c)" using assms(2) by (simp add: gc_count_def)
  then have "staged_entries c ! i \<in> set (staged_entries c)" by (intro nth_mem) simp
  with assms(1) have "disjnt (src_region (staged_entries c ! i)) (dst_region (staged_entries c ! i))"
    unfolding src_dst_disjoint_def by blast
  with i show ?thesis by (simp add: gather_entry_def Let_def streaming_memcpy_correct dma_def)
qed

lemma mem_inv_step:
  assumes "gather_inv c g" "mem_inv c m0 g" "gather_step c g g'" "src_dst_disjoint (staged_entries c)"
  shows "mem_inv c m0 g'"
proof -
  have "gmem g' = gmem g \<and> copied c g' = copied c g
     \<or> (\<exists>i<gc_count c. gmem g' = call_entry c i (gmem g) \<and> i \<notin> copied c g \<and> copied c g' = insert i (copied c g))"
    using assms(3) by cases (auto dest: copied_main [OF assms(1)] copied_worker [OF assms(1)])
  then show ?thesis
  proof (elim disjE exE conjE)
    fix i assume i: "i < gc_count c" "gmem g' = call_entry c i (gmem g)" "i \<notin> copied c g" "copied c g' = insert i (copied c g)"
    obtain log where log: "distinct log" "set log = copied c g" "gmem g = dmas (map ((!) (staged_entries c)) log) m0"
      using assms(2) by (auto simp: mem_inv_def)
    then have "distinct (log @ [i])" "set (log @ [i]) = copied c g'" using i by auto
    moreover have "gmem g' = dmas (map ((!) (staged_entries c)) (log @ [i])) m0"
      using i(1,2) log(3) gather_entry_dma [OF assms(4) i(1)] by simp
    ultimately show ?thesis unfolding mem_inv_def by blast
  qed (use assms(2) in \<open>simp add: mem_inv_def\<close>)
qed

lemma mem_inv_reach:
  assumes "gather_reach c g0 g" "at_rest c g0" "src_dst_disjoint (staged_entries c)"
  shows "mem_inv c (gmem g0) g"
  using assms(1)
proof (induction rule: rtranclp_induct)
  case base
  have "copied c g0 = {}" using assms(2) by (auto simp: copied_def worker_copied_def at_rest_def)
  then show ?case unfolding mem_inv_def by (intro exI [of _ "[]"]) simp
next
  case (step g g')
  with gather.inv_reach [OF step.hyps(1) assms(2)] mem_inv_step assms(3) show ?case by blast
qed

lemma all_copied:
  assumes "gather_inv c g" "main_at g = Returned"
  shows "copied c g = {..<gc_count c}"
proof -
  have "worker_copied c g w = share c (w + 1)" if "w < gc_workers c" for w
  proof -
    have "worker_ok c w True (gather_tasks g w) (worker_at g w)" "busy c w \<Longrightarrow> task_done (gather_tasks g w)"
      using assms that by (simp_all add: gather_inv_def)
    then show ?thesis using assms(2) not_busy_share [of c w]
      by (cases "worker_at g w") (auto simp: worker_copied_def worker_ok_def)
  qed
  then have "copied c g = share c 0 \<union> (\<Union>w<gc_workers c. share c (Suc w))" using assms(2) by (simp add: copied_def)
  also have "\<dots> = (\<Union>t\<in>insert 0 (Suc ` {..<gc_workers c}). share c t)" by simp
  also have "insert 0 (Suc ` {..<gc_workers c}) = {..gc_workers c}"
    using lessThan_Suc_eq_insert_0 [of "gc_workers c"] by (simp add: lessThan_Suc_atMost)
  finally show ?thesis by (simp add: shares_cover)
qed

lemma gather_returned:
  assumes "gather_reach c g0 g" "at_rest c g0" "main_at g = Returned" "separate (staged_entries c)"
  shows "gmem g = dmas (staged_entries c) (gmem g0)"
proof -
  have "src_dst_disjoint (staged_entries c)" using assms(4) by (simp add: separate_def)
  from mem_inv_reach [OF assms(1,2) this] all_copied [OF gather.inv_reach [OF assms(1,2)] assms(3)]
  obtain log where log: "distinct log" "set log = {..<gc_count c}" "gmem g = dmas (map ((!) (staged_entries c)) log) (gmem g0)"
    by (auto simp: mem_inv_def)
  have "set log = set [0..<length (staged_entries c)]" using log(2) by (simp add: gc_count_def atLeast0LessThan)
  then have "mset log = mset [0..<length (staged_entries c)]"
    by (rule set_eq_iff_mset_eq_distinct [OF log(1) distinct_upt, THEN iffD1])
  then have "mset (map ((!) (staged_entries c)) log) = mset (staged_entries c)"
    using map_nth [of "staged_entries c"] by (metis mset_map)
  from dmas_perm [OF this [symmetric] assms(4)] log(3) show ?thesis by simp
qed

section \<open>Every run of a call returns\<close>

lemma gather_progress:
  assumes "gather_inv c g" "main_at g \<noteq> Returned"
  shows "\<exists>g'. gather_step c g g'"
proof (cases "parallel_gather c g")
  case None
  with assms(2) obtain w where w: "main_at g = Await w" "w < gc_workers c" "busy c w" "\<not> task_done (gather_tasks g w)"
    by (auto simp: parallel_gather_def Let_def split: main_pc.splits if_splits)
  then have "running_ok (gather_tasks g w) (worker_at g w)" using assms(1) by (auto simp: gather_inv_def worker_ok_def)
  with w(4) have "gather_worker_loop w g \<noteq> None"
    by (cases "worker_at g w") (auto simp: gather_worker_loop_def Let_def)
  with w(2) show ?thesis by (auto intro: step_worker)
qed (auto intro: step_main)

fun worker_rank :: "GatherTask \<Rightarrow> worker_pc \<Rightarrow> nat" where
  "worker_rank t Idle = (if has_work t then (t_end t - t_start t) + 3 else 0)"
| "worker_rank t (Copying i) = (t_end t - i) + 2"
| "worker_rank t Clearing = 1"

fun main_rank :: "gather_call \<Rightarrow> main_pc \<Rightarrow> nat" where
  "main_rank c (Dispatch w) = (gc_count c + 5) * (gc_workers c - w) + gc_count c + gc_workers c + 4"
| "main_rank c (Publish w) = (gc_count c + 5) * (gc_workers c - Suc w) + 4 + gc_count c + gc_count c + gc_workers c + 4"
| "main_rank c (Main_Copy i) = (min (gc_chunk c) (gc_count c) - i) + gc_workers c + 3"
| "main_rank c (Await w) = (gc_workers c - w) + 1"
| "main_rank c Returned = 0"

definition gather_rank :: "gather_call \<Rightarrow> gather_state \<Rightarrow> nat" where
  "gather_rank c g = main_rank c (main_at g) + (\<Sum>w<gc_workers c. worker_rank (gather_tasks g w) (worker_at g w))"

lemma sum_change_one:
  fixes f h :: "nat \<Rightarrow> nat"
  assumes "v < n" "\<And>w. w \<noteq> v \<Longrightarrow> h w = f w"
  shows "(\<Sum>w<n. h w) + f v = (\<Sum>w<n. f w) + h v"
proof -
  have "(\<Sum>w<n. k w) = k v + (\<Sum>w\<in>{..<n} - {v}. k w)" for k :: "nat \<Rightarrow> nat"
    using assms(1) by (intro sum.remove) simp_all
  moreover have "(\<Sum>w\<in>{..<n} - {v}. h w) = (\<Sum>w\<in>{..<n} - {v}. f w)" using assms(2) by (intro sum.cong) auto
  ultimately show ?thesis by (simp add: add.commute add.left_commute)
qed

lemma worker_rank_step:
  assumes "gather_inv c g" "v < gc_workers c" "gather_worker_loop v g = Some g'"
  shows "gather_rank c g' < gather_rank c g"
proof -
  obtain t pc m where g': "g' = g\<lparr>gmem := m, gather_tasks := (gather_tasks g)(v := t), worker_at := (worker_at g)(v := pc)\<rparr>"
    and lt: "worker_rank t pc < worker_rank (gather_tasks g v) (worker_at g v)"
    using assms(3)
  proof (rule worker_frame)
    fix t pc m
    assume "g' = g\<lparr>gmem := m, gather_tasks := (gather_tasks g)(v := t), worker_at := (worker_at g)(v := pc)\<rparr>"
      and "worker_at g v = Idle \<and> has_work (gather_tasks g v) \<and> pc = Copying (t_start (gather_tasks g v)) \<and> t = gather_tasks g v \<and> m = gmem g
     \<or> (\<exists>i. worker_at g v = Copying i \<and> i < t_end (gather_tasks g v) \<and> pc = Copying (i + 1) \<and> t = gather_tasks g v
          \<and> m = gather_entry (t_entries t) (t_staging t) (t_min_dst t) i (gmem g))
     \<or> (\<exists>i. worker_at g v = Copying i \<and> t_end (gather_tasks g v) \<le> i \<and> pc = Clearing
          \<and> t = (gather_tasks g v)\<lparr>task_done := True\<rparr> \<and> m = gmem g)
     \<or> worker_at g v = Clearing \<and> pc = Idle \<and> t = (gather_tasks g v)\<lparr>has_work := False\<rparr> \<and> m = gmem g"
    then show ?thesis by (intro that [where m = m and t = t and pc = pc]) auto
  qed
  from lt sum_change_one [OF assms(2), of "\<lambda>w. worker_rank (gather_tasks g' w) (worker_at g' w)"
      "\<lambda>w. worker_rank (gather_tasks g w) (worker_at g w)"]
  show ?thesis by (simp add: gather_rank_def g')
qed

lemma main_rank_step:
  assumes "gather_inv c g" "parallel_gather c g = Some g'"
  shows "gather_rank c g' < gather_rank c g"
proof (cases "main_at g")
  case (Dispatch w)
  have less: "main_rank c (Publish w) < main_rank c (Dispatch w)" "main_rank c (Dispatch (Suc w)) < main_rank c (Dispatch w)" if "w < gc_workers c"
  proof -
    have "gc_workers c - w = Suc (gc_workers c - Suc w)" using that by simp
    then show "main_rank c (Publish w) < main_rank c (Dispatch w)" "main_rank c (Dispatch (Suc w)) < main_rank c (Dispatch w)" by simp_all
  qed
  show ?thesis
  proof (cases "gc_workers c \<le> w \<or> \<not> busy c w")
    case True
    then show ?thesis using assms(2) Dispatch less
      by (cases "gc_workers c \<le> w") (auto simp: parallel_gather_def gather_rank_def Let_def)
  next
    case False
    then obtain t where g': "g' = g\<lparr>gather_tasks := (gather_tasks g)(w := t), main_at := Publish w\<rparr>"
      and t: "has_work t = has_work (gather_tasks g w)"
      using assms(2) Dispatch by (auto simp: parallel_gather_def Let_def)
    have "worker_at g w = Idle" "\<not> has_work (gather_tasks g w)"
      using assms(1) Dispatch False by (auto simp: gather_inv_def worker_ok_def)
    with t have "worker_rank (gather_tasks g' v) (worker_at g' v) = worker_rank (gather_tasks g v) (worker_at g v)" for v by (simp add: g')
    then show ?thesis using less False Dispatch by (simp add: gather_rank_def g')
  qed
next
  case (Publish w)
  have w: "w < gc_workers c" "loaded c w (gather_tasks g w)" "busy c w" using assms(1) Publish by (simp_all add: gather_inv_def)
  have g': "g' = g\<lparr>gather_tasks := (gather_tasks g)(w := (gather_tasks g w)\<lparr>has_work := True\<rparr>), main_at := Dispatch (w + 1)\<rparr>"
    using assms(2) Publish by (simp add: parallel_gather_def)
  have "worker_at g w = Idle" "\<not> has_work (gather_tasks g w)"
    using assms(1) Publish w by (auto simp: gather_inv_def worker_ok_def)
  moreover have "t_end (gather_tasks g w) \<le> gc_count c" using w(2) by (simp add: loaded_def)
  ultimately show ?thesis
    using sum_change_one [OF w(1), of "\<lambda>w. worker_rank (gather_tasks g' w) (worker_at g' w)"
      "\<lambda>w. worker_rank (gather_tasks g w) (worker_at g w)"] Publish by (simp add: gather_rank_def g')
next
  case (Main_Copy i)
  then show ?thesis using assms(2) by (auto simp: parallel_gather_def gather_rank_def split: if_splits)
next
  case (Await w)
  then show ?thesis using assms(2) by (auto simp: parallel_gather_def gather_rank_def split: if_splits)
next
  case Returned
  then show ?thesis using assms(2) by (simp add: parallel_gather_def)
qed

lemma gather_rank_step: "gather_inv c g \<Longrightarrow> gather_step c g g' \<Longrightarrow> gather_rank c g' < gather_rank c g"
  by (auto elim!: gather_step.cases intro: main_rank_step worker_rank_step)

interpretation gather: terminating_steps "gather_step c" "at_rest c" "gather_inv c" "gather_rank c" "\<lambda>g. main_at g = Returned" for c
  by unfold_locales (auto intro: gather_rank_step gather_progress)

section \<open>The window between the two stores\<close>

text \<open>A schedule: \<open>None\<close> lets the polling thread act, \<open>Some w\<close> worker \<open>w\<close>.\<close>

fun gather_run :: "gather_call \<Rightarrow> nat option list \<Rightarrow> gather_state \<Rightarrow> gather_state option" where
  "gather_run c [] g = Some g"
| "gather_run c (None # sch) g = (case parallel_gather c g of None \<Rightarrow> None | Some g' \<Rightarrow> gather_run c sch g')"
| "gather_run c (Some w # sch) g =
     (if w < gc_workers c then case gather_worker_loop w g of None \<Rightarrow> None | Some g' \<Rightarrow> gather_run c sch g' else None)"

lemma gather_run_reach: "gather_reach c g0 g \<Longrightarrow> gather_run c sch g = Some g' \<Longrightarrow> gather_reach c g0 g'"
  by (induction c sch g rule: gather_run.induct)
    (auto split: option.splits if_splits intro: rtranclp.rtrancl_into_rtrancl step_main step_worker)

definition two_entries :: gather_call where
  "two_entries = \<lparr>gc_entries = [\<lparr>sg_dst = 0, sg_src = 100, sg_size = 1\<rparr>, \<lparr>sg_dst = 1, sg_src = 200, sg_size = 1\<rparr>],
     gc_staging = 1000, gc_min_dst = 0, gc_workers = 1\<rparr>"

definition rest_state :: gather_state where
  "rest_state = \<lparr>gather_tasks = \<lambda>_. \<lparr>has_work = False, task_done = False, t_entries = [], t_staging = 0, t_min_dst = 0,
       t_start = 0, t_end = 0\<rparr>, worker_at = \<lambda>_. Idle, main_at = Dispatch 0, gmem = \<lambda>_. 0\<rparr>"

lemma two_entries_sizes: "gc_count two_entries = 2" "gc_chunk two_entries = 1" "gc_workers two_entries = 1"
  by (simp_all add: two_entries_def gc_count_def gc_chunk_def Let_def flip: numeral_2_eq_2 numeral_3_eq_3)

lemmas gather_eval = two_entries_sizes rest_state_def parallel_gather_def gather_worker_loop_def Let_def

end
