(* ===== verification/Bucketing.thy ===== *)
theory Bucketing
  imports Radix_Sort
begin

text \<open>
  Grouping a batch by tile or list id, as \<open>process_batch_tiled\<close> and \<open>process_batch_sg\<close> both do it
  (\<open>src/batch_processor.cpp\<close>): a persistent id-to-bucket map that is all \<open>-1\<close> between calls, a counting
  pass, a prefix sum, a scatter pass into one flat index array, and a clearing pass that touches only the
  ids that were used. \<open>ks\<close> is the list of the descriptors' ids and \<open>limit\<close> is \<open>MAX_TILES\<close> or \<open>MAX_SG_LISTS\<close>;
  descriptors with an id at or above it are skipped. The groups are shown to be exactly the index lists of each id
  below the limit, in batch order.
\<close>

section \<open>The code\<close>

type_synonym bucket_state = "(nat \<Rightarrow> int) \<times> nat list \<times> (nat \<Rightarrow> nat)"

fun count_step :: "nat \<Rightarrow> nat \<Rightarrow> bucket_state \<Rightarrow> bucket_state" where
  "count_step limit k (bucket_map, active_ids, counts) =
     (if limit \<le> k then (bucket_map, active_ids, counts)
      else if bucket_map k = -1
      then let b = length active_ids
           in (bucket_map(k := int b), active_ids @ [k], counts(b := counts b + 1))
      else let b = nat (bucket_map k) in (bucket_map, active_ids, counts(b := counts b + 1)))"

definition count_pass :: "nat \<Rightarrow> nat list \<Rightarrow> (nat \<Rightarrow> int) \<Rightarrow> bucket_state" where
  "count_pass limit ks bucket_map = fold (count_step limit) ks (bucket_map, [], \<lambda>_. 0)"

definition scatter_pass :: "nat \<Rightarrow> nat list \<Rightarrow> (nat \<Rightarrow> int) \<Rightarrow> (nat \<Rightarrow> nat) \<times> nat list \<Rightarrow> (nat \<Rightarrow> nat) \<times> nat list" where
  "scatter_pass limit ks bucket_map =
     fold (\<lambda>i (fill_pos, flat_indices).
             if limit \<le> ks ! i then (fill_pos, flat_indices)
             else let b = nat (bucket_map (ks ! i))
                  in (fill_pos(b := fill_pos b + 1), flat_indices[fill_pos b := i])) [0..<length ks]"

definition clear_pass :: "nat list \<Rightarrow> (nat \<Rightarrow> int) \<Rightarrow> (nat \<Rightarrow> int)" where
  "clear_pass active_ids = fold (\<lambda>k bucket_map. bucket_map(k := -1)) active_ids"

definition group_batch :: "nat \<Rightarrow> nat list \<Rightarrow> nat list \<Rightarrow> (nat \<Rightarrow> int) \<Rightarrow> nat list \<times> nat list list \<times> (nat \<Rightarrow> int)" where
  "group_batch limit flat0 ks bucket_map =
     (case count_pass limit ks bucket_map of (map1, active_ids, counts) \<Rightarrow>
        let offsets = radix_offsets counts;
            flat_indices = snd (scatter_pass limit ks map1 (offsets, flat0))
        in (active_ids,
            map (\<lambda>b. map (\<lambda>i. flat_indices ! (offsets b + i)) [0..<counts b]) [0..<length active_ids],
            clear_pass active_ids map1))"

section \<open>The counting pass\<close>

definition counted :: "nat \<Rightarrow> nat list \<Rightarrow> bucket_state \<Rightarrow> bool" where
  "counted limit seen s \<longleftrightarrow> (case s of (bm, act, cnt) \<Rightarrow>
     distinct act \<and> set act = {k \<in> set seen. k < limit} \<and> (\<forall>b<length act. bm (act ! b) = int b)
     \<and> (\<forall>k. k \<notin> set act \<longrightarrow> bm k = -1)
     \<and> (\<forall>b. cnt b = (if b < length act then length (filter (\<lambda>k. k = act ! b) seen) else 0)))"

lemma counted_step:
  assumes "counted limit seen s"
  shows "counted limit (seen @ [k]) (count_step limit k s)"
proof -
  obtain bm act cnt where s: "s = (bm, act, cnt)" by (cases s) auto
  have d: "distinct act" "set act = {k \<in> set seen. k < limit}" and bm: "\<And>b. b < length act \<Longrightarrow> bm (act ! b) = int b"
    and out: "\<And>k. k \<notin> set act \<Longrightarrow> bm k = -1"
    and cnt: "\<And>b. cnt b = (if b < length act then length (filter (\<lambda>k. k = act ! b) seen) else 0)"
    using assms by (simp_all add: s counted_def)
  consider "limit \<le> k" | "k < limit" "k \<notin> set act" | b where "k < limit" "b < length act" "k = act ! b"
    by (metis in_set_conv_nth not_less)
  then show ?thesis
  proof cases
    case 1
    have "act ! b < limit" if "b < length act" for b using d(2) nth_mem [OF that] by blast
    with 1 have "filter (\<lambda>x. x = act ! b) (seen @ [k]) = filter (\<lambda>x. x = act ! b) seen" if "b < length act" for b
      using that by fastforce
    moreover have "{x \<in> set (seen @ [k]). x < limit} = {x \<in> set seen. x < limit}" using 1 by auto
    ultimately show ?thesis using 1 d bm out cnt by (simp add: s counted_def)
  next
    case 2
    have "act ! b \<noteq> k" if "b < length act" for b using 2 nth_mem [OF that] by blast
    moreover have "filter (\<lambda>x. x = k) seen = []" using 2 d(2) by (auto simp: filter_empty_conv)
    ultimately show ?thesis using 2 d bm out cnt
      by (auto simp: s counted_def Let_def nth_append less_Suc_eq)
  next
    case 3
    have k: "k \<in> set act" "bm k = int b" using 3 bm nth_mem by auto
    have "k = act ! c \<longleftrightarrow> c = b" if "c < length act" for c using 3 d(1) that by (auto simp: nth_eq_iff_index_eq)
    then have "length (filter (\<lambda>x. x = act ! c) (seen @ [k])) = length (filter (\<lambda>x. x = act ! c) seen) + (if c = b then 1 else 0)"
      if "c < length act" for c using that by simp
    moreover have "{x \<in> set (seen @ [k]). x < limit} = {x \<in> set seen. x < limit}" using k(1) d(2) by auto
    ultimately show ?thesis using 3(1,2) k d bm out cnt by (simp add: s counted_def Let_def)
  qed
qed

lemma count_pass_counted: "counted limit ks (count_pass limit ks (\<lambda>_. -1))"
proof -
  have "counted limit seen s \<Longrightarrow> counted limit (seen @ ks) (fold (count_step limit) ks s)" for seen s
  proof (induction ks arbitrary: seen s)
    case (Cons k ks)
    from Cons.IH [OF counted_step [OF Cons.prems]] show ?case by simp
  qed simp
  from this [of "[]" "(\<lambda>_. -1, [], \<lambda>_. 0)"] show ?thesis by (simp add: count_pass_def counted_def)
qed

section \<open>The scatter pass\<close>

lemma scatter_pass_valid:
  "scatter_pass limit ks bm s = fold (\<lambda>i (fill, flat). (fill(nat (bm (ks ! i)) := fill (nat (bm (ks ! i))) + 1),
     flat[fill (nat (bm (ks ! i))) := i])) (filter (\<lambda>i. ks ! i < limit) [0..<length ks]) s"
proof -
  have "fold (\<lambda>i (fill, flat). if limit \<le> ks ! i then (fill, flat)
             else let b = nat (bm (ks ! i)) in (fill(b := fill b + 1), flat[fill b := i])) is s
      = fold (\<lambda>i (fill, flat). (fill(nat (bm (ks ! i)) := fill (nat (bm (ks ! i))) + 1),
          flat[fill (nat (bm (ks ! i))) := i])) (filter (\<lambda>i. ks ! i < limit) is) s" for "is"
    by (induction "is" arbitrary: s) (auto simp: Let_def split: prod.splits)
  then show ?thesis by (simp add: scatter_pass_def)
qed

lemma filter_idx: "length (filter P ks) = length (filter (\<lambda>i. P (ks ! i)) [0..<length ks])"
  by (metis (no_types, lifting) comp_apply filter_cong filter_map length_map map_nth)

theorem group_batch_correct:
  assumes "length ks \<le> length flat0" "group_batch limit flat0 ks (\<lambda>_. -1) = (act, groups, bm)"
  shows "distinct act" and "set act = {k \<in> set ks. k < limit}"
    and "groups = map (\<lambda>k. filter (\<lambda>i. ks ! i = k) [0..<length ks]) act"
    and "bm = (\<lambda>_. -1)"
proof -
  obtain bm1 cnt where cp: "count_pass limit ks (\<lambda>_. -1) = (bm1, act, cnt)"
    using assms(2) by (auto simp: group_batch_def Let_def split: prod.splits)
  have d: "distinct act" "set act = {k \<in> set ks. k < limit}" and bm1: "\<And>b. b < length act \<Longrightarrow> bm1 (act ! b) = int b"
    and out: "\<And>k. k \<notin> set act \<Longrightarrow> bm1 k = -1"
    and cnt: "\<And>b. cnt b = (if b < length act then length (filter (\<lambda>k. k = act ! b) ks) else 0)"
    using count_pass_counted [of limit ks] by (simp_all add: cp counted_def)
  show "distinct act" "set act = {k \<in> set ks. k < limit}" by fact+
  have "fold (\<lambda>k bm. bm(k := -1)) xs f = (\<lambda>k. if k \<in> set xs then -1 else f k)" for xs :: "nat list" and f :: "nat \<Rightarrow> int"
    by (induction xs arbitrary: f) auto
  moreover have bm: "bm = clear_pass act bm1" using assms(2) by (simp add: group_batch_def cp Let_def)
  ultimately show "bm = (\<lambda>_. -1)" using out by (simp add: clear_pass_def fun_eq_iff)
  let ?f = "\<lambda>i. nat (bm1 (ks ! i))" and ?valid = "filter (\<lambda>i. ks ! i < limit) [0..<length ks]"
  let ?off = "radix_offsets cnt" and ?L = "digit_lists (\<lambda>i. nat (bm1 (ks ! i))) (filter (\<lambda>i. ks ! i < limit) [0..<length ks])"
  have key: "\<exists>b<length act. ks ! i = act ! b \<and> ?f i = b" if "i \<in> set ?valid" for i
  proof -
    have "ks ! i \<in> set act" using that d(2) by auto
    then show ?thesis using bm1 by (metis in_set_conv_nth nat_int)
  qed
  have L: "?L b = filter (\<lambda>i. ks ! i = act ! b) [0..<length ks]" if "b < length act" for b
  proof -
    have "?f i = b \<longleftrightarrow> ks ! i = act ! b" if i: "i \<in> set ?valid" for i
      using key [OF i] \<open>b < length act\<close> bm1 by auto
    moreover have "act ! b < limit" using d(2) nth_mem [OF that] by blast
    ultimately show ?thesis unfolding digit_lists_def filter_filter by (intro filter_cong) (use bm1 [OF that] in auto)
  qed
  have empty: "?L b = []" if "\<not> b < length act" for b
    using key that unfolding digit_lists_def by (subst filter_empty_conv) blast
  have c: "cnt b = length (?L b)" for b
    using cnt [of b] L [of b] empty [of b] filter_idx [of "\<lambda>k. k = act ! b" ks] by simp
  have off: "?off b = length (concat (map ?L [0..<b]))" for b by (rule radix_offsets_eq) (rule c)
  have total: "?off n \<le> length ?valid" for n
  proof -
    have "sum_list (map (\<lambda>b. length (?L b)) [0..<n]) = length (filter (\<lambda>i. ?f i < n) ?valid)"
      by (induction n) (simp_all add: digit_lists_def length_filter_less_Suc del: filter_filter)
    also have "\<dots> \<le> length ?valid" by (rule length_filter_le)
    finally show ?thesis unfolding off length_concat map_map comp_def .
  qed
  have room: "?off b + cnt b \<le> length flat0" for b
  proof -
    have "?off (Suc b) \<le> length ks" using total [of "Suc b"] length_filter_le [of "\<lambda>i. ks ! i < limit" "[0..<length ks]"] by simp
    then show ?thesis using assms(1) by simp
  qed
  let ?s = "scatter_pass limit ks bm1 (?off, flat0)"
  have "scattered ?f ?off ?valid ?s"
    using scatter_loop [where c = cnt and start = ?off and xs = "[]" and ys = ?valid and f = ?f and offs = ?off and d = flat0]
      radix_offsets_disjoint [where c = cnt] room
    unfolding scatter_pass_valid by (simp add: scattered_def Let_def c) (simp add: digit_lists_def)
  then have "map (\<lambda>i. snd ?s ! (?off b + i)) [0..<cnt b] = ?L b" for b
    by (intro nth_equalityI) (simp_all add: scattered_def c)
  then have "groups = map ?L [0..<length act]" using assms(2) by (simp add: group_batch_def cp Let_def)
  also have "\<dots> = map (\<lambda>b. filter (\<lambda>i. ks ! i = act ! b) [0..<length ks]) [0..<length act]" using L by simp
  also have "\<dots> = map (\<lambda>k. filter (\<lambda>i. ks ! i = k) [0..<length ks]) act"
    by (intro nth_equalityI) simp_all
  finally show "groups = map (\<lambda>k. filter (\<lambda>i. ks ! i = k) [0..<length ks]) act" .
qed

end
