(* ===== verification/Transfer_Properties.thy ===== *)
theory Transfer_Properties
  imports Radix_Sort Parallel_Gather Bucketing
begin

text \<open>
  The properties of the algorithms below the batch processor: coalescing, sorting, staging through a pinned buffer, the
  non-temporal copy, the parallel gather and the grouping of a batch by an identifier.
\<close>

section \<open>Example lists\<close>

text \<open>Two adjacent transfers and one apart from them.\<close>

definition example_list :: "SGEntry list" where
  "example_list = [\<lparr>sg_dst = 4096, sg_src = 100, sg_size = 4\<rparr>, \<lparr>sg_dst = 4100, sg_src = 104, sg_size = 4\<rparr>,
     \<lparr>sg_dst = 4200, sg_src = 300, sg_size = 8\<rparr>]"

definition many_entries :: "SGEntry list" where
  "many_entries = map (\<lambda>i. \<lparr>sg_dst = 4096 - of_nat i, sg_src = 100, sg_size = 1\<rparr>) [0..<65]"

lemma example_separate: "separate example_list"
  by (auto simp: separate_def example_list_def dst_disjoint_def src_dst_disjoint_def intro!: region_apart_either)

lemma example_bytes: "bytes example_list < 2 ^ 64"
  by (simp add: example_list_def)

section \<open>Coalescing\<close>

text \<open>Coalescing does not change what is copied: for a list whose destinations are disjoint and apart from its sources, the
  merged transfers leave the same memory as the original ones, in at most as many transfers and with the same number of bytes.\<close>

theorem coalesce_same_memory:
  assumes "separate es" "bytes es < 2 ^ 64"
  shows "dmas (coalesce es) m = dmas es m \<and> bytes (coalesce es) = bytes es \<and> length (coalesce es) \<le> length es"
  using coalesce_correct [OF assms] length_coalesce by simp

theorem coalesce_same_memory_witness:
  "\<forall>m. dmas (coalesce example_list) m = dmas example_list m \<and> length (coalesce example_list) = 2"
  using coalesce_same_memory [OF example_separate example_bytes] by (simp add: example_list_def contig_def grow_def)

section \<open>Sorting\<close>

text \<open>C24: Above 64 entries the radix sort is a stable sort by the low 32 bits of the key, which its four passes of 8 bits
  cover; its scratch array only needs to be as long as the input, and its contents do not matter.\<close>

theorem radix_sort_is_stable_sort:
  assumes "64 < length arr" "length arr \<le> length tmp"
  shows "radix_sort_sg arr tmp key = sort_key (\<lambda>e. low32 (key e)) arr"
  using assms by (rule radix_sort_large)

theorem radix_sort_is_stable_sort_witness:
  "radix_sort_sg many_entries many_entries sg_dst = sort_key (\<lambda>e. low32 (sg_dst e)) many_entries"
  using radix_sort_is_stable_sort [of many_entries many_entries sg_dst] by (simp add: many_entries_def)

text \<open>Sorting before coalescing is sound for every key, also where the radix sort ignores the high half of an address:
  the sorted and merged transfers leave the same memory as the original ones.\<close>

theorem sorted_coalescing_same_memory:
  assumes "separate es" "bytes es < 2 ^ 64" "length es \<le> length tmp"
  shows "dmas (coalesce (radix_sort_sg es tmp key)) m = dmas es m"
  using radix.srt_coalesce(1) [OF assms(3,1,2)] .

theorem sorted_coalescing_same_memory_witness:
  "\<forall>m. dmas (coalesce (radix_sort_sg example_list example_list sg_src)) m = dmas example_list m"
  using sorted_coalescing_same_memory [OF example_separate example_bytes, of example_list sg_src] by simp

section \<open>Staging\<close>

text \<open>Gathering into the staging buffer and copying the runs of its image of the destination range leaves, outside the
  buffer, exactly what copying every entry directly leaves, whatever permutation the sort makes of the entries.\<close>

theorem staging_same_memory:
  assumes "separate es" "staging_fits staging min_dst n es" "bytes es < 2 ^ 64" "length es \<le> length tmp" "a \<notin> region staging n"
  shows "dmas (dst_runs staging min_dst (radix_sort_sg es tmp sg_dst)) (dmas (map (staged staging min_dst) es) m) a = dmas es m a"
  using radix.srt_staging [OF assms(4,1,2,3,5)] .

lemma example_staging_fits: "staging_fits 100000 4096 200 example_list"
  unfolding staging_fits_def
proof (intro ballI conjI)
  fix e assume e: "e \<in> set example_list"
  show "dst_region e \<subseteq> region 4096 200" by (rule region_within) (use e in \<open>auto simp: example_list_def\<close>)
  show "disjnt (src_region e) (region 100000 200)" "disjnt (dst_region e) (region 100000 200)"
    using e by (auto simp: example_list_def intro!: region_apart_either)
qed

theorem staging_same_memory_witness:
  "\<forall>m. dmas (dst_runs 100000 4096 (radix_sort_sg example_list example_list sg_dst)) (dmas (map (staged 100000 4096) example_list) m) 4101
     = dmas example_list m 4101"
  using staging_same_memory [OF example_separate example_staging_fits example_bytes, of example_list 4101]
  by (simp add: in_region)

section \<open>The gather\<close>

text \<open>The AVX-512 copy (blocks of 64 bytes by non-temporal stores, then the tail) is \<open>memcpy\<close>.\<close>

theorem streaming_memcpy_is_memcpy:
  assumes "disjnt (region src (unat n)) (region dst (unat n))"
  shows "streaming_memcpy_g dst src n m = memcpy dst src (unat n) m"
  using assms by (rule streaming_memcpy_correct)

theorem streaming_memcpy_is_memcpy_witness: "\<forall>m. streaming_memcpy_g 4096 100 200 m = memcpy 4096 100 200 m"
  using streaming_memcpy_is_memcpy [of 100 200 4096] by (simp add: region_apart_either)

text \<open>C10: Whatever the interleaving of the polling thread and the gather workers, from a state where all workers are idle, when \<open>parallel_gather\<close> returns every entry has been
  copied to its place in the staging buffer, exactly as a sequential loop copies them.\<close>

theorem gather_any_interleaving:
  assumes "at_rest c g0" "gather_reach c g0 g" "main_at g = Returned" "separate (staged_entries c)"
  shows "gmem g = dmas (staged_entries c) (gmem g0)"
  using gather_returned [OF assms(2,1,3,4)] .

lemma two_entries_separate: "separate (staged_entries two_entries)"
  by (auto simp: separate_def two_entries_def dst_disjoint_def src_dst_disjoint_def intro!: region_apart_either)

lemma rest_state_at_rest: "at_rest two_entries rest_state"
  by (simp add: at_rest_def rest_state_def)

theorem gather_any_interleaving_witness:
  "\<exists>g. gather_run two_entries [None, None, None, None, Some 0, None, Some 0, Some 0, Some 0, None, None] rest_state = Some g
     \<and> gmem g = dmas (staged_entries two_entries) (gmem rest_state)"
proof -
  obtain g where g: "gather_run two_entries [None, None, None, None, Some 0, None, Some 0, Some 0, Some 0, None, None] rest_state = Some g"
    "main_at g = Returned" by (simp add: gather_eval)
  from gather_any_interleaving [OF rest_state_at_rest gather_run_reach [OF rtranclp.rtrancl_refl g(1)] g(2) two_entries_separate] g(1)
  show ?thesis by blast
qed

text \<open>C32: \<open>parallel_gather\<close> cannot run for ever: from a state where all workers are idle, the number of steps of any execution of
  the polling thread and the workers is bounded, and every reachable state can be continued to one in which the call has
  returned.\<close>

theorem gather_terminates:
  assumes "at_rest c g0"
  shows "(\<exists>bound. \<forall>f k. f 0 = g0 \<and> (\<forall>n<k. gather_step c (f n) (f (Suc n))) \<longrightarrow> k \<le> bound)
    \<and> (\<forall>g. gather_reach c g0 g \<longrightarrow> (\<exists>g'. gather_reach c g g' \<and> main_at g' = Returned))"
proof
  show "\<exists>bound. \<forall>f k. f 0 = g0 \<and> (\<forall>n<k. gather_step c (f n) (f (Suc n))) \<longrightarrow> k \<le> bound"
    by (intro exI [of _ "gather_rank c g0"]) (use gather.run_bounded [of c] assms in auto)
qed (use gather.can_finish [of c g0] assms in blast)

theorem gather_terminates_witness: "\<exists>g. gather_reach two_entries rest_state g \<and> main_at g = Returned"
  using gather_terminates [OF rest_state_at_rest] by blast

text \<open>The order of the two stores that end a worker's task loses work: the worker raises \<open>done\<close> before it lowers \<open>has_work\<close>,
  so a second call can publish a new task in between, which the late store erases. With one worker and two entries the
  second call then waits for ever: no thread can take a step.\<close>

theorem gather_lost_work:
  "\<exists>g1 g2. gather_run two_entries [None, None, None, None, None, Some 0, Some 0, Some 0, None, None] rest_state = Some g1
     \<and> main_at g1 = Returned
     \<and> gather_run two_entries [None, None, Some 0, None, None, None] (g1\<lparr>main_at := Dispatch 0\<rparr>) = Some g2
     \<and> main_at g2 = Await 0 \<and> (\<nexists>g3. gather_step two_entries g2 g3)"
  by (simp add: gather_eval gather_step.simps)

section \<open>Grouping\<close>

text \<open>Grouping a batch by its identifiers (count, prefix sum, scatter) is exact: every identifier below the limit that occurs gets
  one group, in which the positions of its entries appear once each and in the order of the batch; the map from identifiers to
  groups is reset for the next batch.\<close>

theorem grouping_exact:
  assumes "length ks \<le> length flat0" "group_batch limit flat0 ks (\<lambda>_. -1) = (act, groups, bm)"
  shows "distinct act \<and> set act = {k \<in> set ks. k < limit}
    \<and> groups = map (\<lambda>k. filter (\<lambda>i. ks ! i = k) [0..<length ks]) act \<and> bm = (\<lambda>_. -1)"
  using group_batch_correct [OF assms] by blast

theorem grouping_exact_witness:
  "set (fst (group_batch 1024 [0, 0, 0, 0] [7, 3, 7, 2000] (\<lambda>_. -1))) = {7, 3}"
proof -
  obtain act groups bm where g: "group_batch 1024 [0, 0, 0, 0] [7, 3, 7, 2000] (\<lambda>_. -1) = (act, groups, bm)" by (metis prod_cases3)
  from grouping_exact [OF _ this] have "set act = {k \<in> {7, 3, 7, 2000}. k < 1024}" by simp
  also have "\<dots> = {7, 3}" by auto
  finally show ?thesis by (simp add: g)
qed

end
