(* ===== verification/Descriptor_Queue.thy ===== *)
theory Descriptor_Queue
  imports Scatter_Gather
begin

text \<open>
  The descriptor ring (\<open>include/gfd/descriptor_queue.h\<close>, \<open>tiled_queue.h\<close>) and the device functions that
  write and commit descriptors (\<open>device.cuh\<close>, \<open>device_primitives.cuh\<close>). Arrays are functions of the
  index. A warp-collective loop runs \<open>i = lane, lane + 32, \<dots>\<close> in every lane; the model runs the lanes one
  after another and the lemmas show that the order does not matter. Fences and \<open>__syncwarp\<close> have no effect
  on this memory; a polling loop is a test of the state that must hold for the call to return.
\<close>

section \<open>Data\<close>

definition QUEUE_SIZE :: nat where "QUEUE_SIZE = 16384"
definition MAX_BATCH_SIZE :: nat where "MAX_BATCH_SIZE = 8192"
definition BATCH_THRESHOLD :: nat where "BATCH_THRESHOLD = 4096"
definition BATCH_THRESHOLD_SMALL :: nat where "BATCH_THRESHOLD_SMALL = 1024"
definition MAX_TILES :: nat where "MAX_TILES = 1024"
definition MAX_SG_LISTS :: nat where "MAX_SG_LISTS = 512"

definition FLAG_NONE :: u32 where "FLAG_NONE = 0"
definition FLAG_LAST_IN_BATCH :: u32 where "FLAG_LAST_IN_BATCH = 1"
definition FLAG_URGENT :: u32 where "FLAG_URGENT = 2"
definition FLAG_LAST_IN_TILE :: u32 where "FLAG_LAST_IN_TILE = 4"
definition FLAG_LAST_CHUNK_IN_TILE :: u32 where "FLAG_LAST_CHUNK_IN_TILE = 8"

lemmas flag_defs = FLAG_NONE_def FLAG_LAST_IN_BATCH_def FLAG_URGENT_def FLAG_LAST_IN_TILE_def FLAG_LAST_CHUNK_IN_TILE_def

record Descriptor =
  src_addr :: u64
  dst_addr :: u64
  desc_size :: u32
  flags :: u32
  user_data :: u64
  sequence :: u64

record DescriptorQueue =
  entries :: "nat \<Rightarrow> Descriptor"
  write_idx :: u64
  read_idx :: u64
  done_idx :: u64

record TileScheduler =
  next_tile :: u32
  total_tiles :: u32
  tokens_per_tile :: u32
  tokens_per_chunk :: u32
  chunks_per_tile :: u32
  token_size :: u32

text \<open>\<open>d_tile_chunk_done\<close> is a device array that need not be there.\<close>

record TiledQueue =
  base :: DescriptorQueue
  scheduler :: TileScheduler
  tile_chunk_done :: "nat \<Rightarrow> u64"
  d_tile_chunk_done :: "(nat \<Rightarrow> u64) option"

definition slot_index :: "u64 \<Rightarrow> nat" where
  "slot_index slot = unat slot mod QUEUE_SIZE"

definition set_entry :: "u64 \<Rightarrow> (Descriptor \<Rightarrow> Descriptor) \<Rightarrow> DescriptorQueue \<Rightarrow> DescriptorQueue" where
  "set_entry slot f q = q\<lparr>entries := (entries q)(slot_index slot := f (entries q (slot_index slot)))\<rparr>"

definition entry_at :: "u64 \<Rightarrow> DescriptorQueue \<Rightarrow> Descriptor" where
  "entry_at slot q = entries q (slot_index slot)"

text \<open>The tile or list id a descriptor carries, and the copy it asks for.\<close>

definition id_of :: "Descriptor \<Rightarrow> nat" where
  "id_of d = unat (ucast (drop_bit 32 (user_data d)) :: u32)"

definition sg_of :: "Descriptor \<Rightarrow> SGEntry" where
  "sg_of d = \<lparr>sg_dst = dst_addr d, sg_src = src_addr d, sg_size = ucast (desc_size d)\<rparr>"

section \<open>One descriptor per thread\<close>

definition write_descriptor :: "u64 \<Rightarrow> int \<Rightarrow> u64 \<Rightarrow> u64 \<Rightarrow> u32 \<Rightarrow> int \<Rightarrow> u64 \<Rightarrow> DescriptorQueue \<Rightarrow> DescriptorQueue" where
  "write_descriptor base_slot token_idx src gpu_dst tsize num_tokens udata =
     set_entry (base_slot + of_int token_idx)
       (\<lambda>desc. desc\<lparr>src_addr := src, dst_addr := gpu_dst + of_int token_idx * ucast tsize, desc_size := tsize,
          flags := (if token_idx = num_tokens - 1 then FLAG_LAST_IN_BATCH else FLAG_NONE), user_data := udata\<rparr>)"

definition fence_and_commit :: "u64 \<Rightarrow> int \<Rightarrow> bool \<Rightarrow> DescriptorQueue \<Rightarrow> DescriptorQueue" where
  "fence_and_commit base_slot token_idx active q =
     (if active then let slot = base_slot + of_int token_idx in set_entry slot (\<lambda>desc. desc\<lparr>sequence := slot + 1\<rparr>) q
      else q)"

definition wait_for_completion :: "u64 \<Rightarrow> DescriptorQueue \<Rightarrow> bool" where
  "wait_for_completion expected_done q \<longleftrightarrow> expected_done \<le> done_idx q"

definition write_descriptor_safe ::
  "u64 \<Rightarrow> int \<Rightarrow> u64 \<Rightarrow> u64 \<Rightarrow> u32 \<Rightarrow> int \<Rightarrow> u64 \<Rightarrow> DescriptorQueue \<Rightarrow> bool \<times> DescriptorQueue" where
  "write_descriptor_safe base_slot token_idx src gpu_dst tsize num_tokens udata q =
     (if sequence (entry_at (base_slot + of_int token_idx) q) \<noteq> 0 then (False, q)
      else (True, set_entry (base_slot + of_int token_idx)
       (\<lambda>desc. desc\<lparr>src_addr := src, dst_addr := gpu_dst + of_int token_idx * ucast tsize, desc_size := tsize,
          flags := (if token_idx = num_tokens - 1 then FLAG_LAST_IN_BATCH else FLAG_NONE), user_data := udata\<rparr>) q))"

definition write_and_commit ::
  "u64 \<Rightarrow> int \<Rightarrow> bool \<Rightarrow> u64 \<Rightarrow> u64 \<Rightarrow> u32 \<Rightarrow> int \<Rightarrow> u64 \<Rightarrow> DescriptorQueue \<Rightarrow> DescriptorQueue" where
  "write_and_commit base_slot token_idx active src gpu_dst tsize num_tokens udata q =
     fence_and_commit base_slot token_idx active
       (if active then write_descriptor base_slot token_idx src gpu_dst tsize num_tokens udata q else q)"

section \<open>Warp-collective primitives\<close>

definition acquire_tile :: "TiledQueue \<Rightarrow> u32 \<times> TiledQueue" where
  "acquire_tile tq = (next_tile (scheduler tq), tq\<lparr>scheduler := (scheduler tq)\<lparr>next_tile := next_tile (scheduler tq) + 1\<rparr>\<rparr>)"

definition acquire_chunk_slots :: "u32 \<Rightarrow> TiledQueue \<Rightarrow> u64 \<times> TiledQueue" where
  "acquire_chunk_slots n tq = (write_idx (base tq), tq\<lparr>base := (base tq)\<lparr>write_idx := write_idx (base tq) + ucast n\<rparr>\<rparr>)"

function lane_loop :: "nat \<Rightarrow> nat \<Rightarrow> nat list" where
  "lane_loop i n = (if i < n then i # lane_loop (i + 32) n else [])"
  by auto
termination by (relation "measure (\<lambda>(i, n). n - i)") auto

declare lane_loop.simps [simp del]

definition warp_indices :: "nat \<Rightarrow> nat list" where
  "warp_indices n = concat (map (\<lambda>lane. lane_loop lane n) [0..<32])"

definition chunk_descriptor :: "u32 \<Rightarrow> u32 \<Rightarrow> u32 \<Rightarrow> u32 \<Rightarrow> u64 \<Rightarrow> u64 \<Rightarrow> u32 \<Rightarrow> u32 \<Rightarrow> Descriptor \<Rightarrow> Descriptor" where
  "chunk_descriptor tile_id chunk_id C T cpu_base gpu_base tsize i desc =
     (let K = T div C; local_token = chunk_id * C + i; global_idx = tile_id * T + local_token;
          fl = (if i = C - 1 then FLAG_LAST_IN_TILE else FLAG_NONE);
          fl' = (if i = C - 1 \<and> chunk_id = K - 1 then fl OR FLAG_LAST_CHUNK_IN_TILE else fl)
      in desc\<lparr>src_addr := cpu_base + ucast global_idx * ucast tsize, dst_addr := gpu_base + ucast global_idx * ucast tsize,
           desc_size := tsize, user_data := push_bit 32 (ucast tile_id) OR ucast global_idx, flags := fl'\<rparr>)"

definition write_chunk :: "u64 \<Rightarrow> u32 \<Rightarrow> u32 \<Rightarrow> u32 \<Rightarrow> u32 \<Rightarrow> u64 \<Rightarrow> u64 \<Rightarrow> u32 \<Rightarrow> DescriptorQueue \<Rightarrow> DescriptorQueue" where
  "write_chunk slot_base tile_id chunk_id C T cpu_base gpu_base tsize =
     fold (\<lambda>i. set_entry (slot_base + of_nat i) (chunk_descriptor tile_id chunk_id C T cpu_base gpu_base tsize (of_nat i)))
       (warp_indices (unat C))"

definition commit_chunk :: "u64 \<Rightarrow> u32 \<Rightarrow> DescriptorQueue \<Rightarrow> DescriptorQueue" where
  "commit_chunk slot_base n =
     fold (\<lambda>i. let slot = slot_base + of_nat i in set_entry slot (\<lambda>desc. desc\<lparr>sequence := slot + 1\<rparr>)) (warp_indices (unat n))"

definition wait_chunk_done :: "u32 \<Rightarrow> u64 \<Rightarrow> TiledQueue \<Rightarrow> bool" where
  "wait_chunk_done tile_id expected tq \<longleftrightarrow>
     expected \<le> (case d_tile_chunk_done tq of Some d \<Rightarrow> d (unat tile_id) | None \<Rightarrow> tile_chunk_done tq (unat tile_id))"

text \<open>\<open>QUEUE_SIZE - needed * 2\<close> is computed in \<open>uint32_t\<close>.\<close>

definition wait_queue_space :: "u32 \<Rightarrow> TiledQueue \<Rightarrow> bool" where
  "wait_queue_space needed tq \<longleftrightarrow>
     write_idx (base tq) - read_idx (base tq) < ucast (of_nat QUEUE_SIZE - needed * 2)"

definition submit_chunk :: "u64 \<Rightarrow> u32 \<Rightarrow> u32 \<Rightarrow> u32 \<Rightarrow> u32 \<Rightarrow> u64 \<Rightarrow> u64 \<Rightarrow> u32 \<Rightarrow> DescriptorQueue \<Rightarrow> DescriptorQueue" where
  "submit_chunk slot_base tile_id chunk_id C T cpu_base gpu_base tsize q =
     commit_chunk slot_base C (write_chunk slot_base tile_id chunk_id C T cpu_base gpu_base tsize q)"

definition tile_descriptor :: "u32 \<Rightarrow> u32 \<Rightarrow> u32 \<Rightarrow> u64 \<Rightarrow> u64 \<Rightarrow> u32 \<Rightarrow> u32 \<Rightarrow> Descriptor \<Rightarrow> Descriptor" where
  "tile_descriptor tile_id T C cpu_base gpu_base tsize i desc =
     (let global_idx = tile_id * T + i;
          fl = (if i mod C = C - 1 then FLAG_NONE OR FLAG_LAST_IN_TILE else FLAG_NONE);
          fl' = (if i = T - 1 then fl OR FLAG_LAST_CHUNK_IN_TILE else fl)
      in desc\<lparr>src_addr := cpu_base + ucast global_idx * ucast tsize, dst_addr := gpu_base + ucast global_idx * ucast tsize,
           desc_size := tsize, user_data := push_bit 32 (ucast tile_id) OR ucast global_idx, flags := fl'\<rparr>)"

definition submit_tile :: "u64 \<Rightarrow> u32 \<Rightarrow> u32 \<Rightarrow> u32 \<Rightarrow> u64 \<Rightarrow> u64 \<Rightarrow> u32 \<Rightarrow> DescriptorQueue \<Rightarrow> DescriptorQueue" where
  "submit_tile slot_base tile_id T C cpu_base gpu_base tsize q =
     commit_chunk slot_base T
       (fold (\<lambda>i. set_entry (slot_base + of_nat i) (tile_descriptor tile_id T C cpu_base gpu_base tsize (of_nat i)))
          (warp_indices (unat T)) q)"

section \<open>Polling\<close>

text \<open>One read of the poller: the entry at \<open>read_idx\<close> if its sequence says it is ready.\<close>

definition poll_entry :: "DescriptorQueue \<Rightarrow> (Descriptor \<times> DescriptorQueue) option" where
  "poll_entry q =
     (let read = read_idx q; entry = entry_at read q
      in if sequence entry = read + 1
         then Some (entry, (set_entry read (\<lambda>desc. desc\<lparr>sequence := 0\<rparr>) q)\<lparr>read_idx := read + 1\<rparr>)
         else None)"

section \<open>A warp covers every index once\<close>

lemma set_lane_loop: "set (lane_loop i n) = {j. i \<le> j \<and> j < n \<and> j mod 32 = i mod 32}"
proof (induction i n rule: lane_loop.induct)
  case (1 i n)
  show ?case
  proof (cases "i < n")
    case True
    have "j = i \<or> i + 32 \<le> j" if "i \<le> j" "j mod 32 = i mod 32" for j
    proof -
      obtain d where "j = i + d" using \<open>i \<le> j\<close> le_Suc_ex by blast
      with that(2) have "d mod 32 = 0" by (metis add_cancel_right_right cancel_comm_monoid_add_class.diff_cancel diff_add_inverse mod_eq_dvd_iff_nat le_add1 dvd_imp_mod_0)
      then have "32 dvd d" by auto
      with \<open>j = i + d\<close> show ?thesis by (cases "d = 0") (auto dest: dvd_imp_le)
    qed
    with 1 True show ?thesis by (subst lane_loop.simps) auto
  qed (subst lane_loop.simps, auto)
qed

lemma distinct_lane_loop: "distinct (lane_loop i n)"
  by (induction i n rule: lane_loop.induct) (subst lane_loop.simps, auto simp: set_lane_loop)

lemma warp_indices_perm: "mset (warp_indices n) = mset [0..<n]"
proof -
  have "distinct (concat (map (\<lambda>l. lane_loop l n) [0..<k]))" if "k \<le> 32" for k
    using that
  proof (induction k)
    case (Suc k)
    have "(\<Union>a<k. set (lane_loop a n)) \<inter> set (lane_loop k n) = {}"
      using Suc.prems by (auto simp: set_lane_loop)
    with Suc show ?case by (simp add: distinct_lane_loop atLeast0LessThan)
  qed simp
  then have "distinct (warp_indices n)" by (simp add: warp_indices_def)
  moreover have "j \<in> (\<Union>l<32. set (lane_loop l n))" if "j < n" for j
    using that by (intro UN_I [of "j mod 32"]) (auto simp: set_lane_loop)
  then have "set (warp_indices n) = set [0..<n]"
    unfolding warp_indices_def by (auto simp: set_lane_loop atLeast0LessThan)
  ultimately show ?thesis using set_eq_iff_mset_eq_distinct distinct_upt by blast
qed

lemma set_warp_indices [simp]: "set (warp_indices n) = {..<n}"
  using mset_eq_setD [OF warp_indices_perm] by (simp add: atLeast0LessThan)

lemma distinct_warp_indices [simp]: "distinct (warp_indices n)"
  using warp_indices_perm by (metis distinct_upt mset_eq_imp_distinct_iff)

section \<open>Slots\<close>

lemma slot_index_add: "slot_index (s + of_nat i) = (unat s + i) mod QUEUE_SIZE"
proof -
  have "unat (s + of_nat i) = (unat s + i) mod 2 ^ 64" by (simp add: unat_word_ariths unat_of_nat mod_simps)
  moreover have "QUEUE_SIZE dvd 2 ^ 64" by (simp add: QUEUE_SIZE_def)
  ultimately show ?thesis by (simp add: slot_index_def mod_mod_cancel)
qed

lemma mod_offset_inj:
  fixes a i j n :: nat
  assumes "(a + i) mod n = (a + j) mod n" "i < n" "j < n"
  shows "i = j"
proof (rule ccontr)
  assume "i \<noteq> j"
  have "x = y" if "(a + x) mod n = (a + y) mod n" "x \<le> y" "y < n" for x y
  proof -
    from that have "n dvd (a + y) - (a + x)" by (metis mod_eq_dvd_iff_nat add_left_mono)
    with that show ?thesis by (auto dest: dvd_imp_le)
  qed
  with assms \<open>i \<noteq> j\<close> show False by (metis nat_le_linear)
qed

lemma slot_index_inj:
  "slot_index (s + of_nat i) = slot_index (s + of_nat j) \<Longrightarrow> i < QUEUE_SIZE \<Longrightarrow> j < QUEUE_SIZE \<Longrightarrow> i = j"
  unfolding slot_index_add by (rule mod_offset_inj)

definition written :: "u64 \<Rightarrow> (nat \<Rightarrow> Descriptor \<Rightarrow> Descriptor) \<Rightarrow> nat list \<Rightarrow> DescriptorQueue \<Rightarrow> DescriptorQueue" where
  "written s f is q = fold (\<lambda>i. set_entry (s + of_nat i) (f i)) is q"

lemma written_indices [simp]:
  "write_idx (written s f is q) = write_idx q" "read_idx (written s f is q) = read_idx q" "done_idx (written s f is q) = done_idx q"
  by (induction "is" arbitrary: q) (simp_all add: written_def set_entry_def)

lemma entries_set_entry: "entries (set_entry s f q) k = (if k = slot_index s then f (entries q k) else entries q k)"
  by (simp add: set_entry_def)

lemma written_other: "(\<And>i. i \<in> set is \<Longrightarrow> k \<noteq> slot_index (s + of_nat i)) \<Longrightarrow> entries (written s f is q) k = entries q k"
  unfolding written_def by (induction "is" arbitrary: q) (simp_all add: entries_set_entry)

lemma written_at:
  assumes "j \<in> set is" "distinct is" "\<And>i. i \<in> set is \<Longrightarrow> i < QUEUE_SIZE"
  shows "entry_at (s + of_nat j) (written s f is q) = f j (entry_at (s + of_nat j) q)"
proof -
  obtain as bs where ab: "is = as @ j # bs" using split_list [OF assms(1)] by blast
  have ne: "slot_index (s + of_nat j) \<noteq> slot_index (s + of_nat i)" if "i \<in> set as \<union> set bs" for i
    using that assms(2,3) slot_index_inj [of s j i] ab by auto
  have split: "written s f is q = written s f bs (set_entry (s + of_nat j) (f j) (written s f as q))"
    by (simp add: ab written_def)
  have "entries (written s f is q) (slot_index (s + of_nat j)) = f j (entries (written s f as q) (slot_index (s + of_nat j)))"
    unfolding split using ne by (subst written_other) (auto simp: entries_set_entry)
  also have "entries (written s f as q) (slot_index (s + of_nat j)) = entries q (slot_index (s + of_nat j))"
    using ne by (intro written_other) auto
  finally show ?thesis by (simp add: entry_at_def)
qed

lemma commit_written: "commit_chunk s n q = written s (\<lambda>i desc. desc\<lparr>sequence := s + of_nat i + 1\<rparr>) (warp_indices (unat n)) q"
  by (simp add: commit_chunk_def written_def Let_def)

text \<open>Write, then commit: every slot of the block is ready, nothing else changes.\<close>

definition published_block :: "u64 \<Rightarrow> nat \<Rightarrow> (nat \<Rightarrow> Descriptor \<Rightarrow> Descriptor) \<Rightarrow> DescriptorQueue \<Rightarrow> DescriptorQueue \<Rightarrow> bool" where
  "published_block s n f q q' \<longleftrightarrow>
     (\<forall>i<n. entry_at (s + of_nat i) q' = (f i (entry_at (s + of_nat i) q))\<lparr>sequence := s + of_nat i + 1\<rparr>)
   \<and> (\<forall>k. (\<forall>i<n. k \<noteq> slot_index (s + of_nat i)) \<longrightarrow> entries q' k = entries q k)
   \<and> write_idx q' = write_idx q \<and> read_idx q' = read_idx q \<and> done_idx q' = done_idx q"

lemma write_commit_published:
  assumes "unat n \<le> QUEUE_SIZE"
  shows "published_block s (unat n) f q (commit_chunk s n (written s f (warp_indices (unat n)) q))"
proof -
  have at: "entry_at (s + of_nat i) (written s g (warp_indices (unat n)) r) = g i (entry_at (s + of_nat i) r)" if "i < unat n" for g i r
    using that assms by (intro written_at) auto
  have other: "entries (written s g (warp_indices (unat n)) r) k = entries r k" if "\<forall>i<unat n. k \<noteq> slot_index (s + of_nat i)" for g k r
    using that by (intro written_other) simp
  show ?thesis unfolding published_block_def commit_written using at other by simp
qed

lemma submit_chunk_published:
  "unat C \<le> QUEUE_SIZE \<Longrightarrow> published_block s (unat C) (\<lambda>i. chunk_descriptor tile_id chunk_id C T cpu gpu tsize (of_nat i)) q
     (submit_chunk s tile_id chunk_id C T cpu gpu tsize q)"
  using write_commit_published [of C s "\<lambda>i. chunk_descriptor tile_id chunk_id C T cpu gpu tsize (of_nat i)" q]
  by (simp add: submit_chunk_def write_chunk_def written_def)

lemma submit_tile_published:
  "unat T \<le> QUEUE_SIZE \<Longrightarrow> published_block s (unat T) (\<lambda>i. tile_descriptor tile_id T C cpu gpu tsize (of_nat i)) q
     (submit_tile s tile_id T C cpu gpu tsize q)"
  using write_commit_published [of T s "\<lambda>i. tile_descriptor tile_id T C cpu gpu tsize (of_nat i)" q]
  by (simp add: submit_tile_def written_def)

section \<open>What the poller reads back\<close>

lemma packed_id:
  "unat (ucast (drop_bit 32 (push_bit 32 (ucast t) OR ucast g :: u64)) :: u32) = unat (t :: u32)" for g :: u32
proof -
  have "ucast (drop_bit 32 (push_bit 32 (ucast t) OR ucast g :: u64)) = (t :: u32)"
    by (rule bit_word_eqI) (simp add: bit_simps, use bit_imp_le_length [of g] in fastforce)
  then show ?thesis by simp
qed

lemma packed_index: "ucast (push_bit 32 (ucast t) OR ucast g :: u64) = (g :: u32)" for t :: u32
  by (rule bit_word_eqI) (auto simp: bit_simps)

lemma id_of_chunk [simp]: "id_of (chunk_descriptor tile_id chunk_id C T cpu gpu tsize i d) = unat tile_id"
  by (simp add: id_of_def chunk_descriptor_def Let_def packed_id del: drop_bit_or)

lemma id_of_tile [simp]: "id_of (tile_descriptor tile_id T C cpu gpu tsize i d) = unat tile_id"
  by (simp add: id_of_def tile_descriptor_def Let_def packed_id del: drop_bit_or)

lemma sg_of_tile:
  "sg_of (tile_descriptor tile_id T C cpu gpu tsize i d) =
     \<lparr>sg_dst = gpu + ucast (tile_id * T + i) * ucast tsize, sg_src = cpu + ucast (tile_id * T + i) * ucast tsize, sg_size = ucast tsize\<rparr>"
  by (simp add: sg_of_def tile_descriptor_def Let_def)

lemma sg_of_chunk:
  "sg_of (chunk_descriptor tile_id chunk_id C T cpu gpu tsize i d) =
     \<lparr>sg_dst = gpu + ucast (tile_id * T + (chunk_id * C + i)) * ucast tsize,
      sg_src = cpu + ucast (tile_id * T + (chunk_id * C + i)) * ucast tsize, sg_size = ucast tsize\<rparr>"
  by (simp add: sg_of_def chunk_descriptor_def Let_def)

lemma sg_of_sequence [simp]: "sg_of (d\<lparr>sequence := x\<rparr>) = sg_of d" "id_of (d\<lparr>sequence := x\<rparr>) = id_of d"
  by (simp_all add: sg_of_def id_of_def)

text \<open>The descriptors of a tile follow one another in both address spaces.\<close>

lemma tile_contig:
  assumes "unat tile_id * unat T + Suc i < 2 ^ 32"
  shows "contig (sg_of (tile_descriptor tile_id T C cpu gpu tsize (of_nat i) d))
    (sg_of (tile_descriptor tile_id T C cpu gpu tsize (of_nat (Suc i)) d'))"
proof -
  have u: "unat (tile_id * T + of_nat j) = unat tile_id * unat T + j" if "j \<le> Suc i" for j
    using that assms by (simp add: unat_word_ariths unat_of_nat mod_simps)
  have "(ucast (tile_id * T + of_nat (Suc i)) :: u64) = of_nat (unat (tile_id * T + of_nat (Suc i)))" by (rule of_nat_unat [symmetric])
  also have "\<dots> = of_nat (unat (tile_id * T + of_nat i)) + 1" by (simp only: u [of "Suc i"] u [of i]) simp
  also have "\<dots> = ucast (tile_id * T + of_nat i) + 1" by (simp only: of_nat_unat)
  finally have "(ucast (tile_id * T + of_nat (Suc i)) :: u64) = ucast (tile_id * T + of_nat i) + 1" .
  then show ?thesis unfolding sg_of_tile contig_def by (simp add: algebra_simps del: of_nat_Suc)
qed

end
