(* ===== verification/Ring_Protocol.thy ===== *)
theory Ring_Protocol
  imports Descriptor_Queue Transition_Systems
begin

text \<open>
  The ring protocol: any number of producers reserve blocks of slots with one \<open>atomicAdd\<close>, write the
  fields, then commit each slot by storing \<open>slot + 1\<close> in its \<open>sequence\<close>; the poller takes the slot at
  \<open>read_idx\<close> when it is committed. Slots are written and committed in any order. \<open>content\<close> and
  \<open>stage\<close> are history variables: what each reserved slot is meant to hold and how far it is. As long as no
  reservation overtakes the poller by more than the ring, the poller takes exactly the reserved descriptors,
  in slot order, whole. The second part shows what the guard \<open>wait_queue_space\<close> gives: enough for two
  concurrent producers, not for three.
\<close>

section \<open>Producers and poller\<close>

datatype stage = Reserved | Written | Committed

record ring_state =
  rq :: DescriptorQueue
  content :: "Descriptor list"
  stage_of :: "nat \<Rightarrow> stage"
  taken :: "Descriptor list"

definition store_fields :: "Descriptor \<Rightarrow> Descriptor \<Rightarrow> Descriptor" where
  "store_fields d old = d\<lparr>sequence := sequence old\<rparr>"

inductive ring_step :: "ring_state \<Rightarrow> ring_state \<Rightarrow> bool" where
  reserve: "length (content s) + length ds \<le> length (taken s) + QUEUE_SIZE \<Longrightarrow>
    length (content s) + length ds + 1 < 2 ^ 64 \<Longrightarrow>
    ring_step s (s\<lparr>rq := (rq s)\<lparr>write_idx := write_idx (rq s) + of_nat (length ds)\<rparr>, content := content s @ ds\<rparr>)"
| write_slot: "k < length (content s) \<Longrightarrow> stage_of s k = Reserved \<Longrightarrow>
    ring_step s (s\<lparr>rq := set_entry (of_nat k) (store_fields (content s ! k)) (rq s), stage_of := (stage_of s)(k := Written)\<rparr>)"
| commit_slot: "k < length (content s) \<Longrightarrow> stage_of s k = Written \<Longrightarrow>
    ring_step s (s\<lparr>rq := set_entry (of_nat k) (\<lambda>desc. desc\<lparr>sequence := of_nat k + 1\<rparr>) (rq s),
                   stage_of := (stage_of s)(k := Committed)\<rparr>)"
| poll: "poll_entry (rq s) = Some (d, q') \<Longrightarrow> ring_step s (s\<lparr>rq := q', taken := taken s @ [d]\<rparr>)"

abbreviation ring_reach :: "ring_state \<Rightarrow> ring_state \<Rightarrow> bool" where
  "ring_reach \<equiv> ring_step\<^sup>*\<^sup>*"

definition empty_ring :: "ring_state \<Rightarrow> bool" where
  "empty_ring s \<longleftrightarrow> write_idx (rq s) = 0 \<and> read_idx (rq s) = 0 \<and> (\<forall>k<QUEUE_SIZE. sequence (entries (rq s) k) = 0)
     \<and> content s = [] \<and> taken s = [] \<and> (\<forall>k. stage_of s k = Reserved)"

text \<open>The specification: a first-in first-out queue of descriptors, without their sequence field.\<close>

definition payload :: "Descriptor \<Rightarrow> Descriptor" where
  "payload d = d\<lparr>sequence := 0\<rparr>"

fun slot_holds :: "nat \<Rightarrow> Descriptor \<Rightarrow> stage \<Rightarrow> Descriptor \<Rightarrow> bool" where
  "slot_holds k want Reserved d \<longleftrightarrow> sequence d = 0"
| "slot_holds k want Written d \<longleftrightarrow> sequence d = 0 \<and> payload d = payload want"
| "slot_holds k want Committed d \<longleftrightarrow> sequence d = of_nat k + 1 \<and> payload d = payload want"

definition slot_ok :: "ring_state \<Rightarrow> nat \<Rightarrow> bool" where
  "slot_ok s k \<longleftrightarrow> slot_holds k (content s ! k) (stage_of s k) (entries (rq s) (k mod QUEUE_SIZE))"

definition ring_inv :: "ring_state \<Rightarrow> bool" where
  "ring_inv s \<longleftrightarrow> read_idx (rq s) = of_nat (length (taken s)) \<and> write_idx (rq s) = of_nat (length (content s))
     \<and> length (taken s) \<le> length (content s) \<and> length (content s) \<le> length (taken s) + QUEUE_SIZE
     \<and> length (content s) + 1 < 2 ^ 64
     \<and> map payload (taken s) = map payload (take (length (taken s)) (content s))
     \<and> (\<forall>k. length (taken s) \<le> k \<and> k < length (taken s) + QUEUE_SIZE \<longrightarrow> slot_ok s k)
     \<and> (\<forall>k. k < length (taken s) \<longrightarrow> stage_of s k = Committed)
     \<and> (\<forall>k. length (content s) \<le> k \<longrightarrow> stage_of s k = Reserved)"

lemma ring_invD:
  assumes "ring_inv s"
  shows "read_idx (rq s) = of_nat (length (taken s))" "write_idx (rq s) = of_nat (length (content s))"
    "length (taken s) \<le> length (content s)" "length (content s) \<le> length (taken s) + QUEUE_SIZE"
    "length (content s) + 1 < 2 ^ 64"
    "map payload (taken s) = map payload (take (length (taken s)) (content s))"
    "\<And>k. length (taken s) \<le> k \<Longrightarrow> k < length (taken s) + QUEUE_SIZE \<Longrightarrow> slot_ok s k"
    "\<And>k. k < length (taken s) \<Longrightarrow> stage_of s k = Committed"
    "\<And>k. length (content s) \<le> k \<Longrightarrow> stage_of s k = Reserved"
  using assms unfolding ring_inv_def by blast+

lemma slot_index_nat: "k < 2 ^ 64 \<Longrightarrow> slot_index (of_nat k) = k mod QUEUE_SIZE"
  by (simp add: slot_index_def unat_of_nat_u64)

lemma window_inj: "t \<le> j \<Longrightarrow> j < t + n \<Longrightarrow> t \<le> k \<Longrightarrow> k < t + n \<Longrightarrow> j mod n = k mod n \<Longrightarrow> j = k" for n :: nat
  using mod_offset_inj [of t "j - t" n "k - t"] by (simp add: less_diff_conv2 eq_diff_iff add.commute)

lemma payload_store [simp]: "payload (store_fields d old) = payload d" "sequence (store_fields d old) = sequence old"
  by (simp_all add: payload_def store_fields_def)

lemma payload_sequence [simp]: "payload (d\<lparr>sequence := x\<rparr>) = payload d"
  by (simp add: payload_def)

lemma ring_inv_init: "empty_ring s \<Longrightarrow> ring_inv s"
  by (simp add: empty_ring_def ring_inv_def slot_ok_def QUEUE_SIZE_def)

text \<open>Working on slot \<open>k\<close> leaves every other slot of the window alone.\<close>

lemma slot_ok_update:
  assumes "ring_inv s" "length (taken s) \<le> k" "k < length (content s)"
    and "s' = s\<lparr>rq := set_entry (of_nat k) f (rq s), stage_of := (stage_of s)(k := st)\<rparr>"
    and "slot_ok s k \<Longrightarrow> slot_ok s' k"
  shows "ring_inv s'"
proof -
  note inv = ring_invD [OF assms(1)]
  have k: "k < length (taken s) + QUEUE_SIZE" "k < 2 ^ 64" using inv(4,5) assms(3) by simp_all
  have "slot_ok s' j" if j: "length (taken s) \<le> j" "j < length (taken s) + QUEUE_SIZE" for j
  proof (cases "j = k")
    case False
    then have "j mod QUEUE_SIZE \<noteq> slot_index (of_nat k)"
      using window_inj [OF j assms(2) k(1)] slot_index_nat [OF k(2)] by auto
    then have "entries (rq s') (j mod QUEUE_SIZE) = entries (rq s) (j mod QUEUE_SIZE)"
      by (simp add: assms(4) entries_set_entry)
    moreover have "content s' = content s" "stage_of s' j = stage_of s j" using False by (simp_all add: assms(4))
    ultimately show ?thesis using inv(7) [OF j] by (simp add: slot_ok_def)
  qed (use assms(5) inv(7) j in simp)
  moreover have "read_idx (rq s') = read_idx (rq s)" "write_idx (rq s') = write_idx (rq s)" by (simp_all add: assms(4) set_entry_def)
  ultimately show ?thesis
    using inv assms(2,3) unfolding ring_inv_def by (simp add: assms(4))
qed

lemma write_not_taken: "ring_inv s \<Longrightarrow> stage_of s k \<noteq> Committed \<Longrightarrow> length (taken s) \<le> k"
  using ring_invD(8) [of s k] by (cases "k < length (taken s)") auto

lemma content_index: "ring_inv s \<Longrightarrow> k < length (content s) \<Longrightarrow> slot_index (of_nat k) = k mod QUEUE_SIZE"
  using ring_invD(5) [of s] by (simp add: slot_index_nat)

lemma poll_head:
  assumes "ring_inv s" "poll_entry (rq s) = Some (d, q')"
  defines "t \<equiv> length (taken s)"
  shows "t < length (content s)" "stage_of s t = Committed" "payload d = payload (content s ! t)"
    "q' = (set_entry (of_nat t) (\<lambda>desc. desc\<lparr>sequence := 0\<rparr>) (rq s))\<lparr>read_idx := of_nat (t + 1)\<rparr>"
proof -
  note inv = ring_invD [OF assms(1)]
  have t: "t < 2 ^ 64" using inv(3,5) by (simp add: t_def)
  have d: "d = entries (rq s) (t mod QUEUE_SIZE)" "sequence d = of_nat t + 1"
    using assms(2) inv(1) slot_index_nat [OF t] by (auto simp: poll_entry_def entry_at_def Let_def t_def split: if_splits)
  have "(of_nat t + 1 :: u64) \<noteq> 0"
  proof -
    have "unat (of_nat (t + 1) :: u64) = t + 1" using inv(3,5) by (intro unat_of_nat_u64) (simp add: t_def)
    then show ?thesis by (metis of_nat_1 of_nat_add unat_0 add_is_0 zero_neq_one)
  qed
  moreover have "slot_ok s t" using inv(7) [of t] by (simp add: t_def QUEUE_SIZE_def)
  ultimately show st: "stage_of s t = Committed" and "payload d = payload (content s ! t)"
    using d by (cases "stage_of s t"; simp add: slot_ok_def)+
  from st inv(9) [of t] show "t < length (content s)" by (cases "t < length (content s)") auto
  show "q' = (set_entry (of_nat t) (\<lambda>desc. desc\<lparr>sequence := 0\<rparr>) (rq s))\<lparr>read_idx := of_nat (t + 1)\<rparr>"
    using assms(2) inv(1) by (auto simp: poll_entry_def Let_def t_def add.commute split: if_splits)
qed

lemma ring_inv_poll:
  assumes inv: "ring_inv s" and p: "poll_entry (rq s) = Some (d, q')"
  shows "ring_inv (s\<lparr>rq := q', taken := taken s @ [d]\<rparr>)"
proof -
  let ?t = "length (taken s)" and ?s = "s\<lparr>rq := q', taken := taken s @ [d]\<rparr>"
  note i = ring_invD [OF inv] and h = poll_head [OF inv p]
  have idx: "slot_index (of_nat ?t) = ?t mod QUEUE_SIZE" using h(1) by (rule content_index [OF inv])
  have "slot_ok ?s k" if k: "Suc ?t \<le> k" "k < Suc ?t + QUEUE_SIZE" for k
  proof (cases "k = ?t + QUEUE_SIZE")
    case True
    then have "stage_of s k = Reserved" using i(4,9) by simp
    with True show ?thesis using idx by (simp add: slot_ok_def h(4) entries_set_entry)
  next
    case False
    then have "k mod QUEUE_SIZE \<noteq> ?t mod QUEUE_SIZE" using window_inj [of ?t k QUEUE_SIZE ?t] k by auto
    then show ?thesis using i(7) [of k] k False idx by (simp add: slot_ok_def h(4) entries_set_entry)
  qed
  moreover have "map payload (taken s @ [d]) = map payload (take (Suc ?t) (content s))"
    using i(6) h(1,3) by (simp add: take_Suc_conv_app_nth)
  moreover have "write_idx q' = write_idx (rq s)" "read_idx q' = of_nat (Suc ?t)" by (simp_all add: h(4) set_entry_def)
  ultimately show ?thesis
    using i h(1,2) unfolding ring_inv_def by (simp add: less_Suc_eq)
qed

lemma ring_inv_step:
  assumes "ring_inv s" "ring_step s s'"
  shows "ring_inv s'"
  using assms(2)
proof cases
  case (reserve ds)
  have "slot_ok s' k" if "length (taken s) \<le> k" "k < length (taken s) + QUEUE_SIZE" for k
    using ring_invD(7,9) [OF assms(1), of k] that
    by (cases "k < length (content s)") (simp_all add: reserve(1) slot_ok_def nth_append)
  then show ?thesis using ring_invD [OF assms(1)] reserve by (simp add: ring_inv_def)
next
  case (write_slot k)
  then show ?thesis using write_not_taken [OF assms(1), of k] content_index [OF assms(1), of k]
    by (intro slot_ok_update [OF assms(1) _ _ write_slot(1)]) (simp_all add: slot_ok_def entries_set_entry)
next
  case (commit_slot k)
  then show ?thesis using write_not_taken [OF assms(1), of k] content_index [OF assms(1), of k]
    by (intro slot_ok_update [OF assms(1) _ _ commit_slot(1)]) (simp_all add: slot_ok_def entries_set_entry)
next
  case (poll d q')
  then show ?thesis using ring_inv_poll [OF assms(1)] by simp
qed

interpretation ring: step_invariant ring_step empty_ring ring_inv
  by unfold_locales (auto intro: ring_inv_init ring_inv_step)

lemma poll_enabled:
  assumes "ring_inv s" "length (taken s) < length (content s)" "stage_of s (length (taken s)) = Committed"
  shows "\<exists>d q'. poll_entry (rq s) = Some (d, q')"
proof -
  let ?t = "length (taken s)"
  have "slot_ok s ?t" using ring_invD(7) [OF assms(1), of ?t] by (simp add: QUEUE_SIZE_def)
  then show ?thesis
    using assms(3) ring_invD(1) [OF assms(1)] content_index [OF assms(1,2)]
    by (simp add: slot_ok_def poll_entry_def entry_at_def Let_def)
qed

text \<open>Once everything reserved is committed the poller can take it all.\<close>

lemma poll_all:
  assumes "ring_reach s0 s" "empty_ring s0" "\<And>k. k < length (content s) \<Longrightarrow> stage_of s k = Committed"
  shows "\<exists>s'. ring_reach s0 s' \<and> content s' = content s \<and> map payload (taken s') = map payload (content s)"
  using assms(1,3)
proof (induction "length (content s) - length (taken s)" arbitrary: s)
  case 0
  then have "length (taken s) = length (content s)" using ring_invD(3) [OF ring.inv_reach [OF 0(2) assms(2)]] by simp
  then show ?case using 0(2) ring_invD(6) [OF ring.inv_reach [OF 0(2) assms(2)]] by (intro exI [of _ s]) simp
next
  case (Suc n)
  note inv = ring.inv_reach [OF Suc.prems(1) assms(2)]
  have lt: "length (taken s) < length (content s)" using Suc.hyps(2) by simp
  then obtain d q' where p: "poll_entry (rq s) = Some (d, q')" using poll_enabled [OF inv lt] Suc.prems(2) by blast
  let ?s = "s\<lparr>rq := q', taken := taken s @ [d]\<rparr>"
  have "ring_reach s0 ?s" using Suc.prems(1) ring_step.poll [OF p] by (rule rtranclp.rtrancl_into_rtrancl)
  from Suc.hyps(1) [of ?s, OF _ this] Suc.hyps(2) Suc.prems(2) show ?case by simp
qed

section \<open>The guard \<open>wait_queue_space\<close>\<close>

text \<open>
  \<open>producers\<close> blocks share the ring; each tests \<open>wait_queue_space\<close> for \<open>needed\<close> slots and acquires
  them in a later step. \<open>passed\<close> counts those between the two.
\<close>

record gate_state =
  gq :: TiledQueue
  passed :: nat

inductive gate_step :: "nat \<Rightarrow> u32 \<Rightarrow> gate_state \<Rightarrow> gate_state \<Rightarrow> bool" for producers needed where
  gate_pass: "passed g < producers \<Longrightarrow> wait_queue_space needed (gq g) \<Longrightarrow>
     gate_step producers needed g (g\<lparr>passed := passed g + 1\<rparr>)"
| gate_acquire: "0 < passed g \<Longrightarrow>
     gate_step producers needed g (g\<lparr>gq := snd (acquire_chunk_slots needed (gq g)), passed := passed g - 1\<rparr>)"
| gate_consume: "read_idx (base (gq g)) \<noteq> write_idx (base (gq g)) \<Longrightarrow>
     gate_step producers needed g (g\<lparr>gq := (gq g)\<lparr>base := (base (gq g))\<lparr>read_idx := read_idx (base (gq g)) + 1\<rparr>\<rparr>\<rparr>)"

abbreviation gate_reach :: "nat \<Rightarrow> u32 \<Rightarrow> gate_state \<Rightarrow> gate_state \<Rightarrow> bool" where
  "gate_reach producers needed \<equiv> (gate_step producers needed)\<^sup>*\<^sup>*"

definition outstanding :: "gate_state \<Rightarrow> nat" where
  "outstanding g = unat (write_idx (base (gq g)) - read_idx (base (gq g)))"

definition gate_inv :: "u32 \<Rightarrow> gate_state \<Rightarrow> bool" where
  "gate_inv needed g \<longleftrightarrow> passed g \<le> 2 \<and> outstanding g + passed g * unat needed \<le> QUEUE_SIZE"

lemma queue_space_bound:
  assumes "unat needed \<le> QUEUE_SIZE div 2" "wait_queue_space needed tq"
  shows "unat (write_idx (base tq) - read_idx (base tq)) + 2 * unat needed < QUEUE_SIZE"
proof -
  have n: "2 * unat needed \<le> 16384" using assms(1) by (simp add: QUEUE_SIZE_def)
  then have two: "unat (needed * 2) = 2 * unat needed" by (simp add: unat_word_ariths)
  then have "needed * 2 \<le> of_nat QUEUE_SIZE" using n by (simp add: word_le_nat_alt QUEUE_SIZE_def)
  then have "unat (of_nat QUEUE_SIZE - needed * 2) = QUEUE_SIZE - 2 * unat needed"
    using two by (simp add: unat_sub QUEUE_SIZE_def)
  then have "unat (ucast (of_nat QUEUE_SIZE - needed * 2) :: u64) = QUEUE_SIZE - 2 * unat needed"
    by (simp add: unat_ucast_u32_u64)
  with assms(2) show ?thesis by (simp add: wait_queue_space_def word_less_nat_alt)
qed

lemma gate_inv_step:
  assumes n: "unat needed \<le> QUEUE_SIZE div 2" and inv: "gate_inv needed g" and step: "gate_step 2 needed g g'"
  shows "gate_inv needed g'"
  using step
proof cases
  case gate_pass
  then have "outstanding g + 2 * unat needed < QUEUE_SIZE" using queue_space_bound [OF n] by (simp add: outstanding_def)
  moreover have "passed g = 0 \<or> passed g = 1" using gate_pass(2) by linarith
  ultimately show ?thesis using gate_pass(1) by (auto simp: gate_inv_def outstanding_def)
next
  case gate_acquire
  let ?w = "write_idx (base (gq g))" and ?r = "read_idx (base (gq g))"
  obtain p where p: "passed g = Suc p" using gate_acquire(2) by (cases "passed g") auto
  have "unat (?w - ?r) + unat needed \<le> QUEUE_SIZE" using inv p by (simp add: gate_inv_def outstanding_def)
  then have "unat ((?w - ?r) + ucast needed) = unat (?w - ?r) + unat needed"
    by (subst unat_add_u64) (simp_all add: unat_ucast_u32_u64 QUEUE_SIZE_def)
  moreover have "(?w - ?r) + ucast needed = ?w + ucast needed - ?r" by (simp only: diff_add_eq)
  ultimately have "unat (?w + ucast needed - ?r) = unat (?w - ?r) + unat needed" by (simp only:)
  then show ?thesis using inv p
    by (simp add: gate_acquire(1) gate_inv_def outstanding_def acquire_chunk_slots_def)
next
  case gate_consume
  let ?w = "write_idx (base (gq g))" and ?r = "read_idx (base (gq g))"
  have "unat ((?w - ?r) - 1) \<le> unat (?w - ?r)" using gate_consume(2) by (subst unat_minus_one) auto
  then have "unat (?w - (?r + 1)) \<le> unat (?w - ?r)" by (simp only: diff_diff_eq)
  then show ?thesis using inv by (simp add: gate_consume(1) gate_inv_def outstanding_def)
qed

text \<open>A block of at most half the ring: with two producers the guard keeps the ring from overflowing.\<close>

interpretation gate: step_invariant "gate_step 2 needed"
  "\<lambda>g. unat needed \<le> QUEUE_SIZE div 2 \<and> passed g = 0 \<and> outstanding g = 0"
  "\<lambda>g. unat needed \<le> QUEUE_SIZE div 2 \<and> gate_inv needed g" for needed
proof unfold_locales
  show "unat needed \<le> QUEUE_SIZE div 2 \<and> gate_inv needed g"
    if "unat needed \<le> QUEUE_SIZE div 2 \<and> passed g = 0 \<and> outstanding g = 0" for g using that by (simp add: gate_inv_def)
qed (use gate_inv_step in blast)

end
