(* ===== verification/Queue_Properties.thy ===== *)
theory Queue_Properties
  imports Coalescing Ring_Protocol
begin

text \<open>
  The properties of the descriptor queue: what a submitted tile looks like to the poller, that the ring is a first-in
  first-out queue under any interleaving of its producers, and what the space guard gives.
\<close>

section \<open>Example queue\<close>

definition empty_queue :: DescriptorQueue where
  "empty_queue = \<lparr>entries = \<lambda>_. \<lparr>src_addr = 0, dst_addr = 0, desc_size = 0, flags = 0, user_data = 0, sequence = 0\<rparr>,
     write_idx = 0, read_idx = 0, done_idx = 0\<rparr>"

definition example_descriptor :: Descriptor where
  "example_descriptor = \<lparr>src_addr = 100, dst_addr = 4096, desc_size = 4, flags = 0, user_data = 0, sequence = 0\<rparr>"

definition fresh_ring :: ring_state where
  "fresh_ring = \<lparr>rq = empty_queue, content = [], stage_of = \<lambda>_. Reserved, taken = []\<rparr>"

lemma fresh_ring_empty: "empty_ring fresh_ring"
  by (simp add: empty_ring_def fresh_ring_def empty_queue_def)

text \<open>One descriptor reserved, written and committed.\<close>

definition one_committed :: ring_state where
  "one_committed = \<lparr>rq = set_entry 0 (\<lambda>desc. desc\<lparr>sequence := 1\<rparr>) (set_entry 0 (store_fields example_descriptor) (empty_queue\<lparr>write_idx := 1\<rparr>)),
     content = [example_descriptor], stage_of = (\<lambda>_. Reserved)(0 := Committed), taken = []\<rparr>"

lemma one_committed_reach: "ring_reach fresh_ring one_committed"
proof -
  let ?s1 = "fresh_ring\<lparr>rq := (rq fresh_ring)\<lparr>write_idx := write_idx (rq fresh_ring) + of_nat (length [example_descriptor])\<rparr>,
    content := content fresh_ring @ [example_descriptor]\<rparr>"
  let ?s2 = "?s1\<lparr>rq := set_entry (of_nat 0) (store_fields (content ?s1 ! 0)) (rq ?s1), stage_of := (stage_of ?s1)(0 := Written)\<rparr>"
  let ?s3 = "?s2\<lparr>rq := set_entry (of_nat 0) (\<lambda>desc. desc\<lparr>sequence := of_nat 0 + 1\<rparr>) (rq ?s2), stage_of := (stage_of ?s2)(0 := Committed)\<rparr>"
  have "ring_step fresh_ring ?s1" by (rule reserve) (simp_all add: fresh_ring_def QUEUE_SIZE_def)
  moreover have "ring_step ?s1 ?s2" by (rule write_slot) (simp_all add: fresh_ring_def)
  moreover have "ring_step ?s2 ?s3" by (rule commit_slot) (simp_all add: fresh_ring_def)
  moreover have "?s3 = one_committed" by (simp add: one_committed_def fresh_ring_def empty_queue_def fun_eq_iff)
  ultimately show ?thesis by (metis (no_types, lifting) rtranclp.simps)
qed

section \<open>Submitting a tile\<close>

text \<open>C25: \<open>submit_tile\<close> publishes exactly its block: every lane loop together writes each of the tile's slots once; the poller
  reads back from each slot a committed sequence, the tile's identifier and the token's copy. Other slots and the indices are
  unchanged.\<close>

theorem submit_tile_roundtrip:
  assumes "unat T \<le> QUEUE_SIZE" "q' = submit_tile s tile_id T C cpu gpu tsize q"
  shows "(\<forall>i<unat T. let d = entry_at (s + of_nat i) q' in
      sequence d = s + of_nat i + 1 \<and> id_of d = unat tile_id
      \<and> sg_of d = \<lparr>sg_dst = gpu + ucast (tile_id * T + of_nat i) * ucast tsize, sg_src = cpu + ucast (tile_id * T + of_nat i) * ucast tsize,
          sg_size = ucast tsize\<rparr>)
    \<and> (\<forall>k. (\<forall>i<unat T. k \<noteq> slot_index (s + of_nat i)) \<longrightarrow> entries q' k = entries q k)
    \<and> write_idx q' = write_idx q \<and> read_idx q' = read_idx q"
  using submit_tile_published [OF assms(1), of s tile_id C cpu gpu tsize q] unfolding assms(2)
  by (simp add: published_block_def sg_of_tile Let_def)

theorem submit_tile_roundtrip_witness:
  "id_of (entry_at 70 (submit_tile 64 3 40 8 100 4096 4 empty_queue)) = 3"
proof -
  have T: "unat (40 :: u32) \<le> QUEUE_SIZE" by (simp add: QUEUE_SIZE_def)
  note r = submit_tile_roundtrip [OF T refl, of 64 3 8 100 4096 4 empty_queue, THEN conjunct1, rule_format, of 6]
  then show ?thesis by (simp add: Let_def)
qed

text \<open>The descriptors of a tile are one contiguous range in both address spaces, so that the poller merges the whole tile into a
  single transfer, provided the global token index fits its 32 bits.\<close>

theorem tile_is_contiguous:
  assumes "unat T \<le> QUEUE_SIZE" "unat tile_id * unat T + unat T \<le> 2 ^ 32"
  shows "fully_contiguous (map (\<lambda>i. sg_of (entry_at (s + of_nat i) (submit_tile s tile_id T C cpu gpu tsize q))) [0..<unat T])"
proof -
  let ?d = "\<lambda>i. sg_of (entry_at (s + of_nat i) (submit_tile s tile_id T C cpu gpu tsize q))"
  have at: "?d i = sg_of (tile_descriptor tile_id T C cpu gpu tsize (of_nat i) (entry_at (s + of_nat i) q))" if "i < unat T" for i
    using that submit_tile_published [OF assms(1), of s tile_id C cpu gpu tsize q] by (simp add: published_block_def)
  have c: "contig (?d i) (?d (Suc i))" if "Suc i < unat T" for i
    unfolding at [OF that] at [OF Suc_lessD [OF that]] using that assms(2) by (intro tile_contig) simp
  have "fully_contiguous (map ?d [a..<b])" if "b \<le> unat T" for a b
  proof (induction "b - a" arbitrary: a)
    case (Suc n)
    then have u: "[a..<b] = a # [Suc a..<b]" by (simp add: upt_conv_Cons)
    have rest: "fully_contiguous (map ?d [Suc a..<b])" using Suc by simp
    show ?case
    proof (cases "Suc a < b")
      case True
      then have "[Suc a..<b] = Suc a # [Suc (Suc a)..<b]" by (simp add: upt_conv_Cons)
      moreover have "contig (?d a) (?d (Suc a))" using True that by (intro c) simp
      ultimately show ?thesis using rest by (simp add: u)
    qed (simp add: u)
  qed simp
  then show ?thesis by simp
qed

theorem tile_is_contiguous_witness:
  "fully_contiguous (map (\<lambda>i. sg_of (entry_at (64 + of_nat i) (submit_tile 64 3 40 8 100 4096 4 empty_queue))) [0..<40])"
  using tile_is_contiguous [where T = 40 and tile_id = 3 and s = 64 and C = 8 and cpu = 100 and gpu = 4096 and tsize = 4 and q = empty_queue] by (simp add: QUEUE_SIZE_def)

section \<open>The ring\<close>

text \<open>C7: The ring refines a first-in first-out queue: from an empty ring, under any interleaving of reservations, field writes, commits
  and polls in which no reservation overtakes the poller by more than the ring, the poller has taken a prefix of the reserved
  descriptors, whole and in slot order, and its index and the producers' index count them.\<close>

theorem ring_is_fifo:
  assumes "empty_ring s0" "ring_reach s0 s"
  shows "map payload (taken s) = map payload (take (length (taken s)) (content s)) \<and> length (taken s) \<le> length (content s)
    \<and> read_idx (rq s) = of_nat (length (taken s)) \<and> write_idx (rq s) = of_nat (length (content s))"
  using ring_invD [OF ring.inv_reach [OF assms(2,1)]] by simp

theorem ring_is_fifo_witness: "write_idx (rq one_committed) = 1 \<and> read_idx (rq one_committed) = 0"
  using ring_is_fifo [OF fresh_ring_empty one_committed_reach] by (simp add: one_committed_def)

text \<open>C31: Nothing is lost in the ring: once every reserved slot is committed, the poller can take all of them, and what it has then
  taken is exactly what was reserved.\<close>

theorem ring_delivers_all:
  assumes "empty_ring s0" "ring_reach s0 s" "\<forall>k<length (content s). stage_of s k = Committed"
  shows "\<exists>s'. ring_reach s0 s' \<and> content s' = content s \<and> map payload (taken s') = map payload (content s)"
  using poll_all [OF assms(2,1)] assms(3) by blast

theorem ring_delivers_all_witness: "\<exists>s'. ring_reach fresh_ring s' \<and> map payload (taken s') = [payload example_descriptor]"
  using ring_delivers_all [OF fresh_ring_empty one_committed_reach] by (auto simp: one_committed_def)

section \<open>The space guard\<close>

definition fresh_gate :: gate_state where
  "fresh_gate = \<lparr>gq = \<lparr>base = empty_queue,
     scheduler = \<lparr>next_tile = 0, total_tiles = 0, tokens_per_tile = 0, tokens_per_chunk = 0, chunks_per_tile = 0, token_size = 0\<rparr>,
     tile_chunk_done = \<lambda>_. 0, d_tile_chunk_done = None\<rparr>, passed = 0\<rparr>"

text \<open>With two producers that each test \<open>wait_queue_space\<close> before they acquire, for blocks of at most half the ring, the
  slots in use never exceed the ring, whatever the interleaving of tests and acquisitions.\<close>

theorem two_producers_fit:
  assumes "unat needed \<le> QUEUE_SIZE div 2" "passed g0 = 0" "outstanding g0 = 0" "gate_reach 2 needed g0 g"
  shows "outstanding g + passed g * unat needed \<le> QUEUE_SIZE"
  using gate.inv_reach [OF assms(4)] assms(1-3) by (simp add: gate_inv_def)

theorem two_producers_fit_witness: "\<exists>g. gate_reach 2 100 fresh_gate g \<and> passed g = 1 \<and> outstanding g + 100 \<le> QUEUE_SIZE"
proof -
  let ?g = "fresh_gate\<lparr>passed := passed fresh_gate + 1\<rparr>"
  have "gate_step 2 100 fresh_gate ?g"
    by (rule gate_pass) (simp_all add: fresh_gate_def wait_queue_space_def QUEUE_SIZE_def empty_queue_def)
  then have r: "gate_reach 2 100 fresh_gate ?g" by blast
  have "outstanding ?g + passed ?g * unat (100 :: u32) \<le> QUEUE_SIZE"
    by (rule two_producers_fit [OF _ _ _ r]) (simp_all add: fresh_gate_def outstanding_def empty_queue_def QUEUE_SIZE_def)
  with r show ?thesis by (intro exI [of _ ?g]) (simp add: fresh_gate_def)
qed

text \<open>The guard is not enough for more producers: with three of them and blocks of 8191 slots, all three can pass the test on an empty
  ring before any acquires, and the ring is then overcommitted.\<close>

theorem three_producers_overflow:
  assumes "passed g0 = 0" "outstanding g0 = 0"
  shows "\<exists>g. gate_reach 3 8191 g0 g \<and> QUEUE_SIZE < outstanding g"
proof -
  let ?w = "write_idx (base (gq g0))" and ?r = "read_idx (base (gq g0))"
  have eq: "?w = ?r" using assms(2) by (simp add: outstanding_def unat_eq_0)
  define acq where "acq = (\<lambda>q. snd (acquire_chunk_slots 8191 q))"
  define at where "at = (\<lambda>q p. g0\<lparr>gq := q, passed := p\<rparr>)"
  have pass: "gate_reach 3 8191 g0 (at (gq g0) (Suc p))" if "gate_reach 3 8191 g0 (at (gq g0) p)" "p < 3" for p
  proof -
    have "wait_queue_space 8191 (gq g0)" using eq by (simp add: wait_queue_space_def QUEUE_SIZE_def)
    with that(2) have "gate_step 3 8191 (at (gq g0) p) ((at (gq g0) p)\<lparr>passed := passed (at (gq g0) p) + 1\<rparr>)"
      by (intro gate_pass) (simp_all add: at_def)
    from rtranclp.rtrancl_into_rtrancl [OF that(1) this] show ?thesis by (simp add: at_def)
  qed
  have acquire: "gate_reach 3 8191 g0 (at (acq q) p)" if "gate_reach 3 8191 g0 (at q (Suc p))" for q p
    using rtranclp.rtrancl_into_rtrancl [OF that gate_acquire] by (simp add: at_def acq_def)
  have "at (gq g0) 0 = g0" using assms(1) by (simp add: at_def)
  then have "gate_reach 3 8191 g0 (at (gq g0) 0)" by simp
  then have "gate_reach 3 8191 g0 (at (acq (acq (acq (gq g0)))) 0)"
    by (intro acquire pass) simp_all
  moreover have "outstanding (at (acq (acq (acq (gq g0)))) 0) = 24573"
    using eq by (simp add: outstanding_def at_def acq_def acquire_chunk_slots_def)
  ultimately show ?thesis by (intro exI [of _ "at (acq (acq (acq (gq g0)))) 0"]) (simp add: QUEUE_SIZE_def)
qed

theorem three_producers_overflow_witness: "\<exists>g. gate_reach 3 8191 fresh_gate g \<and> QUEUE_SIZE < outstanding g"
  by (rule three_producers_overflow) (simp_all add: fresh_gate_def outstanding_def empty_queue_def)

end
