(* ===== verification/Cuda_Driver.thy ===== *)
theory Cuda_Driver
  imports Scatter_Gather
begin

text \<open>
  The CUDA driver as the code sees it. The driver is not part of the repository: it is a parameter
  \<open>drv\<close> that answers every call from the history of calls, so it ranges over all
  drivers, failing ones included. What the program does to the driver is the \<^emph>\<open>trace\<close> of the calls it issues.

  \<open>cuda_order\<close> names the documented guarantees the code relies on: work of one stream runs
  in issue order, \<open>cuStreamWaitEvent\<close> makes a stream wait for the work its event captured, and
  \<open>cuEventSynchronize\<close> returns after that work. It is a hypothesis on an arbitrary
  completion order, stated on traces.
\<close>

section \<open>Calls and answers\<close>

datatype CUresult = CUDA_SUCCESS | CUDA_ERROR_NOT_READY | CUDA_ERROR nat

datatype cu_call =
    CtxGetCurrent
  | CtxPushCurrent nat
  | CtxPopCurrent
  | CtxGetStreamPriorityRange
  | StreamCreateWithPriority nat
  | StreamCreate
  | StreamSynchronize nat
  | StreamDestroy nat
  | StreamWaitEvent nat nat
  | EventCreate
  | EventRecord nat nat
  | EventSynchronize nat
  | EventQuery nat
  | EventDestroy nat
  | MemcpyHtoDAsync u64 u64 u64 nat
  | MemcpyHtoD u64 u64 u64

type_synonym trace = "cu_call list"
type_synonym cu_driver = "trace \<Rightarrow> cu_call \<Rightarrow> CUresult \<times> nat"

text \<open>One call: its result, its output value (a handle; 0 is \<open>nullptr\<close>), and the longer trace.\<close>

definition cu :: "cu_driver \<Rightarrow> cu_call \<Rightarrow> trace \<Rightarrow> CUresult \<times> nat \<times> trace" where
  "cu drv c tr = (fst (drv tr c), snd (drv tr c), tr @ [c])"

definition all_succeed :: "cu_driver \<Rightarrow> bool" where
  "all_succeed drv \<longleftrightarrow> (\<forall>tr c. fst (drv tr c) = CUDA_SUCCESS)"

lemma cu_success [simp]: "all_succeed drv \<Longrightarrow> cu drv c tr = (CUDA_SUCCESS, snd (drv tr c), tr @ [c])"
  by (simp add: cu_def all_succeed_def)

text \<open>The copy an entry asks for, on a stream.\<close>

definition copy_on :: "nat \<Rightarrow> SGEntry \<Rightarrow> cu_call" where
  "copy_on s e = MemcpyHtoDAsync (sg_dst e) (sg_src e) (sg_size e) s"

fun copies :: "trace \<Rightarrow> SGEntry list" where
  "copies [] = []"
| "copies (MemcpyHtoDAsync d s n st # tr) = \<lparr>sg_dst = d, sg_src = s, sg_size = n\<rparr> # copies tr"
| "copies (_ # tr) = copies tr"

lemma copies_append [simp]: "copies (tr @ tr') = copies tr @ copies tr'"
  by (induction tr rule: copies.induct) simp_all

lemma copies_copy_on [simp]: "copies (copy_on s e # tr) = e # copies tr"
  by (simp add: copy_on_def)

section \<open>Documented ordering\<close>

definition on_stream :: "nat \<Rightarrow> cu_call \<Rightarrow> bool" where
  "on_stream s c \<longleftrightarrow> (\<exists>d x n. c = MemcpyHtoDAsync d x n s) \<or> (\<exists>e. c = EventRecord e s)
     \<or> (\<exists>e. c = StreamWaitEvent s e)"

definition is_record :: "nat \<Rightarrow> cu_call \<Rightarrow> bool" where
  "is_record e c \<longleftrightarrow> (\<exists>s. c = EventRecord e s)"

text \<open>Call \<open>j\<close> is the record of \<open>e\<close> on \<open>s\<close> that a use of \<open>e\<close> at \<open>k\<close> refers to.\<close>

definition captures :: "trace \<Rightarrow> nat \<Rightarrow> nat \<Rightarrow> nat \<Rightarrow> nat \<Rightarrow> bool" where
  "captures tr e s j k \<longleftrightarrow> j < k \<and> k \<le> length tr \<and> tr ! j = EventRecord e s
     \<and> (\<forall>l. j < l \<longrightarrow> l < k \<longrightarrow> \<not> is_record e (tr ! l))"

definition cuda_order :: "trace \<Rightarrow> (nat \<Rightarrow> nat \<Rightarrow> bool) \<Rightarrow> bool" where
  "cuda_order tr before \<longleftrightarrow>
     (\<forall>i j s. i < j \<and> j < length tr \<and> on_stream s (tr ! i) \<and> on_stream s (tr ! j) \<longrightarrow> before i j)
   \<and> (\<forall>j k e s t. captures tr e s j k \<and> k < length tr \<and> tr ! k = StreamWaitEvent t e \<longrightarrow> before j k)
   \<and> (\<forall>j k e s. captures tr e s j k \<and> k < length tr \<and> tr ! k = EventSynchronize e \<longrightarrow> before j k)
   \<and> (\<forall>i j k. before i j \<longrightarrow> before j k \<longrightarrow> before i k)"

text \<open>Call \<open>i\<close> has completed before the host got past some synchronisation of the trace.\<close>

definition host_knows :: "trace \<Rightarrow> (nat \<Rightarrow> nat \<Rightarrow> bool) \<Rightarrow> nat \<Rightarrow> bool" where
  "host_knows tr before i \<longleftrightarrow> (\<exists>k e. k < length tr \<and> tr ! k = EventSynchronize e \<and> before i k)"

text \<open>The trace patterns that give these guarantees.\<close>

definition recorded :: "trace \<Rightarrow> nat \<Rightarrow> nat \<Rightarrow> nat \<Rightarrow> bool" where
  "recorded tr e s i \<longleftrightarrow> (\<exists>j. i < j \<and> captures tr e s j (length tr))"

definition settled :: "trace \<Rightarrow> nat \<Rightarrow> bool" where
  "settled tr i \<longleftrightarrow> (\<exists>s e j k. on_stream s (tr ! i) \<and> i < j \<and> captures tr e s j k \<and> k < length tr
     \<and> tr ! k = EventSynchronize e)"

definition ordered_before :: "trace \<Rightarrow> nat \<Rightarrow> nat \<Rightarrow> bool" where
  "ordered_before tr i l \<longleftrightarrow> (\<exists>s e t j k. on_stream s (tr ! i) \<and> i < j \<and> captures tr e s j k \<and> k < l
     \<and> tr ! k = StreamWaitEvent t e \<and> on_stream t (tr ! l) \<and> l < length tr)"

lemma cuda_orderD:
  assumes "cuda_order tr before"
  shows cuda_stream: "i < j \<Longrightarrow> j < length tr \<Longrightarrow> on_stream s (tr ! i) \<Longrightarrow> on_stream s (tr ! j) \<Longrightarrow> before i j"
    and cuda_wait: "captures tr e s j k \<Longrightarrow> k < length tr \<Longrightarrow> tr ! k = StreamWaitEvent t e \<Longrightarrow> before j k"
    and cuda_sync: "captures tr e s j k \<Longrightarrow> k < length tr \<Longrightarrow> tr ! k = EventSynchronize e \<Longrightarrow> before j k"
    and cuda_trans: "before i j \<Longrightarrow> before j k \<Longrightarrow> before i k"
  using assms unfolding cuda_order_def by blast+

lemma captures_append: "captures tr e s j k \<Longrightarrow> captures (tr @ tr') e s j k"
  by (auto simp: captures_def nth_append)

lemma recorded_append:
  assumes "recorded tr e s i" "\<And>c. c \<in> set tr' \<Longrightarrow> \<not> is_record e c"
  shows "recorded (tr @ tr') e s i"
proof -
  obtain j where j: "i < j" "captures tr e s j (length tr)" using assms(1) by (auto simp: recorded_def)
  have "\<not> is_record e ((tr @ tr') ! l)" if "j < l" "l < length (tr @ tr')" for l
    using that j assms(2) by (auto simp: captures_def nth_append)
  with j have "captures (tr @ tr') e s j (length (tr @ tr'))" by (auto simp: captures_def nth_append)
  with j(1) show ?thesis by (auto simp: recorded_def)
qed

lemma recorded_record: "i < length tr \<Longrightarrow> recorded (tr @ [EventRecord e s]) e s i"
  unfolding recorded_def captures_def by (rule exI [of _ "length tr"]) simp

lemma settled_append: "settled tr i \<Longrightarrow> settled (tr @ tr') i"
proof -
  assume "settled tr i"
  then obtain s e j k where s: "on_stream s (tr ! i)" "i < j" "captures tr e s j k" "k < length tr"
    "tr ! k = EventSynchronize e" by (auto simp: settled_def)
  then have "i < length tr" by (auto simp: captures_def)
  with s captures_append [OF s(3), of tr'] show ?thesis
    unfolding settled_def
    by (intro exI [of _ s] exI [of _ e] exI [of _ j] exI [of _ k]) (simp add: nth_append)
qed

lemma settled_sync:
  assumes "recorded tr e s i" "on_stream s (tr ! i)"
  shows "settled (tr @ [EventSynchronize e]) i"
proof -
  obtain j where j: "i < j" "captures tr e s j (length tr)" using assms(1) by (auto simp: recorded_def)
  then have "i < length tr" by (auto simp: captures_def)
  then have "on_stream s ((tr @ [EventSynchronize e]) ! i)" using assms(2) by (simp add: nth_append)
  with j captures_append [OF j(2)] show ?thesis
    unfolding settled_def by (intro exI [of _ s] exI [of _ e] exI [of _ j] exI [of _ "length tr"]) simp
qed

lemma settled_host_knows:
  assumes "settled tr i" "cuda_order tr before"
  shows "host_knows tr before i"
proof -
  obtain s e j k where s: "on_stream s (tr ! i)" "i < j" "captures tr e s j k" "k < length tr"
    "tr ! k = EventSynchronize e" using assms(1) by (auto simp: settled_def)
  have j: "j < length tr" "on_stream s (tr ! j)" using s by (auto simp: captures_def on_stream_def)
  have "before i j" using s(2) j(1) s(1) j(2) by (rule cuda_stream [OF assms(2)])
  moreover have "before j k" using s(3-5) by (rule cuda_sync [OF assms(2)])
  ultimately have "before i k" by (rule cuda_trans [OF assms(2)])
  with s(4,5) show ?thesis by (auto simp: host_knows_def)
qed

lemma ordered_before_holds:
  assumes "ordered_before tr i l" "cuda_order tr before"
  shows "before i l"
proof -
  obtain s e t j k where s: "on_stream s (tr ! i)" "i < j" "captures tr e s j k" "k < l"
    "tr ! k = StreamWaitEvent t e" "on_stream t (tr ! l)" "l < length tr"
    using assms(1) by (auto simp: ordered_before_def)
  have j: "j < length tr" "on_stream s (tr ! j)" using s by (auto simp: captures_def on_stream_def)
  have k: "k < length tr" "on_stream t (tr ! k)" using s by (auto simp: on_stream_def)
  have "before i j" using s(2) j(1) s(1) j(2) by (rule cuda_stream [OF assms(2)])
  moreover have "before j k" using s(3) k(1) s(5) by (rule cuda_wait [OF assms(2)])
  ultimately have "before i k" by (rule cuda_trans [OF assms(2)])
  moreover have "before k l" using s(4,7) k(2) s(6) by (rule cuda_stream [OF assms(2)])
  ultimately show ?thesis by (rule cuda_trans [OF assms(2)])
qed

lemma cuda_order_prefix:
  assumes "cuda_order (tr @ tr') before"
  shows "cuda_order tr before"
proof -
  have n: "(tr @ tr') ! i = tr ! i" if "i < length tr" for i using that by (simp add: nth_append)
  show ?thesis
    unfolding cuda_order_def
  proof (intro conjI allI impI; (elim conjE)?)
    fix i j s assume "i < j" "j < length tr" "on_stream s (tr ! i)" "on_stream s (tr ! j)"
    then show "before i j" using cuda_stream [OF assms, of i j s] n by simp
  next
    fix j k e s t assume "captures tr e s j k" "k < length tr" "tr ! k = StreamWaitEvent t e"
    then show "before j k" using cuda_wait [OF assms captures_append, of e s j k t] n by simp
  next
    fix j k e s assume "captures tr e s j k" "k < length tr" "tr ! k = EventSynchronize e"
    then show "before j k" using cuda_sync [OF assms captures_append, of e s j k] n by simp
  next
    fix i j k assume "before i j" "before j k"
    then show "before i k" by (rule cuda_trans [OF assms])
  qed
qed

lemma cuda_order_issue: "cuda_order tr (<)"
  by (auto simp: cuda_order_def captures_def)

end
