(* ===== verification/Copy_Engine.thy ===== *)
theory Copy_Engine
  imports Cuda_Driver
begin

text \<open>
  \<open>CopyEngineManager\<close> (\<open>src/copy_engine.cpp\<close>): the copy-engine channels, their round-robin
  and range assignment, the dirty mask, and the events that \<open>wait_completion\<close> and
  \<open>make_stream_wait_on_all\<close> use. Every operation takes the driver, the manager and the trace and returns
  the result code with the new manager and trace; a failing driver call ends it early, as
  \<open>GFD_CU_CHECK\<close> does. \<open>total_bytes\<close>, a \<open>double\<close> used for statistics only, is an exact sum.
\<close>

section \<open>State\<close>

definition MAX_CE_CHANNELS :: nat where "MAX_CE_CHANNELS = 3"

record CopyEngineManager =
  ce_ctx :: nat
  ce_streams :: "nat \<Rightarrow> nat"
  ce_events :: "nat \<Rightarrow> nat"
  num_channels :: nat
  ce_initialized :: bool
  context_pinned :: bool
  next_channel :: nat
  dirty_mask :: u32
  total_submissions :: u64
  total_entries :: u64
  total_bytes :: nat

definition new_manager :: CopyEngineManager where
  "new_manager = \<lparr>ce_ctx = 0, ce_streams = (\<lambda>_. 0), ce_events = (\<lambda>_. 0),
     num_channels = MAX_CE_CHANNELS, ce_initialized = False, context_pinned = False, next_channel = 0,
     dirty_mask = 0, total_submissions = 0, total_entries = 0, total_bytes = 0\<rparr>"

type_synonym ce_result = "CUresult \<times> CopyEngineManager \<times> trace"

text \<open>\<open>GFD_CU_CHECK(call); rest\<close>, for a call whose output is not used.\<close>

definition GFD_CU_CHECK ::
  "cu_driver \<Rightarrow> cu_call \<Rightarrow> (CopyEngineManager \<Rightarrow> trace \<Rightarrow> ce_result) \<Rightarrow> CopyEngineManager \<Rightarrow> trace \<Rightarrow> ce_result" where
  "GFD_CU_CHECK drv c k ce tr =
     (case cu drv c tr of (r, _, tr') \<Rightarrow> if r = CUDA_SUCCESS then k ce tr' else (r, ce, tr'))"

definition ce_return :: "CopyEngineManager \<Rightarrow> trace \<Rightarrow> ce_result" where
  "ce_return ce tr = (CUDA_SUCCESS, ce, tr)"

text \<open>The context is pushed and popped around a call unless it is pinned.\<close>

definition push_unless_pinned :: "cu_driver \<Rightarrow> (CopyEngineManager \<Rightarrow> trace \<Rightarrow> ce_result) \<Rightarrow> CopyEngineManager \<Rightarrow> trace \<Rightarrow> ce_result" where
  "push_unless_pinned drv k ce tr =
     (if context_pinned ce then k ce tr else GFD_CU_CHECK drv (CtxPushCurrent (ce_ctx ce)) k ce tr)"

definition pop_unless_pinned :: "cu_driver \<Rightarrow> (CopyEngineManager \<Rightarrow> trace \<Rightarrow> ce_result) \<Rightarrow> CopyEngineManager \<Rightarrow> trace \<Rightarrow> ce_result" where
  "pop_unless_pinned drv k ce tr =
     (if context_pinned ce then k ce tr else GFD_CU_CHECK drv CtxPopCurrent k ce tr)"

section \<open>Life cycle\<close>

fun init_channels :: "cu_driver \<Rightarrow> nat \<Rightarrow> nat list \<Rightarrow> CopyEngineManager \<Rightarrow> trace \<Rightarrow> ce_result" where
  "init_channels drv priority_high [] ce tr = ce_return ce tr"
| "init_channels drv priority_high (i # is) ce tr =
     (case cu drv (StreamCreateWithPriority priority_high) tr of (r, st, tr1) \<Rightarrow>
        if r \<noteq> CUDA_SUCCESS then (r, ce, tr1)
        else let ce1 = ce\<lparr>ce_streams := (ce_streams ce)(i := st)\<rparr>
             in case cu drv EventCreate tr1 of (r, ev, tr2) \<Rightarrow>
                  if r \<noteq> CUDA_SUCCESS then (r, ce1, tr2)
                  else init_channels drv priority_high is (ce1\<lparr>ce_events := (ce_events ce1)(i := ev)\<rparr>) tr2)"

definition ce_init :: "cu_driver \<Rightarrow> nat \<Rightarrow> int \<Rightarrow> CopyEngineManager \<Rightarrow> trace \<Rightarrow> ce_result" where
  "ce_init drv ctx num ce tr =
     (if ce_initialized ce then ce_return ce tr
      else let ce1 = ce\<lparr>ce_ctx := ctx\<rparr>;
               ce2 = (if 0 < num \<and> num \<le> int MAX_CE_CHANNELS then ce1\<lparr>num_channels := nat num\<rparr> else ce1)
           in GFD_CU_CHECK drv (CtxPushCurrent ctx)
                (\<lambda>ce tr. case cu drv CtxGetStreamPriorityRange tr of (r, priority_high, tr1) \<Rightarrow>
                   if r \<noteq> CUDA_SUCCESS then (r, ce, tr1)
                   else case init_channels drv priority_high [0..<num_channels ce] ce tr1 of (r, ce', tr2) \<Rightarrow>
                     if r \<noteq> CUDA_SUCCESS then (r, ce', tr2)
                     else GFD_CU_CHECK drv CtxPopCurrent (\<lambda>ce. ce_return (ce\<lparr>ce_initialized := True\<rparr>)) ce' tr2) ce2 tr)"

fun shutdown_channels :: "cu_driver \<Rightarrow> nat list \<Rightarrow> CopyEngineManager \<Rightarrow> trace \<Rightarrow> CopyEngineManager \<times> trace" where
  "shutdown_channels drv [] ce tr = (ce, tr)"
| "shutdown_channels drv (i # is) ce tr =
     (let (ce1, tr1) = (if ce_streams ce i \<noteq> 0
            then (ce\<lparr>ce_streams := (ce_streams ce)(i := 0)\<rparr>,
                  tr @ [StreamSynchronize (ce_streams ce i), StreamDestroy (ce_streams ce i)])
            else (ce, tr));
          (ce2, tr2) = (if ce_events ce1 i \<noteq> 0
            then (ce1\<lparr>ce_events := (ce_events ce1)(i := 0)\<rparr>, tr1 @ [EventDestroy (ce_events ce1 i)])
            else (ce1, tr1))
      in shutdown_channels drv is ce2 tr2)"

definition ce_shutdown :: "cu_driver \<Rightarrow> CopyEngineManager \<Rightarrow> trace \<Rightarrow> CopyEngineManager \<times> trace" where
  "ce_shutdown drv ce tr =
     (if \<not> ce_initialized ce then (ce, tr)
      else let tr1 = (if context_pinned ce then tr else tr @ [CtxPushCurrent (ce_ctx ce)]);
               (ce2, tr2) = shutdown_channels drv [0..<num_channels ce] ce tr1;
               tr3 = (if context_pinned ce2 then tr2 else tr2 @ [CtxPopCurrent])
           in (ce2\<lparr>ce_initialized := False\<rparr>, tr3))"

definition pin_context :: "cu_driver \<Rightarrow> CopyEngineManager \<Rightarrow> trace \<Rightarrow> ce_result" where
  "pin_context drv ce tr =
     (if context_pinned ce then ce_return ce tr
      else GFD_CU_CHECK drv (CtxPushCurrent (ce_ctx ce)) (\<lambda>ce. ce_return (ce\<lparr>context_pinned := True\<rparr>)) ce tr)"

definition unpin_context :: "cu_driver \<Rightarrow> CopyEngineManager \<Rightarrow> trace \<Rightarrow> CopyEngineManager \<times> trace" where
  "unpin_context drv ce tr =
     (if context_pinned ce then (ce\<lparr>context_pinned := False\<rparr>, tr @ [CtxPopCurrent]) else (ce, tr))"

section \<open>Submission\<close>

text \<open>Few entries: one per stream, round robin.\<close>

fun submit_round_robin ::
  "cu_driver \<Rightarrow> SGEntry list \<Rightarrow> u32 \<Rightarrow> CopyEngineManager \<Rightarrow> trace \<Rightarrow> CUresult \<times> u32 \<times> CopyEngineManager \<times> trace" where
  "submit_round_robin drv [] this_mask ce tr = (CUDA_SUCCESS, this_mask, ce, tr)"
| "submit_round_robin drv (e # es) this_mask ce tr =
     (let ch = next_channel ce;
          ce1 = ce\<lparr>next_channel := (next_channel ce + 1) mod num_channels ce\<rparr>;
          mask1 = this_mask OR push_bit ch 1
      in case cu drv (copy_on (ce_streams ce ch) e) tr of (r, _, tr1) \<Rightarrow>
           if r \<noteq> CUDA_SUCCESS then (r, mask1, ce1, tr1)
           else submit_round_robin drv es mask1 (ce1\<lparr>total_bytes := total_bytes ce1 + unat (sg_size e)\<rparr>) tr1)"

text \<open>Many entries: a contiguous range per stream.\<close>

fun submit_range :: "cu_driver \<Rightarrow> nat \<Rightarrow> SGEntry list \<Rightarrow> CopyEngineManager \<Rightarrow> trace \<Rightarrow> ce_result" where
  "submit_range drv ch [] ce tr = ce_return ce tr"
| "submit_range drv ch (e # es) ce tr =
     GFD_CU_CHECK drv (copy_on (ce_streams ce ch) e)
       (\<lambda>ce. submit_range drv ch es (ce\<lparr>total_bytes := total_bytes ce + unat (sg_size e)\<rparr>)) ce tr"

fun submit_chunks ::
  "cu_driver \<Rightarrow> SGEntry list \<Rightarrow> nat \<Rightarrow> nat list \<Rightarrow> u32 \<Rightarrow> CopyEngineManager \<Rightarrow> trace
     \<Rightarrow> CUresult \<times> u32 \<times> CopyEngineManager \<times> trace" where
  "submit_chunks drv entries chunk_size [] this_mask ce tr = (CUDA_SUCCESS, this_mask, ce, tr)"
| "submit_chunks drv entries chunk_size (ch # chs) this_mask ce tr =
     (let start = ch * chunk_size; stop = min (start + chunk_size) (length entries)
      in if length entries \<le> start then (CUDA_SUCCESS, this_mask, ce, tr)
         else let mask1 = this_mask OR push_bit ch 1
              in case submit_range drv ch (take (stop - start) (drop start entries)) ce tr of (r, ce1, tr1) \<Rightarrow>
                   if r \<noteq> CUDA_SUCCESS then (r, mask1, ce1, tr1)
                   else submit_chunks drv entries chunk_size chs mask1 ce1 tr1)"

fun record_events :: "cu_driver \<Rightarrow> nat list \<Rightarrow> CopyEngineManager \<Rightarrow> trace \<Rightarrow> ce_result" where
  "record_events drv [] ce tr = ce_return ce tr"
| "record_events drv (ch # chs) ce tr =
     GFD_CU_CHECK drv (EventRecord (ce_events ce ch) (ce_streams ce ch)) (record_events drv chs) ce tr"

definition issue_copies :: "cu_driver \<Rightarrow> SGEntry list \<Rightarrow> CopyEngineManager \<Rightarrow> trace
    \<Rightarrow> CUresult \<times> u32 \<times> CopyEngineManager \<times> trace" where
  "issue_copies drv entries ce tr =
     (if length entries \<le> num_channels ce then submit_round_robin drv entries 0 ce tr
      else let chunk_size = (length entries + num_channels ce - 1) div num_channels ce
           in case submit_chunks drv entries chunk_size [0..<num_channels ce] 0 ce tr of (r, m, ce1, tr1) \<Rightarrow>
                (r, m, (if r = CUDA_SUCCESS then ce1\<lparr>next_channel := 0\<rparr> else ce1), tr1))"

definition submit_scatter_gather :: "cu_driver \<Rightarrow> SGEntry list \<Rightarrow> CopyEngineManager \<Rightarrow> trace \<Rightarrow> ce_result" where
  "submit_scatter_gather drv entries ce tr =
     (if \<not> ce_initialized ce \<or> entries = [] then ce_return ce tr
      else push_unless_pinned drv
        (\<lambda>ce tr. case issue_copies drv entries ce tr of (r, this_mask, ce1, tr1) \<Rightarrow>
           if r \<noteq> CUDA_SUCCESS then (r, ce1, tr1)
           else case record_events drv (mask_channels this_mask)
                       (ce1\<lparr>dirty_mask := dirty_mask ce1 OR this_mask\<rparr>) tr1 of (r, ce2, tr2) \<Rightarrow>
             if r \<noteq> CUDA_SUCCESS then (r, ce2, tr2)
             else pop_unless_pinned drv
               (\<lambda>ce. ce_return (ce\<lparr>total_submissions := total_submissions ce + 1,
                             total_entries := total_entries ce + of_nat (length entries)\<rparr>)) ce2 tr2) ce tr)"

section \<open>Completion\<close>

fun sync_events :: "cu_driver \<Rightarrow> nat list \<Rightarrow> CopyEngineManager \<Rightarrow> trace \<Rightarrow> ce_result" where
  "sync_events drv [] ce tr = ce_return ce tr"
| "sync_events drv (ch # chs) ce tr =
     GFD_CU_CHECK drv (EventSynchronize (ce_events ce ch)) (sync_events drv chs) ce tr"

definition wait_completion :: "cu_driver \<Rightarrow> CopyEngineManager \<Rightarrow> trace \<Rightarrow> ce_result" where
  "wait_completion drv ce tr =
     (if \<not> ce_initialized ce \<or> dirty_mask ce = 0 then ce_return ce tr
      else push_unless_pinned drv
        (\<lambda>ce tr. case sync_events drv (mask_channels (dirty_mask ce)) ce tr of (r, ce1, tr1) \<Rightarrow>
           if r \<noteq> CUDA_SUCCESS then (r, ce1, tr1)
           else pop_unless_pinned drv ce_return (ce1\<lparr>dirty_mask := 0\<rparr>) tr1) ce tr)"

definition record_event_on_last_stream :: "cu_driver \<Rightarrow> nat \<Rightarrow> CopyEngineManager \<Rightarrow> trace \<Rightarrow> ce_result" where
  "record_event_on_last_stream drv event ce tr =
     (if \<not> ce_initialized ce then ce_return ce tr
      else let last_ch = (next_channel ce + num_channels ce - 1) mod num_channels ce
           in GFD_CU_CHECK drv (EventRecord event (ce_streams ce last_ch)) ce_return ce tr)"

fun wait_on_channels :: "cu_driver \<Rightarrow> nat \<Rightarrow> nat list \<Rightarrow> CopyEngineManager \<Rightarrow> trace \<Rightarrow> ce_result" where
  "wait_on_channels drv stream [] ce tr = ce_return ce tr"
| "wait_on_channels drv stream (ch # chs) ce tr =
     GFD_CU_CHECK drv (EventRecord (ce_events ce ch) (ce_streams ce ch))
       (GFD_CU_CHECK drv (StreamWaitEvent stream (ce_events ce ch)) (wait_on_channels drv stream chs)) ce tr"

definition make_stream_wait_on_all :: "cu_driver \<Rightarrow> nat \<Rightarrow> CopyEngineManager \<Rightarrow> trace \<Rightarrow> ce_result" where
  "make_stream_wait_on_all drv stream ce tr =
     (if \<not> ce_initialized ce \<or> dirty_mask ce = 0 then ce_return ce tr
      else push_unless_pinned drv
        (\<lambda>ce tr. case wait_on_channels drv stream (mask_channels (dirty_mask ce)) ce tr of (r, ce1, tr1) \<Rightarrow>
           if r \<noteq> CUDA_SUCCESS then (r, ce1, tr1) else pop_unless_pinned drv ce_return ce1 tr1) ce tr)"

definition submit_and_wait :: "cu_driver \<Rightarrow> SGEntry list \<Rightarrow> CopyEngineManager \<Rightarrow> trace \<Rightarrow> ce_result" where
  "submit_and_wait drv entries ce tr =
     (case submit_scatter_gather drv entries ce tr of (r, ce1, tr1) \<Rightarrow>
        if r \<noteq> CUDA_SUCCESS then (r, ce1, tr1) else wait_completion drv ce1 tr1)"

section \<open>Submission when every call succeeds\<close>

lemma check_success [simp]: "all_succeed drv \<Longrightarrow> GFD_CU_CHECK drv c k ce tr = k ce (tr @ [c])"
  by (simp add: GFD_CU_CHECK_def)

definition push_calls :: "CopyEngineManager \<Rightarrow> trace" where
  "push_calls ce = (if context_pinned ce then [] else [CtxPushCurrent (ce_ctx ce)])"

definition pop_calls :: "CopyEngineManager \<Rightarrow> trace" where
  "pop_calls ce = (if context_pinned ce then [] else [CtxPopCurrent])"

lemma push_success [simp]: "all_succeed drv \<Longrightarrow> push_unless_pinned drv k ce tr = k ce (tr @ push_calls ce)"
  by (simp add: push_unless_pinned_def push_calls_def)

lemma pop_success [simp]: "all_succeed drv \<Longrightarrow> pop_unless_pinned drv k ce tr = k ce (tr @ pop_calls ce)"
  by (simp add: pop_unless_pinned_def pop_calls_def)

text \<open>The channel each entry goes to: the specification of both assignment strategies.\<close>

definition chunk_size :: "CopyEngineManager \<Rightarrow> SGEntry list \<Rightarrow> nat" where
  "chunk_size ce es = (length es + num_channels ce - 1) div num_channels ce"

fun round_robin :: "nat \<Rightarrow> nat \<Rightarrow> 'a list \<Rightarrow> (nat \<times> 'a) list" where
  "round_robin n c [] = []"
| "round_robin n c (x # xs) = (c, x) # round_robin n ((c + 1) mod n) xs"

definition assign :: "CopyEngineManager \<Rightarrow> SGEntry list \<Rightarrow> (nat \<times> SGEntry) list" where
  "assign ce es = (if length es \<le> num_channels ce
     then round_robin (num_channels ce) (next_channel ce) es
     else concat (map (\<lambda>ch. map (Pair ch) (piece es (chunk_size ce es) ch)) [0..<num_channels ce]))"

definition copy_calls :: "CopyEngineManager \<Rightarrow> (nat \<times> SGEntry) list \<Rightarrow> trace" where
  "copy_calls ce ps = map (\<lambda>(ch, e). copy_on (ce_streams ce ch) e) ps"

definition record_calls :: "CopyEngineManager \<Rightarrow> nat list \<Rightarrow> trace" where
  "record_calls ce chs = map (\<lambda>ch. EventRecord (ce_events ce ch) (ce_streams ce ch)) chs"

definition next_after :: "CopyEngineManager \<Rightarrow> SGEntry list \<Rightarrow> nat" where
  "next_after ce es = (if length es \<le> num_channels ce
     then (next_channel ce + length es) mod num_channels ce else 0)"

text \<open>The manager's invariant.\<close>

definition ce_wf :: "CopyEngineManager \<Rightarrow> bool" where
  "ce_wf ce \<longleftrightarrow> ce_initialized ce \<and> 0 < num_channels ce \<and> num_channels ce \<le> MAX_CE_CHANNELS
     \<and> next_channel ce < num_channels ce \<and> (\<forall>ch. bit (dirty_mask ce) ch \<longrightarrow> ch < num_channels ce)
     \<and> inj_on (ce_streams ce) {..<num_channels ce} \<and> inj_on (ce_events ce) {..<num_channels ce}"

lemma ce_wf_small: "ce_wf ce \<Longrightarrow> num_channels ce < 32"
  by (simp add: ce_wf_def MAX_CE_CHANNELS_def)

lemma map_snd_assign:
  assumes "0 < num_channels ce"
  shows "map snd (assign ce es) = es"
proof (cases "length es \<le> num_channels ce")
  case True
  moreover have "map snd (round_robin n c xs) = xs" for n c and xs :: "SGEntry list"
    by (induction xs arbitrary: c) simp_all
  ultimately show ?thesis by (simp add: assign_def)
next
  case False
  have "map snd (concat (map (\<lambda>ch. map (Pair ch) (piece es k ch)) chs)) = concat (map (piece es k) chs)" for k chs
    by (induction chs) (simp_all add: comp_def)
  moreover have "length es \<le> num_channels ce * chunk_size ce es"
    unfolding chunk_size_def using assms by (rule ceil_div_covers)
  ultimately show ?thesis using False by (simp add: assign_def pieces_all)
qed

lemma round_robin_channels: "c < n \<Longrightarrow> p \<in> set (round_robin n c xs) \<Longrightarrow> fst p < n"
proof (induction xs arbitrary: c)
  case (Cons x xs)
  then have "(c + 1) mod n < n" by simp
  from Cons.IH [OF this] Cons.prems show ?case by auto
qed simp

lemma assign_channels: "ce_wf ce \<Longrightarrow> p \<in> set (assign ce es) \<Longrightarrow> fst p < num_channels ce"
  by (auto simp: assign_def ce_wf_def dest: round_robin_channels split: if_splits)

lemma copies_copy_calls [simp]: "copies (copy_calls ce ps) = map snd ps"
  by (induction ps) (auto simp: copy_calls_def)

lemma copies_record_calls [simp]: "copies (record_calls ce chs) = []"
  by (induction chs) (auto simp: record_calls_def)

lemma copies_push_pop [simp]: "copies (push_calls ce) = []" "copies (pop_calls ce) = []"
  by (simp_all add: push_calls_def pop_calls_def)

lemma submit_range_success:
  "all_succeed drv \<Longrightarrow> submit_range drv ch es ce tr =
     (CUDA_SUCCESS, ce\<lparr>total_bytes := total_bytes ce + bytes es\<rparr>, tr @ map (copy_on (ce_streams ce ch)) es)"
  by (induction es arbitrary: ce tr) (simp_all add: ce_return_def add.assoc)

lemma record_events_success:
  "all_succeed drv \<Longrightarrow> record_events drv chs ce tr = (CUDA_SUCCESS, ce, tr @ record_calls ce chs)"
  by (induction chs arbitrary: tr) (simp_all add: ce_return_def record_calls_def)

lemma submit_round_robin_success:
  assumes "all_succeed drv" "next_channel ce < num_channels ce" "num_channels ce < 32"
  shows "\<exists>m. submit_round_robin drv es mask0 ce tr = (CUDA_SUCCESS, m,
       ce\<lparr>next_channel := (next_channel ce + length es) mod num_channels ce,
          total_bytes := total_bytes ce + bytes es\<rparr>, tr @ copy_calls ce (round_robin (num_channels ce) (next_channel ce) es))
     \<and> (\<forall>k. bit m k \<longleftrightarrow> bit mask0 k \<or> k \<in> fst ` set (round_robin (num_channels ce) (next_channel ce) es))"
  using assms(2,3)
proof (induction es arbitrary: mask0 ce tr)
  case Nil
  then show ?case by (simp add: copy_calls_def)
next
  case (Cons e es)
  let ?n = "num_channels ce" and ?c = "next_channel ce"
  let ?ce = "ce\<lparr>next_channel := (?c + 1) mod ?n, total_bytes := total_bytes ce + unat (sg_size e)\<rparr>"
  obtain m where m: "submit_round_robin drv es (mask0 OR push_bit ?c 1) ?ce (tr @ [copy_on (ce_streams ce ?c) e])
      = (CUDA_SUCCESS, m, ?ce\<lparr>next_channel := (next_channel ?ce + length es) mod ?n,
           total_bytes := total_bytes ?ce + bytes es\<rparr>,
         (tr @ [copy_on (ce_streams ce ?c) e]) @ copy_calls ?ce (round_robin ?n ((?c + 1) mod ?n) es))"
    and b: "\<forall>k. bit m k \<longleftrightarrow> bit (mask0 OR push_bit ?c 1) k \<or> k \<in> fst ` set (round_robin ?n ((?c + 1) mod ?n) es)"
    using Cons.IH [of ?ce "mask0 OR push_bit ?c 1" "tr @ [copy_on (ce_streams ce ?c) e]"] Cons.prems
    by auto
  have "((?c + 1) mod ?n + length es) mod ?n = (?c + length (e # es)) mod ?n" by (simp add: mod_simps)
  moreover have "bit (mask0 OR push_bit ?c 1) k \<longleftrightarrow> bit mask0 k \<or> k = ?c" for k
    using Cons.prems by (intro bit_or_channel) simp
  ultimately show ?case using m b assms(1) by (auto simp: Let_def copy_calls_def add.assoc)
qed

lemma submit_chunks_success:
  assumes "all_succeed drv" "n < 32"
  shows "\<exists>m. submit_chunks drv es k [a..<n] mask0 ce tr = (CUDA_SUCCESS, m,
       ce\<lparr>total_bytes := total_bytes ce + bytes (concat (map (piece es k) [a..<n]))\<rparr>,
       tr @ copy_calls ce (concat (map (\<lambda>ch. map (Pair ch) (piece es k ch)) [a..<n])))
     \<and> (\<forall>c. bit m c \<longleftrightarrow> bit mask0 c \<or> a \<le> c \<and> c < n \<and> c * k < length es)"
proof (cases "a \<le> n")
  case True
  then show ?thesis
  proof (induction "n - a" arbitrary: a mask0 ce tr)
    case 0
    then show ?case by (auto simp: copy_calls_def)
  next
    case (Suc d)
    then have up: "[a..<n] = a # [Suc a..<n]" by (simp add: upt_rec)
    show ?case
    proof (cases "length es \<le> a * k")
      case True
      have "piece es k c = []" if "a \<le> c" for c
        using True that mult_le_mono1 [of a c k] by (intro piece_Nil) linarith
      then have "map (piece es k) [a..<n] = map (\<lambda>_. []) [a..<n]"
        and "map (\<lambda>ch. map (Pair ch) (piece es k ch)) [a..<n] = map (\<lambda>_. []) [a..<n]" by simp_all
      then have "bytes (concat (map (piece es k) [a..<n])) = 0"
        and "copy_calls ce (concat (map (\<lambda>ch. map (Pair ch) (piece es k ch)) [a..<n])) = []"
        by (simp_all only: copy_calls_def) (simp_all add: map_replicate_const)
      moreover have "\<not> c * k < length es" if "a \<le> c" for c
        using True that mult_le_mono1 [of a c k] by linarith
      moreover have "submit_chunks drv es k [a..<n] mask0 ce tr = (CUDA_SUCCESS, mask0, ce, tr)"
        using True by (simp add: up)
      ultimately show ?thesis by (intro exI [of _ mask0]) (auto simp del: upt_Suc)
    next
      case False
      let ?ce = "ce\<lparr>total_bytes := total_bytes ce + bytes (piece es k a)\<rparr>"
      let ?tr = "tr @ map (copy_on (ce_streams ce a)) (piece es k a)"
      obtain m where m: "submit_chunks drv es k [Suc a..<n] (mask0 OR push_bit a 1) ?ce ?tr
          = (CUDA_SUCCESS, m, ?ce\<lparr>total_bytes := total_bytes ?ce + bytes (concat (map (piece es k) [Suc a..<n]))\<rparr>,
             ?tr @ copy_calls ?ce (concat (map (\<lambda>ch. map (Pair ch) (piece es k ch)) [Suc a..<n])))"
        and b: "\<forall>c. bit m c \<longleftrightarrow> bit (mask0 OR push_bit a 1) c \<or> Suc a \<le> c \<and> c < n \<and> c * k < length es"
      proof -
        have "d = n - Suc a" "Suc a \<le> n" using Suc.hyps(2) by simp_all
        from Suc.hyps(1) [OF this, of "mask0 OR push_bit a 1" ?ce ?tr] show ?thesis
          by (elim exE conjE) (rule that)
      qed
      have a: "a < n" "a < 32" "a * k < length es" using Suc.hyps(2) assms(2) False by simp_all
      have "bit m c \<longleftrightarrow> (bit mask0 c \<or> c = a) \<or> Suc a \<le> c \<and> c < n \<and> c * k < length es" for c
        using b by (simp only: bit_or_channel [OF a(2)])
      moreover have "c = a \<or> Suc a \<le> c \<and> c < n \<and> c * k < length es \<longleftrightarrow> a \<le> c \<and> c < n \<and> c * k < length es" for c
        using a(1,3) by (cases "c = a") (simp, auto)
      ultimately have "bit m c \<longleftrightarrow> bit mask0 c \<or> a \<le> c \<and> c < n \<and> c * k < length es" for c
        by (simp only: disj_assoc)
      with m False assms(1) show ?thesis
        by (simp add: up Let_def submit_range_success copy_calls_def comp_def add.assoc flip: piece_range)
    qed
  qed
qed (auto simp: copy_calls_def)

lemma issue_copies_success:
  assumes "all_succeed drv" "ce_wf ce"
  obtains m where "issue_copies drv es ce tr = (CUDA_SUCCESS, m,
       ce\<lparr>next_channel := next_after ce es, total_bytes := total_bytes ce + bytes es\<rparr>,
       tr @ copy_calls ce (assign ce es))"
    and "\<And>k. bit m k \<longleftrightarrow> k \<in> fst ` set (assign ce es)"
proof (cases "length es \<le> num_channels ce")
  case True
  from assms(2) have "next_channel ce < num_channels ce" "num_channels ce < 32"
    by (simp_all add: ce_wf_def MAX_CE_CHANNELS_def)
  from submit_round_robin_success [OF assms(1) this, of es 0 tr]
  obtain m where "submit_round_robin drv es 0 ce tr = (CUDA_SUCCESS, m,
       ce\<lparr>next_channel := (next_channel ce + length es) mod num_channels ce,
          total_bytes := total_bytes ce + bytes es\<rparr>,
       tr @ copy_calls ce (round_robin (num_channels ce) (next_channel ce) es))"
    "\<And>k. bit m k \<longleftrightarrow> k \<in> fst ` set (round_robin (num_channels ce) (next_channel ce) es)" by auto
  with True show ?thesis
    by (intro that [of m]) (simp_all add: issue_copies_def assign_def next_after_def)
next
  case False
  let ?n = "num_channels ce" and ?k = "chunk_size ce es"
  have n: "?n < 32" "0 < ?n" using assms(2) by (simp_all add: ce_wf_def MAX_CE_CHANNELS_def)
  have all: "concat (map (piece es ?k) [0..<?n]) = es"
    unfolding chunk_size_def by (rule pieces_all [OF ceil_div_covers [OF n(2)]])
  have used: "c \<in> fst ` set (assign ce es) \<longleftrightarrow> c < ?n \<and> c * ?k < length es" for c
  proof -
    have "0 < ?k" using False n(2) by (simp add: chunk_size_def div_greater_zero_iff)
    then have "piece es ?k c \<noteq> [] \<longleftrightarrow> c * ?k < length es" by (auto simp: piece_def)
    moreover have "fst ` Pair ch ` set (piece es ?k ch) = (if piece es ?k ch = [] then {} else {ch})" for ch
      by (simp add: image_image image_constant_conv)
    then have "fst ` set (assign ce es) = (\<Union>ch<?n. if piece es ?k ch = [] then {} else {ch})"
      using False by (simp add: assign_def image_UN atLeast0LessThan)
    then have "c \<in> fst ` set (assign ce es) \<longleftrightarrow> c < ?n \<and> piece es ?k c \<noteq> []"
      by (auto split: if_splits)
    ultimately show ?thesis by blast
  qed
  from submit_chunks_success [OF assms(1) n(1), of es ?k 0 0 ce tr] all
  obtain m where "submit_chunks drv es ?k [0..<?n] 0 ce tr = (CUDA_SUCCESS, m,
       ce\<lparr>total_bytes := total_bytes ce + bytes es\<rparr>,
       tr @ copy_calls ce (concat (map (\<lambda>ch. map (Pair ch) (piece es ?k ch)) [0..<?n])))"
    "\<And>c. bit m c \<longleftrightarrow> c < ?n \<and> c * ?k < length es" by auto
  moreover have "issue_copies drv es ce tr = (case submit_chunks drv es ?k [0..<?n] 0 ce tr of
      (r, m, ce1, tr1) \<Rightarrow> (r, m, (if r = CUDA_SUCCESS then ce1\<lparr>next_channel := 0\<rparr> else ce1), tr1))"
    using False by (simp only: issue_copies_def chunk_size_def Let_def if_False)
  ultimately show ?thesis
    using False used by (intro that [of m]) (simp_all add: assign_def next_after_def)
qed

text \<open>The calls of one submission, and the manager afterwards.\<close>

definition submit_calls :: "CopyEngineManager \<Rightarrow> SGEntry list \<Rightarrow> u32 \<Rightarrow> trace" where
  "submit_calls ce es m =
     push_calls ce @ copy_calls ce (assign ce es) @ record_calls ce (mask_channels m) @ pop_calls ce"

definition submitted :: "CopyEngineManager \<Rightarrow> SGEntry list \<Rightarrow> u32 \<Rightarrow> CopyEngineManager" where
  "submitted ce es m = ce\<lparr>next_channel := next_after ce es, total_bytes := total_bytes ce + bytes es,
     dirty_mask := dirty_mask ce OR m, total_submissions := total_submissions ce + 1,
     total_entries := total_entries ce + of_nat (length es)\<rparr>"

lemma submit_success:
  assumes "all_succeed drv" "ce_wf ce" "es \<noteq> []"
  obtains m where "submit_scatter_gather drv es ce tr = (CUDA_SUCCESS, submitted ce es m, tr @ submit_calls ce es m)"
    and "\<And>k. bit m k \<longleftrightarrow> k \<in> fst ` set (assign ce es)"
proof -
  obtain m where m: "issue_copies drv es ce (tr @ push_calls ce) = (CUDA_SUCCESS, m,
       ce\<lparr>next_channel := next_after ce es, total_bytes := total_bytes ce + bytes es\<rparr>,
       (tr @ push_calls ce) @ copy_calls ce (assign ce es))"
    and b: "\<And>k. bit m k \<longleftrightarrow> k \<in> fst ` set (assign ce es)"
    using issue_copies_success [OF assms(1,2)] by metis
  have "submit_scatter_gather drv es ce tr = (CUDA_SUCCESS, submitted ce es m, tr @ submit_calls ce es m)"
    using assms m by (simp add: submit_scatter_gather_def ce_wf_def record_events_success ce_return_def
        submitted_def submit_calls_def record_calls_def pop_calls_def)
  with b show ?thesis by (rule that [rotated])
qed

lemma submit_Nil: "submit_scatter_gather drv [] ce tr = (CUDA_SUCCESS, ce, tr)"
  by (simp add: submit_scatter_gather_def ce_return_def)

lemma copies_submit_calls: "ce_wf ce \<Longrightarrow> copies (submit_calls ce es m) = es"
  by (simp add: submit_calls_def map_snd_assign ce_wf_def)

lemma submitted_wf:
  assumes "ce_wf ce" "\<And>k. bit m k \<longleftrightarrow> k \<in> fst ` set (assign ce es)"
  shows "ce_wf (submitted ce es m)"
proof -
  have "next_after ce es < num_channels ce" using assms(1) by (simp add: next_after_def ce_wf_def)
  moreover have "k < num_channels ce" if "bit m k" for k
    using that assms assign_channels by fastforce
  ultimately show ?thesis using assms(1) by (auto simp: submitted_def ce_wf_def bit_or_iff)
qed

section \<open>A call that returns success\<close>

text \<open>An operation that returns success ran as it would with a driver that never fails, so
  what follows holds of every driver, as soon as the operation reports success.\<close>

definition ok_driver :: "cu_driver \<Rightarrow> cu_driver" where
  "ok_driver drv = (\<lambda>tr c. (CUDA_SUCCESS, snd (drv tr c)))"

named_theorems ok_transfer

lemma all_succeed_ok [simp]: "all_succeed (ok_driver drv)"
  by (simp add: all_succeed_def ok_driver_def)

lemma cu_ok: "cu (ok_driver drv) c tr = (CUDA_SUCCESS, snd (cu drv c tr))"
  by (simp add: cu_def ok_driver_def)

lemma check_ok [ok_transfer]:
  "fst (GFD_CU_CHECK drv c k ce tr) = CUDA_SUCCESS \<Longrightarrow>
   GFD_CU_CHECK drv c k ce tr = k ce (tr @ [c]) \<and> fst (k ce (tr @ [c])) = CUDA_SUCCESS"
  by (auto simp: GFD_CU_CHECK_def cu_def split: prod.splits if_splits)

lemma submit_range_ok [ok_transfer]:
  "fst (submit_range drv ch es ce tr) = CUDA_SUCCESS \<Longrightarrow>
   submit_range drv ch es ce tr = submit_range (ok_driver drv) ch es ce tr"
  by (induction es arbitrary: ce tr) (auto dest!: check_ok)

lemma record_events_ok [ok_transfer]:
  "fst (record_events drv chs ce tr) = CUDA_SUCCESS \<Longrightarrow>
   record_events drv chs ce tr = record_events (ok_driver drv) chs ce tr"
  by (induction chs arbitrary: ce tr) (auto dest!: check_ok)

lemma sync_events_ok [ok_transfer]:
  "fst (sync_events drv chs ce tr) = CUDA_SUCCESS \<Longrightarrow>
   sync_events drv chs ce tr = sync_events (ok_driver drv) chs ce tr"
  by (induction chs arbitrary: ce tr) (auto dest!: check_ok)

lemma wait_on_channels_ok [ok_transfer]:
  "fst (wait_on_channels drv stream chs ce tr) = CUDA_SUCCESS \<Longrightarrow>
   wait_on_channels drv stream chs ce tr = wait_on_channels (ok_driver drv) stream chs ce tr"
  by (induction chs arbitrary: ce tr) (auto dest!: check_ok)

lemma submit_round_robin_ok [ok_transfer]:
  "fst (submit_round_robin drv es m ce tr) = CUDA_SUCCESS \<Longrightarrow>
   submit_round_robin drv es m ce tr = submit_round_robin (ok_driver drv) es m ce tr"
  by (induction es arbitrary: m ce tr) (auto simp: Let_def cu_ok split: prod.splits if_splits)

lemma submit_chunks_ok [ok_transfer]:
  "fst (submit_chunks drv es k chs m ce tr) = CUDA_SUCCESS \<Longrightarrow>
   submit_chunks drv es k chs m ce tr = submit_chunks (ok_driver drv) es k chs m ce tr"
proof (induction chs arbitrary: m ce tr)
  case (Cons ch chs)
  let ?r = "submit_range drv ch (take (min (ch * k + k) (length es) - ch * k) (drop (ch * k) es)) ce tr"
  show ?case
  proof (cases "length es \<le> ch * k")
    case False
    with Cons.prems have "fst ?r = CUDA_SUCCESS" by (auto simp: Let_def split: prod.splits if_splits)
    from submit_range_ok [OF this] Cons False show ?thesis
      by (auto simp: Let_def split: prod.splits if_splits)
  qed simp
qed simp

lemma issue_copies_ok [ok_transfer]:
  "fst (issue_copies drv es ce tr) = CUDA_SUCCESS \<Longrightarrow> issue_copies drv es ce tr = issue_copies (ok_driver drv) es ce tr"
proof (cases "length es \<le> num_channels ce")
  case False
  let ?k = "(length es + num_channels ce - 1) div num_channels ce"
  assume "fst (issue_copies drv es ce tr) = CUDA_SUCCESS"
  with False have "fst (submit_chunks drv es ?k [0..<num_channels ce] 0 ce tr) = CUDA_SUCCESS"
    by (simp add: issue_copies_def Let_def split: prod.splits)
  from submit_chunks_ok [OF this] False show ?thesis by (simp only: issue_copies_def Let_def if_False)
qed (auto simp: issue_copies_def intro: submit_round_robin_ok)

lemma push_ok [ok_transfer]:
  "fst (push_unless_pinned drv k ce tr) = CUDA_SUCCESS \<Longrightarrow>
   push_unless_pinned drv k ce tr = k ce (tr @ push_calls ce) \<and> fst (k ce (tr @ push_calls ce)) = CUDA_SUCCESS"
  by (auto simp: push_unless_pinned_def push_calls_def split: if_splits dest: check_ok)

lemma pop_ok [ok_transfer]:
  "fst (pop_unless_pinned drv k ce tr) = CUDA_SUCCESS \<Longrightarrow>
   pop_unless_pinned drv k ce tr = k ce (tr @ pop_calls ce) \<and> fst (k ce (tr @ pop_calls ce)) = CUDA_SUCCESS"
  by (auto simp: pop_unless_pinned_def pop_calls_def split: if_splits dest: check_ok)

text \<open>What the three guarded operations do between push and pop.\<close>

lemma guarded_ok:
  assumes "fst (push_unless_pinned drv (\<lambda>ce tr. case f ce tr of (r, ce1, tr1) \<Rightarrow>
       if r \<noteq> CUDA_SUCCESS then (r, ce1, tr1) else pop_unless_pinned drv g (h ce1) tr1) ce tr) = CUDA_SUCCESS"
    and "fst (f ce (tr @ push_calls ce)) = CUDA_SUCCESS \<Longrightarrow> f ce (tr @ push_calls ce) = f' ce (tr @ push_calls ce)"
  shows "push_unless_pinned drv (\<lambda>ce tr. case f ce tr of (r, ce1, tr1) \<Rightarrow>
       if r \<noteq> CUDA_SUCCESS then (r, ce1, tr1) else pop_unless_pinned drv g (h ce1) tr1) ce tr
     = push_unless_pinned (ok_driver drv) (\<lambda>ce tr. case f' ce tr of (r, ce1, tr1) \<Rightarrow>
       if r \<noteq> CUDA_SUCCESS then (r, ce1, tr1) else pop_unless_pinned (ok_driver drv) g (h ce1) tr1) ce tr"
  using push_ok [OF assms(1)] assms(2) pop_ok by (auto split: prod.splits if_splits)

lemma wait_completion_ok:
  assumes "fst (wait_completion drv ce tr) = CUDA_SUCCESS"
  shows "wait_completion drv ce tr = wait_completion (ok_driver drv) ce tr"
proof (cases "\<not> ce_initialized ce \<or> dirty_mask ce = 0")
  case False
  with assms show ?thesis
    unfolding wait_completion_def if_not_P [OF False] by (intro guarded_ok) (auto intro: sync_events_ok)
qed (simp add: wait_completion_def)

lemma make_stream_wait_on_all_ok:
  assumes "fst (make_stream_wait_on_all drv stream ce tr) = CUDA_SUCCESS"
  shows "make_stream_wait_on_all drv stream ce tr = make_stream_wait_on_all (ok_driver drv) stream ce tr"
proof (cases "\<not> ce_initialized ce \<or> dirty_mask ce = 0")
  case False
  with assms show ?thesis
    unfolding make_stream_wait_on_all_def if_not_P [OF False]
    by (intro guarded_ok [where h = "\<lambda>ce. ce"]) (auto intro: wait_on_channels_ok)
qed (simp add: make_stream_wait_on_all_def)

lemma submit_ok:
  assumes "fst (submit_scatter_gather drv es ce tr) = CUDA_SUCCESS"
  shows "submit_scatter_gather drv es ce tr = submit_scatter_gather (ok_driver drv) es ce tr"
proof (cases "\<not> ce_initialized ce \<or> es = []")
  case False
  then have run: "ce_initialized ce" "es \<noteq> []" by simp_all
  let ?tr = "tr @ push_calls ce"
  have ic: "fst (issue_copies drv es ce ?tr) = CUDA_SUCCESS"
    using assms run by (auto simp: submit_scatter_gather_def split: prod.splits if_splits dest!: push_ok)
  have re: "fst (record_events drv (mask_channels m) (ce1\<lparr>dirty_mask := dirty_mask ce1 OR m\<rparr>) tr1) = CUDA_SUCCESS"
    if "issue_copies drv es ce ?tr = (CUDA_SUCCESS, m, ce1, tr1)" for m ce1 tr1
    using assms run that by (auto simp: submit_scatter_gather_def split: prod.splits if_splits dest!: push_ok)
  show ?thesis
    using assms run issue_copies_ok [OF ic] record_events_ok [OF re]
    by (auto simp: submit_scatter_gather_def split: prod.splits if_splits dest!: push_ok pop_ok)
qed (auto simp: submit_scatter_gather_def ce_return_def)

section \<open>Every copy is settled or will be waited for\<close>

definition ce_copy :: "CopyEngineManager \<Rightarrow> trace \<Rightarrow> nat \<Rightarrow> nat \<Rightarrow> bool" where
  "ce_copy ce tr ch i \<longleftrightarrow> i < length tr \<and> ch < num_channels ce \<and> (\<exists>e. tr ! i = copy_on (ce_streams ce ch) e)"

definition ce_tracks :: "CopyEngineManager \<Rightarrow> trace \<Rightarrow> bool" where
  "ce_tracks ce tr \<longleftrightarrow> (\<forall>ch i. ce_copy ce tr ch i \<longrightarrow>
     settled tr i \<or> bit (dirty_mask ce) ch \<and> recorded tr (ce_events ce ch) (ce_streams ce ch) i)"

lemma ce_tracksD:
  "ce_tracks ce tr \<Longrightarrow> ce_copy ce tr ch i \<Longrightarrow>
   settled tr i \<or> bit (dirty_mask ce) ch \<and> recorded tr (ce_events ce ch) (ce_streams ce ch) i"
  by (simp add: ce_tracks_def)

lemma on_stream_copy [simp]: "on_stream s (copy_on s e)"
  by (simp add: on_stream_def copy_on_def)

lemma ce_copy_stream: "ce_copy ce tr ch i \<Longrightarrow> on_stream (ce_streams ce ch) (tr ! i)"
  by (auto simp: ce_copy_def)

lemma ce_copy_append: "ce_copy ce (tr @ tr') ch i \<Longrightarrow> i < length tr \<Longrightarrow> ce_copy ce tr ch i"
  by (simp add: ce_copy_def nth_append)

lemma no_record [simp]:
  "\<not> is_record e (copy_on s x)" "\<not> is_record e CtxPopCurrent" "\<not> is_record e (CtxPushCurrent c)"
  "\<not> is_record e (EventSynchronize f)" "\<not> is_record e (StreamWaitEvent s f)"
  "is_record e (EventRecord f s) \<longleftrightarrow> e = f"
  by (auto simp: is_record_def copy_on_def)

lemma push_pop_no_record:
  "c \<in> set (push_calls ce) \<Longrightarrow> \<not> is_record e c" "c \<in> set (pop_calls ce) \<Longrightarrow> \<not> is_record e c"
  by (auto simp: push_calls_def pop_calls_def split: if_splits)

lemma record_calls_other:
  "inj_on (ce_events ce) {..<n} \<Longrightarrow> set chs \<subseteq> {..<n} \<Longrightarrow> ch < n \<Longrightarrow> ch \<notin> set chs \<Longrightarrow> c \<in> set (record_calls ce chs)
   \<Longrightarrow> \<not> is_record (ce_events ce ch) c"
  by (auto simp: record_calls_def) (metis inj_onD lessThan_iff subsetD)

lemma recorded_record_calls:
  assumes "inj_on (ce_events ce) {..<n}" "set chs \<subseteq> {..<n}" "distinct chs" "ch \<in> set chs" "i < length tr"
  shows "recorded (tr @ record_calls ce chs) (ce_events ce ch) (ce_streams ce ch) i"
proof -
  obtain a b where ab: "chs = a @ ch # b" using split_list [OF assms(4)] by blast
  have "recorded ((tr @ record_calls ce a) @ [EventRecord (ce_events ce ch) (ce_streams ce ch)])
      (ce_events ce ch) (ce_streams ce ch) i"
    using assms(5) by (intro recorded_record) simp
  then have "recorded (((tr @ record_calls ce a) @ [EventRecord (ce_events ce ch) (ce_streams ce ch)]) @ record_calls ce b)
      (ce_events ce ch) (ce_streams ce ch) i"
  proof (rule recorded_append)
    fix c assume "c \<in> set (record_calls ce b)"
    then show "\<not> is_record (ce_events ce ch) c"
      using assms(1-3) ab by (intro record_calls_other [of ce n b]) auto
  qed
  then show ?thesis by (simp add: ab record_calls_def)
qed

lemma mask_of_wf: "ce_wf ce \<Longrightarrow> set (mask_channels (dirty_mask ce)) \<subseteq> {..<num_channels ce}"
  by (auto simp: set_mask_channels ce_wf_def)

lemma submitted_tracks:
  assumes wf: "ce_wf ce" and m: "\<And>k. bit m k \<longleftrightarrow> k \<in> fst ` set (assign ce es)" and tracks: "ce_tracks ce tr"
  shows "ce_tracks (submitted ce es m) (tr @ submit_calls ce es m)"
  unfolding ce_tracks_def
proof (intro allI impI)
  fix ch i assume i: "ce_copy (submitted ce es m) (tr @ submit_calls ce es m) ch i"
  let ?new = "push_calls ce @ copy_calls ce (assign ce es)"
  have ch: "ch < num_channels ce" using i by (simp add: ce_copy_def submitted_def)
  have inj: "inj_on (ce_events ce) {..<num_channels ce}" using wf by (simp add: ce_wf_def)
  have sub: "set (mask_channels m) \<subseteq> {..<num_channels ce}"
    using m assign_channels [OF wf] by (force simp: set_mask_channels)
  have quiet: "\<not> is_record e c" if "c \<in> set ?new" for c e
    using that push_pop_no_record by (auto simp: copy_calls_def)
  have rec: "recorded (tr @ submit_calls ce es m) (ce_events ce ch) (ce_streams ce ch) i"
    if "bit m ch" "i < length (tr @ ?new)"
  proof -
    have "ch \<in> set (mask_channels m)" using that(1) ch ce_wf_small [OF wf] by (simp add: set_mask_channels)
    from recorded_record_calls [OF inj sub distinct_mask_channels this that(2)]
    have "recorded (((tr @ ?new) @ record_calls ce (mask_channels m)) @ pop_calls ce) (ce_events ce ch) (ce_streams ce ch) i"
      by (rule recorded_append) (rule push_pop_no_record)
    then show ?thesis by (simp add: submit_calls_def)
  qed
  have keep: "recorded (tr @ submit_calls ce es m) (ce_events ce ch) (ce_streams ce ch) i"
    if "\<not> bit m ch" "recorded tr (ce_events ce ch) (ce_streams ce ch) i"
  proof (rule recorded_append [OF that(2)])
    fix c assume "c \<in> set (submit_calls ce es m)"
    then consider "c \<in> set ?new" | "c \<in> set (pop_calls ce)" | "c \<in> set (record_calls ce (mask_channels m))"
      by (auto simp: submit_calls_def)
    then show "\<not> is_record (ce_events ce ch) c"
      using quiet push_pop_no_record record_calls_other [OF inj sub ch] that(1)
      by cases (blast, blast, simp add: set_mask_channels)
  qed
  show "settled (tr @ submit_calls ce es m) i \<or> bit (dirty_mask (submitted ce es m)) ch
      \<and> recorded (tr @ submit_calls ce es m) (ce_events (submitted ce es m) ch) (ce_streams (submitted ce es m) ch) i"
  proof (cases "i < length tr")
    case True
    then have "ce_copy ce tr ch i" using i by (simp add: ce_copy_def submitted_def nth_append)
    from ce_tracksD [OF tracks this] show ?thesis
      using settled_append rec keep True by (cases "bit m ch") (auto simp: submitted_def bit_or_iff)
  next
    case False
    let ?j = "i - length tr"
    obtain e where e: "submit_calls ce es m ! ?j = copy_on (ce_streams ce ch) e" "?j < length (submit_calls ce es m)"
      using i False by (auto simp: ce_copy_def submitted_def nth_append)
    have copy: "?j < length ?new" "bit m ch"
    proof -
      have tail: "copy_on s x \<notin> set (record_calls ce chs @ pop_calls ce)" for s x chs
        by (auto simp: record_calls_def copy_on_def pop_calls_def)
      show len: "?j < length ?new"
      proof (rule ccontr)
        assume "\<not> ?j < length ?new"
        then have "submit_calls ce es m ! ?j \<in> set (record_calls ce (mask_channels m) @ pop_calls ce)"
          using e(2) unfolding submit_calls_def by (metis append.assoc nth_append nth_mem length_append less_diff_conv2 add.commute leI)
        with e(1) tail show False by metis
      qed
      then have "copy_on (ce_streams ce ch) e \<in> set ?new"
        using e(1) unfolding submit_calls_def by (metis append.assoc nth_append nth_mem)
      then obtain p where p: "p \<in> set (assign ce es)" "ce_streams ce (fst p) = ce_streams ce ch"
        by (auto simp: copy_calls_def push_calls_def copy_on_def split: if_splits prod.splits)
      then have "fst p = ch" using wf ch assign_channels [OF wf p(1)] by (auto simp: ce_wf_def inj_on_def)
      with p(1) show "bit m ch" by (auto simp: m)
    qed
    with rec False show ?thesis by (auto simp: submitted_def bit_or_iff)
  qed
qed

section \<open>Waiting\<close>

lemma sync_events_success:
  "all_succeed drv \<Longrightarrow> sync_events drv chs ce tr = (CUDA_SUCCESS, ce, tr @ map (\<lambda>ch. EventSynchronize (ce_events ce ch)) chs)"
  by (induction chs arbitrary: tr) (simp_all add: ce_return_def)

definition wait_calls :: "nat \<Rightarrow> CopyEngineManager \<Rightarrow> nat list \<Rightarrow> trace" where
  "wait_calls stream ce chs = concat (map (\<lambda>ch. [EventRecord (ce_events ce ch) (ce_streams ce ch),
     StreamWaitEvent stream (ce_events ce ch)]) chs)"

lemma wait_on_channels_success:
  "all_succeed drv \<Longrightarrow> wait_on_channels drv stream chs ce tr = (CUDA_SUCCESS, ce, tr @ wait_calls stream ce chs)"
  by (induction chs arbitrary: tr) (simp_all add: ce_return_def wait_calls_def)

text \<open>A channel's event recorded before the synchronisation calls settles the copy.\<close>

lemma settled_sync_calls:
  assumes "recorded tr (ce_events ce ch) (ce_streams ce ch) i" "on_stream (ce_streams ce ch) (tr ! i)" "ch \<in> set chs"
  shows "settled (tr @ map (\<lambda>ch. EventSynchronize (ce_events ce ch)) chs) i"
proof -
  obtain a b where ab: "chs = a @ ch # b" using split_list [OF assms(3)] by blast
  let ?a = "map (\<lambda>ch. EventSynchronize (ce_events ce ch)) a"
  have rec: "recorded (tr @ ?a) (ce_events ce ch) (ce_streams ce ch) i"
    using assms(1) by (rule recorded_append) auto
  have "i < length tr" using assms(1) by (auto simp: recorded_def captures_def)
  then have "on_stream (ce_streams ce ch) ((tr @ ?a) ! i)" using assms(2) by (simp add: nth_append)
  from settled_append [OF settled_sync [OF rec this]] show ?thesis by (simp add: ab)
qed

lemma wait_settles:
  assumes "fst (wait_completion drv ce tr) = CUDA_SUCCESS" "ce_wf ce" "ce_tracks ce tr" "ce_copy ce tr ch i"
  shows "settled (snd (snd (wait_completion drv ce tr))) i"
proof (cases "dirty_mask ce = 0")
  case True
  with ce_tracksD [OF assms(3,4)] assms(2) show ?thesis by (simp add: wait_completion_def ce_return_def)
next
  case False
  let ?syncs = "map (\<lambda>ch. EventSynchronize (ce_events ce ch)) (mask_channels (dirty_mask ce))"
  have run: "wait_completion drv ce tr = (CUDA_SUCCESS, ce\<lparr>dirty_mask := 0\<rparr>, (tr @ push_calls ce) @ ?syncs @ pop_calls ce)"
    unfolding wait_completion_ok [OF assms(1)] using False assms(2)
    by (simp add: wait_completion_def ce_wf_def sync_events_success ce_return_def pop_calls_def)
  have "settled (((tr @ push_calls ce) @ ?syncs) @ pop_calls ce) i"
  proof (cases "settled tr i")
    case False
    with ce_tracksD [OF assms(3,4)] have d: "bit (dirty_mask ce) ch"
      and r: "recorded tr (ce_events ce ch) (ce_streams ce ch) i" by simp_all
    have i: "i < length tr" using r by (auto simp: recorded_def captures_def)
    have "recorded (tr @ push_calls ce) (ce_events ce ch) (ce_streams ce ch) i"
      using r by (rule recorded_append) (rule push_pop_no_record)
    moreover have "on_stream (ce_streams ce ch) ((tr @ push_calls ce) ! i)"
      using ce_copy_stream [OF assms(4)] i by (simp add: nth_append)
    moreover have "ch \<in> set (mask_channels (dirty_mask ce))"
      using d assms(2) ce_wf_small [of ce] by (fastforce simp: set_mask_channels ce_wf_def)
    ultimately show ?thesis by (intro settled_append settled_sync_calls)
  qed (simp add: settled_append)
  with run show ?thesis by simp
qed

lemma wait_result:
  assumes "fst (wait_completion drv ce tr) = CUDA_SUCCESS" "ce_wf ce"
  shows "fst (snd (wait_completion drv ce tr)) = ce\<lparr>dirty_mask := 0\<rparr>"
    and "ce_wf (fst (snd (wait_completion drv ce tr)))"
  unfolding wait_completion_ok [OF assms(1)] using assms(2)
  by (simp_all add: wait_completion_def ce_wf_def sync_events_success ce_return_def)

text \<open>A stream made to wait runs its later work after every unsettled copy.\<close>

lemma ordered_wait_calls:
  assumes "i < length tr" "on_stream (ce_streams ce ch) (tr ! i)" "ch \<in> set chs"
    and "T = tr @ wait_calls stream ce chs @ rest"
    and "length tr + length (wait_calls stream ce chs) \<le> l" "l < length T" "on_stream stream (T ! l)"
  shows "ordered_before T i l"
proof -
  obtain a b where ab: "chs = a @ ch # b" using split_list [OF assms(3)] by blast
  let ?p = "tr @ wait_calls stream ce a" and ?e = "ce_events ce ch" and ?s = "ce_streams ce ch"
  have T: "T = ?p @ EventRecord ?e ?s # StreamWaitEvent stream ?e # wait_calls stream ce b @ rest"
    using assms(4) by (simp add: ab wait_calls_def)
  have nth: "T ! length ?p = EventRecord ?e ?s" "T ! Suc (length ?p) = StreamWaitEvent stream ?e"
    unfolding T by (simp_all only: nth_append_length nth_append_length_plus nth_append) simp_all
  have "captures T ?e ?s (length ?p) (Suc (length ?p))"
    using nth(1) by (auto simp: captures_def T)
  moreover have "on_stream ?s (T ! i)" "i < length ?p" using assms(1,2) by (simp_all add: T nth_append)
  moreover have "Suc (length ?p) < l" using assms(5) by (simp add: ab wait_calls_def)
  ultimately show ?thesis
    using nth(2) assms(6,7) unfolding ordered_before_def by blast
qed

lemma make_stream_wait_run:
  assumes "fst (make_stream_wait_on_all drv stream ce tr) = CUDA_SUCCESS" "ce_wf ce" "dirty_mask ce \<noteq> 0"
  shows "make_stream_wait_on_all drv stream ce tr = (CUDA_SUCCESS, ce,
    (tr @ push_calls ce) @ wait_calls stream ce (mask_channels (dirty_mask ce)) @ pop_calls ce)"
  unfolding make_stream_wait_on_all_ok [OF assms(1)] using assms(2,3)
  by (simp add: make_stream_wait_on_all_def ce_wf_def wait_on_channels_success ce_return_def pop_calls_def)

lemma make_stream_wait_orders:
  assumes ok: "fst (make_stream_wait_on_all drv stream ce tr) = CUDA_SUCCESS"
    and wf: "ce_wf ce" and tracks: "ce_tracks ce tr" and copy: "ce_copy ce tr ch i"
    and T: "T = snd (snd (make_stream_wait_on_all drv stream ce tr)) @ rest"
    and l: "length (snd (snd (make_stream_wait_on_all drv stream ce tr))) \<le> l" "l < length T" "on_stream stream (T ! l)"
  shows "settled tr i \<or> ordered_before T i l"
proof (cases "settled tr i")
  case False
  with ce_tracksD [OF tracks copy] have d: "bit (dirty_mask ce) ch" by simp
  then have nz: "dirty_mask ce \<noteq> 0" by auto
  note run = make_stream_wait_run [OF ok wf nz]
  let ?w = "wait_calls stream ce (mask_channels (dirty_mask ce))"
  have i: "i < length tr" using copy by (simp add: ce_copy_def)
  have "ordered_before T i l"
  proof (rule ordered_wait_calls [of i "tr @ push_calls ce" ce ch "mask_channels (dirty_mask ce)" T stream "pop_calls ce @ rest" l])
    show "on_stream (ce_streams ce ch) ((tr @ push_calls ce) ! i)"
      using ce_copy_stream [OF copy] i by (simp add: nth_append)
    show "ch \<in> set (mask_channels (dirty_mask ce))"
      using d wf ce_wf_small [of ce] by (fastforce simp: set_mask_channels ce_wf_def)
  qed (use i T l run in simp_all)
  then show ?thesis ..
qed simp

text \<open>The invariant through calls that concern other streams and events, and through both waits.\<close>

definition quiet_for :: "CopyEngineManager \<Rightarrow> trace \<Rightarrow> bool" where
  "quiet_for ce tr \<longleftrightarrow> (\<forall>c\<in>set tr. \<forall>ch<num_channels ce. \<not> is_record (ce_events ce ch) c \<and> (\<forall>e. c \<noteq> copy_on (ce_streams ce ch) e))"

lemma tracks_quiet:
  assumes "ce_tracks ce tr" "quiet_for ce new"
  shows "ce_tracks ce (tr @ new)"
  unfolding ce_tracks_def
proof (intro allI impI)
  fix ch i assume i: "ce_copy ce (tr @ new) ch i"
  have lt: "i < length tr"
  proof (rule ccontr)
    assume "\<not> i < length tr"
    then have "(tr @ new) ! i \<in> set new" using i by (auto simp: ce_copy_def nth_append intro!: nth_mem)
    with i assms(2) show False unfolding ce_copy_def quiet_for_def by blast
  qed
  have ch: "ch < num_channels ce" using i by (simp add: ce_copy_def)
  have "\<not> is_record (ce_events ce ch) c" if "c \<in> set new" for c using that assms(2) ch by (simp add: quiet_for_def)
  then show "settled (tr @ new) i \<or> bit (dirty_mask ce) ch \<and> recorded (tr @ new) (ce_events ce ch) (ce_streams ce ch) i"
    using ce_tracksD [OF assms(1) ce_copy_append [OF i lt]] settled_append recorded_append by blast
qed

lemma quiet_push_pop: "quiet_for ce (push_calls ce')" "quiet_for ce (pop_calls ce')"
  by (auto simp: quiet_for_def push_calls_def pop_calls_def copy_on_def split: if_splits)

lemma tracks_wait:
  assumes "fst (wait_completion drv ce tr) = CUDA_SUCCESS" "ce_wf ce" "ce_tracks ce tr"
  shows "ce_tracks (fst (snd (wait_completion drv ce tr))) (snd (snd (wait_completion drv ce tr)))"
    and "ce_copy ce (snd (snd (wait_completion drv ce tr))) ch i \<Longrightarrow> settled (snd (snd (wait_completion drv ce tr))) i"
proof -
  let ?tr = "snd (snd (wait_completion drv ce tr))"
  have app: "\<exists>new. ?tr = tr @ new \<and> (\<forall>c\<in>set new. \<forall>s e. c \<noteq> copy_on s e)"
  proof (cases "dirty_mask ce = 0")
    case True
    then show ?thesis by (simp add: wait_completion_def ce_return_def)
  next
    case False
    have "?tr = tr @ push_calls ce @ map (\<lambda>ch. EventSynchronize (ce_events ce ch)) (mask_channels (dirty_mask ce)) @ pop_calls ce"
      unfolding wait_completion_ok [OF assms(1)] using False assms(2)
      by (simp add: wait_completion_def ce_wf_def sync_events_success ce_return_def pop_calls_def)
    then show ?thesis by (auto simp: push_calls_def pop_calls_def copy_on_def split: if_splits)
  qed
  then obtain new where new: "?tr = tr @ new" "\<forall>c\<in>set new. \<forall>s e. c \<noteq> copy_on s e" by blast
  show all: "settled ?tr i" if "ce_copy ce ?tr ch i" for ch i
  proof -
    have "i < length tr"
    proof (rule ccontr)
      assume "\<not> i < length tr"
      then have "?tr ! i \<in> set new" using that new(1) by (auto simp: ce_copy_def nth_append intro!: nth_mem)
      with that new(2) show False unfolding ce_copy_def by blast
    qed
    then have "ce_copy ce tr ch i" using that new(1) by (simp add: ce_copy_append)
    then show ?thesis by (rule wait_settles [OF assms])
  qed
  have "ce_copy (ce\<lparr>dirty_mask := 0\<rparr>) T ch i = ce_copy ce T ch i" for T ch i by (simp add: ce_copy_def)
  then show "ce_tracks (fst (snd (wait_completion drv ce tr))) ?tr"
    unfolding wait_result(1) [OF assms(1,2)] ce_tracks_def using all by blast
qed

lemma tracks_stream_wait:
  assumes "fst (make_stream_wait_on_all drv stream ce tr) = CUDA_SUCCESS" "ce_wf ce" "ce_tracks ce tr"
  shows "ce_tracks ce (snd (snd (make_stream_wait_on_all drv stream ce tr)))"
proof (cases "dirty_mask ce = 0")
  case True
  then show ?thesis using assms(3) by (simp add: make_stream_wait_on_all_def ce_return_def)
next
  case False
  have inj: "inj_on (ce_events ce) {..<num_channels ce}" using assms(2) by (simp add: ce_wf_def)
  have step: "ce_tracks ce (T @ [EventRecord (ce_events ce ch) (ce_streams ce ch), StreamWaitEvent stream (ce_events ce ch)])"
    if "ce_tracks ce T" "ch < num_channels ce" for T ch
    unfolding ce_tracks_def
  proof (intro allI impI)
    fix c i assume i: "ce_copy ce (T @ [EventRecord (ce_events ce ch) (ce_streams ce ch), StreamWaitEvent stream (ce_events ce ch)]) c i"
    then have lt: "i < length T" by (auto simp: ce_copy_def nth_append copy_on_def less_Suc_eq nth_Cons split: if_splits nat.splits)
    have c: "c < num_channels ce" using i by (simp add: ce_copy_def)
    have "recorded (T @ [EventRecord (ce_events ce ch) (ce_streams ce ch), StreamWaitEvent stream (ce_events ce ch)]) (ce_events ce c) (ce_streams ce c) i"
      if "recorded T (ce_events ce c) (ce_streams ce c) i"
    proof (cases "c = ch")
      case True
      from recorded_append [OF recorded_record [OF lt], of "[StreamWaitEvent stream (ce_events ce ch)]"] True show ?thesis by simp
    next
      case False
      then have "ce_events ce c \<noteq> ce_events ce ch" using inj c \<open>ch < num_channels ce\<close> by (metis inj_onD lessThan_iff)
      then show ?thesis using that by (intro recorded_append) auto
    qed
    with ce_tracksD [OF \<open>ce_tracks ce T\<close> ce_copy_append [OF i lt]] settled_append
    show "settled (T @ [EventRecord (ce_events ce ch) (ce_streams ce ch), StreamWaitEvent stream (ce_events ce ch)]) i
      \<or> bit (dirty_mask ce) c \<and> recorded (T @ [EventRecord (ce_events ce ch) (ce_streams ce ch), StreamWaitEvent stream (ce_events ce ch)])
          (ce_events ce c) (ce_streams ce c) i" by blast
  qed
  have "ce_tracks ce (T @ wait_calls stream ce chs)" if "ce_tracks ce T" "set chs \<subseteq> {..<num_channels ce}" for T chs
    using that
  proof (induction chs arbitrary: T)
    case (Cons ch chs)
    from Cons.IH [OF step [OF Cons.prems(1)]] Cons.prems(2) show ?case by (simp add: wait_calls_def)
  qed (simp add: wait_calls_def)
  from tracks_quiet [OF this [OF tracks_quiet [OF assms(3) quiet_push_pop(1)] mask_of_wf [OF assms(2)]] quiet_push_pop(2)]
  show ?thesis using make_stream_wait_run [OF assms(1,2) False] by simp
qed

section \<open>The shared event of \<open>record_event_on_last_stream\<close>\<close>

text \<open>After a submission of one entry, the last stream is the one the entry went to.\<close>

lemma last_stream_single:
  assumes "all_succeed drv" "ce_wf ce"
    and "submit_scatter_gather drv [e] ce tr = (r, ce1, tr1)"
    and "record_event_on_last_stream drv ev ce1 tr1 = (r2, ce2, tr2)"
  obtains i where "length tr \<le> i" "tr2 ! i = copy_on (ce_streams ce (next_channel ce)) e"
    "recorded tr2 ev (ce_streams ce (next_channel ce)) i"
proof -
  obtain m where m: "submit_scatter_gather drv [e] ce tr = (CUDA_SUCCESS, submitted ce [e] m, tr @ submit_calls ce [e] m)"
    by (rule submit_success [OF assms(1,2), of "[e]" tr]) auto
  let ?c = "next_channel ce" and ?n = "num_channels ce"
  have n: "0 < ?n" "?c < ?n" using assms(2) by (simp_all add: ce_wf_def)
  have last: "(next_after ce [e] + ?n - 1) mod ?n = ?c"
  proof (cases "Suc ?c = ?n")
    case True
    with n show ?thesis by (simp add: next_after_def)
  next
    case False
    with n show ?thesis by (simp add: next_after_def)
  qed
  have tr2: "tr2 = (tr @ submit_calls ce [e] m) @ [EventRecord ev (ce_streams ce ?c)]"
    using assms last m by (auto simp: record_event_on_last_stream_def submitted_def ce_wf_def Let_def ce_return_def)
  have asg: "assign ce [e] = [(?c, e)]" using n by (simp add: assign_def)
  let ?i = "length tr + length (push_calls ce)"
  have "tr2 ! ?i = copy_on (ce_streams ce ?c) e"
    unfolding tr2 by (simp add: submit_calls_def asg copy_calls_def nth_append)
  moreover have "?i < length (tr @ submit_calls ce [e] m)" by (simp add: submit_calls_def asg copy_calls_def)
  then have "recorded tr2 ev (ce_streams ce ?c) ?i" unfolding tr2 by (rule recorded_record)
  ultimately show ?thesis using that [of ?i] by simp
qed

text \<open>After four entries on three channels it is a stream that got no entry: the first two channels get
  two entries each, and the event is recorded on the third.\<close>

lemma last_stream_idle:
  assumes "all_succeed drv" "ce_wf ce" "num_channels ce = 3" "length es = 4"
    and "submit_scatter_gather drv es ce tr = (r, ce1, tr1)"
    and "record_event_on_last_stream drv ev ce1 tr1 = (r2, ce2, tr2)"
  shows "tr2 = tr1 @ [EventRecord ev (ce_streams ce 2)]"
    and "\<exists>new. tr1 = tr @ new \<and> copies new = es \<and> (\<forall>e. copy_on (ce_streams ce 2) e \<notin> set new)"
proof -
  have "es \<noteq> []" using assms(4) by auto
  then obtain m where m: "submit_scatter_gather drv es ce tr = (CUDA_SUCCESS, submitted ce es m, tr @ submit_calls ce es m)"
    by (rule submit_success [OF assms(1,2), of es tr]) auto
  show "tr2 = tr1 @ [EventRecord ev (ce_streams ce 2)]"
    using assms m by (auto simp: record_event_on_last_stream_def submitted_def ce_wf_def Let_def ce_return_def next_after_def)
  have "fst p < 2" if "p \<in> set (assign ce es)" for p
  proof -
    have "chunk_size ce es = 2" using assms(3,4) by (simp add: chunk_size_def)
    then have "assign ce es = concat (map (\<lambda>ch. map (Pair ch) (piece es 2 ch)) [0, 1, 2])"
      using assms(3,4) by (simp add: assign_def upt_rec flip: numeral_2_eq_2)
    then show ?thesis using that assms(4) by (auto simp: piece_def)
  qed
  moreover have "ce_streams ce ch \<noteq> ce_streams ce 2" if "ch < 2" for ch
    using that assms(2,3) inj_onD [of "ce_streams ce" "{..<3}" ch 2] by (auto simp: ce_wf_def)
  ultimately have "ce_streams ce (fst p) \<noteq> ce_streams ce 2" if "p \<in> set (assign ce es)" for p using that by blast
  then have "copy_on (ce_streams ce 2) e \<notin> set (submit_calls ce es m)" for e
    by (auto simp: submit_calls_def copy_calls_def record_calls_def push_calls_def pop_calls_def copy_on_def) blast
  moreover have "tr1 = tr @ submit_calls ce es m" using assms(5) m by simp
  ultimately show "\<exists>new. tr1 = tr @ new \<and> copies new = es \<and> (\<forall>e. copy_on (ce_streams ce 2) e \<notin> set new)"
    using copies_submit_calls [OF assms(2)] by blast
qed

section \<open>Initialisation\<close>

text \<open>Live handles are distinct: documented for handles that are not destroyed in between.\<close>

fun destroys :: "cu_call \<Rightarrow> bool" where
  "destroys (StreamDestroy s) \<longleftrightarrow> True"
| "destroys (EventDestroy e) \<longleftrightarrow> True"
| "destroys _ \<longleftrightarrow> False"

definition fresh_handles :: "cu_driver \<Rightarrow> bool" where
  "fresh_handles drv \<longleftrightarrow> (\<forall>tr tr' p p'. (\<forall>c\<in>set tr'. \<not> destroys c) \<longrightarrow>
     snd (drv tr (StreamCreateWithPriority p)) \<noteq> snd (drv (tr @ StreamCreateWithPriority p # tr') (StreamCreateWithPriority p'))
     \<and> snd (drv tr EventCreate) \<noteq> snd (drv (tr @ EventCreate # tr') EventCreate))"

lemma fresh_streamD: "fresh_handles drv \<Longrightarrow> \<forall>c\<in>set tr'. \<not> destroys c \<Longrightarrow>
    snd (drv tr (StreamCreateWithPriority p)) \<noteq> snd (drv (tr @ StreamCreateWithPriority p # tr') (StreamCreateWithPriority p'))"
  and fresh_eventD: "fresh_handles drv \<Longrightarrow> \<forall>c\<in>set tr'. \<not> destroys c \<Longrightarrow>
    snd (drv tr EventCreate) \<noteq> snd (drv (tr @ EventCreate # tr') EventCreate)"
  unfolding fresh_handles_def by blast+

lemma init_distinct:
  assumes "fresh_handles drv"
  shows "i < j \<Longrightarrow> T = (\<lambda>k. tr @ concat (replicate k [StreamCreateWithPriority p, EventCreate]))
      \<Longrightarrow> snd (drv (T i) (StreamCreateWithPriority p)) \<noteq> snd (drv (T j) (StreamCreateWithPriority p))"
    and "i < j \<Longrightarrow> T = (\<lambda>k. tr @ concat (replicate k [StreamCreateWithPriority p, EventCreate]))
      \<Longrightarrow> snd (drv (T i @ [StreamCreateWithPriority p]) EventCreate) \<noteq> snd (drv (T j @ [StreamCreateWithPriority p]) EventCreate)"
proof -
  have split: "\<exists>xs. tr @ concat (replicate j [S, E]) = (tr @ concat (replicate i [S, E])) @ S # E # xs
      \<and> (\<forall>c\<in>set xs. \<not> destroys c)" if "i < j" "\<not> destroys S" "\<not> destroys E" for i j S E
  proof -
    from that obtain d where "j = i + Suc d" using less_imp_Suc_add by auto
    then show ?thesis using that by (intro exI [of _ "concat (replicate d [S, E])"]) (simp only: \<open>j = i + Suc d\<close> replicate_add replicate_Suc concat_append, auto)
  qed
  assume ij: "i < j" and T: "T = (\<lambda>k. tr @ concat (replicate k [StreamCreateWithPriority p, EventCreate]))"
  obtain xs where xs: "T j = T i @ StreamCreateWithPriority p # EventCreate # xs" "\<forall>c\<in>set xs. \<not> destroys c"
    using split [OF ij, of "StreamCreateWithPriority p" EventCreate] T by auto
  show "snd (drv (T i) (StreamCreateWithPriority p)) \<noteq> snd (drv (T j) (StreamCreateWithPriority p))"
    using fresh_streamD [OF assms, of "EventCreate # xs" "T i" p p] xs by simp
  show "snd (drv (T i @ [StreamCreateWithPriority p]) EventCreate) \<noteq> snd (drv (T j @ [StreamCreateWithPriority p]) EventCreate)"
    using fresh_eventD [OF assms, of "xs @ [StreamCreateWithPriority p]" "T i @ [StreamCreateWithPriority p]"] xs by simp
qed

lemma init_channels_append:
  "init_channels drv p (xs @ ys) ce tr = (case init_channels drv p xs ce tr of (r, ce', tr') \<Rightarrow>
     if r \<noteq> CUDA_SUCCESS then (r, ce', tr') else init_channels drv p ys ce' tr')"
  by (induction xs arbitrary: ce tr) (auto simp: ce_return_def Let_def split: prod.splits)

lemma init_channels_success:
  assumes "all_succeed drv" "T = (\<lambda>k. tr @ concat (replicate k [StreamCreateWithPriority p, EventCreate]))"
  shows "\<exists>st ev. init_channels drv p [0..<n] ce tr = (CUDA_SUCCESS, ce\<lparr>ce_streams := st, ce_events := ev\<rparr>, T n)
     \<and> (\<forall>i<n. st i = snd (drv (T i) (StreamCreateWithPriority p)) \<and> ev i = snd (drv (T i @ [StreamCreateWithPriority p]) EventCreate))"
proof (induction n)
  case 0
  show ?case by (rule exI [of _ "ce_streams ce"], rule exI [of _ "ce_events ce"]) (simp add: ce_return_def assms(2))
next
  case (Suc n)
  let ?S = "StreamCreateWithPriority p"
  obtain st ev where IH: "init_channels drv p [0..<n] ce tr = (CUDA_SUCCESS, ce\<lparr>ce_streams := st, ce_events := ev\<rparr>, T n)"
    "\<forall>i<n. st i = snd (drv (T i) ?S) \<and> ev i = snd (drv (T i @ [?S]) EventCreate)" using Suc.IH by blast
  have "T (Suc n) = T n @ [?S, EventCreate]" using replicate_append_same [of n "[?S, EventCreate]"] 
    by (simp add: assms(2) flip: concat_append) (metis append.simps concat.simps concat_append append_Nil2)
  with IH assms(1) show ?case
    by - (rule exI [of _ "st(n := snd (drv (T n) ?S))"], rule exI [of _ "ev(n := snd (drv (T n @ [?S]) EventCreate))"],
      simp add: init_channels_append ce_return_def Let_def less_Suc_eq, simp add: fun_upd_def)
qed

lemma ce_init_success:
  assumes "all_succeed drv" "fresh_handles drv" "copies tr = []"
    and "ce_init drv ctx num new_manager tr = (r, ce, tr')"
  shows "r = CUDA_SUCCESS" and "ce_wf ce" and "ce_tracks ce tr'" and "dirty_mask ce = 0"
    and "num_channels ce = (if 0 < num \<and> num \<le> 3 then nat num else 3)"
proof -
  let ?n = "if 0 < num \<and> num \<le> 3 then nat num else 3"
  let ?tr1 = "tr @ [CtxPushCurrent ctx, CtxGetStreamPriorityRange]"
  let ?p = "snd (drv (tr @ [CtxPushCurrent ctx]) CtxGetStreamPriorityRange)"
  let ?ce = "new_manager\<lparr>ce_ctx := ctx, num_channels := ?n\<rparr>"
  define T where "T = (\<lambda>k. ?tr1 @ concat (replicate k [StreamCreateWithPriority ?p, EventCreate]))"
  have n: "?n \<le> 3" "0 < ?n" by auto
  obtain st ev where run: "init_channels drv ?p [0..<?n] ?ce ?tr1 =
      (CUDA_SUCCESS, ?ce\<lparr>ce_streams := st, ce_events := ev\<rparr>, T ?n)"
    and st: "\<forall>i<?n. st i = snd (drv (T i) (StreamCreateWithPriority ?p))"
    and ev: "\<forall>i<?n. ev i = snd (drv (T i @ [StreamCreateWithPriority ?p]) EventCreate)"
    using init_channels_success [OF assms(1) T_def, of ?n ?ce] by blast
  have start: "(let ce1 = new_manager\<lparr>ce_ctx := ctx\<rparr> in if 0 < num \<and> num \<le> int MAX_CE_CHANNELS then ce1\<lparr>num_channels := nat num\<rparr>
      else ce1) = ?ce" by (simp add: MAX_CE_CHANNELS_def new_manager_def Let_def)
  have fin: "ce_initialized new_manager = False" by (simp add: new_manager_def)
  have res: "r = CUDA_SUCCESS" "ce = ?ce\<lparr>ce_streams := st, ce_events := ev, ce_initialized := True\<rparr>"
    "tr' = T ?n @ [CtxPopCurrent]"
    using assms(1,4) run start unfolding ce_init_def fin Let_def if_False
    by (simp_all only:) (auto simp: ce_return_def)
  have neq: "st i \<noteq> st j" "ev i \<noteq> ev j" if "i < j" "j < ?n" for i j
    using init_distinct [OF assms(2) that(1) T_def] st ev that n(1) by (metis less_trans less_le_trans)+
  have "inj_on st {..<?n}" "inj_on ev {..<?n}"
    using neq by (auto simp: inj_on_def) (metis linorder_neqE_nat)+
  then show "r = CUDA_SUCCESS" "ce_wf ce" "dirty_mask ce = 0" "num_channels ce = ?n"
    using n res by (auto simp: ce_wf_def new_manager_def MAX_CE_CHANNELS_def)
  have "copies (T k) = []" for k using assms(3) by (induction k) (simp_all add: T_def)
  then have "copies tr' = []" using res(3) by simp
  then have "\<not> ce_copy ce tr' ch i" for ch i
    unfolding ce_copy_def by (metis append_Cons append_Nil copies_append copies_copy_on id_take_nth_drop list.distinct(1) append_is_Nil_conv)
  then show "ce_tracks ce tr'" by (simp add: ce_tracks_def)
qed

end
