(* ===== verification/Engine_Properties.thy ===== *)
theory Engine_Properties
  imports Copy_Engine
begin

text \<open>
  The properties of \<open>CopyEngineManager\<close>: what a submission issues, the tracking invariant, what the two waits
  guarantee under the documented CUDA ordering, how errors are reported, and how far the event of
  \<open>record_event_on_last_stream\<close> reaches.
\<close>

section \<open>Example engine\<close>

definition example_driver :: cu_driver where
  "example_driver tr c = (CUDA_SUCCESS, length tr + 1)"

definition example_engine :: CopyEngineManager where
  "example_engine = new_manager\<lparr>ce_streams := \<lambda>ch. 10 + ch, ce_events := \<lambda>ch. 20 + ch, ce_initialized := True\<rparr>"

definition example_entry :: SGEntry where
  "example_entry = \<lparr>sg_dst = 4096, sg_src = 100, sg_size = 4\<rparr>"

lemma example_driver_ok: "all_succeed example_driver"
  by (simp add: all_succeed_def example_driver_def)

lemma example_driver_fresh: "fresh_handles example_driver"
  by (simp add: fresh_handles_def example_driver_def)

lemma example_engine_wf: "ce_wf example_engine"
  by (simp add: ce_wf_def example_engine_def new_manager_def MAX_CE_CHANNELS_def inj_on_def)

lemma example_engine_tracks: "ce_tracks example_engine []"
  by (simp add: ce_tracks_def ce_copy_def)

text \<open>One copy issued and recorded on channel 0, not yet waited for.\<close>

definition busy_engine :: CopyEngineManager where
  "busy_engine = example_engine\<lparr>dirty_mask := 1, context_pinned := True\<rparr>"

definition busy_trace :: trace where
  "busy_trace = [copy_on 10 example_entry, EventRecord 20 10]"

lemma busy_engine_wf: "ce_wf busy_engine"
  using example_engine_wf by (auto simp: busy_engine_def ce_wf_def bit_1_iff)

lemma busy_copy: "ce_copy busy_engine busy_trace ch i \<longleftrightarrow> ch = 0 \<and> i = 0"
proof
  assume "ce_copy busy_engine busy_trace ch i"
  then show "ch = 0 \<and> i = 0"
    by (auto simp: ce_copy_def busy_engine_def busy_trace_def example_engine_def new_manager_def MAX_CE_CHANNELS_def copy_on_def
        nth_Cons less_Suc_eq split: nat.splits)
next
  assume "ch = 0 \<and> i = 0"
  then show "ce_copy busy_engine busy_trace ch i"
    by (auto simp: ce_copy_def busy_engine_def busy_trace_def example_engine_def new_manager_def MAX_CE_CHANNELS_def)
qed

lemma busy_engine_tracks: "ce_tracks busy_engine busy_trace"
proof -
  have "recorded ([copy_on 10 example_entry] @ [EventRecord 20 10]) 20 10 0" by (rule recorded_record) simp
  moreover have "bit (dirty_mask busy_engine) 0" "ce_events busy_engine 0 = 20" "ce_streams busy_engine 0 = 10"
    by (simp_all add: busy_engine_def example_engine_def)
  ultimately show ?thesis unfolding ce_tracks_def busy_copy by (simp add: busy_trace_def)
qed

section \<open>Submission\<close>

text \<open>A submission that reports success has issued exactly the given copies, once each and in the order of the entries, whichever
  assignment strategy it used; the manager stays well-formed and counts them.\<close>

theorem submission_issues_entries:
  assumes "ce_wf ce" "submit_scatter_gather drv es ce tr = (CUDA_SUCCESS, ce', tr')"
  shows "(\<exists>new. tr' = tr @ new \<and> copies new = es) \<and> ce_wf ce' \<and> total_bytes ce' = total_bytes ce + bytes es
    \<and> total_entries ce' = total_entries ce + of_nat (length es)"
proof -
  have run: "submit_scatter_gather (ok_driver drv) es ce tr = (CUDA_SUCCESS, ce', tr')"
    using submit_ok [of drv es ce tr] assms(2) by simp
  show ?thesis
  proof (cases "es = []")
    case True
    then show ?thesis using run assms(1) by (simp add: submit_Nil)
  next
    case False
    obtain m where "submit_scatter_gather (ok_driver drv) es ce tr = (CUDA_SUCCESS, submitted ce es m, tr @ submit_calls ce es m)"
      and "\<And>k. bit m k \<longleftrightarrow> k \<in> fst ` set (assign ce es)"
      using submit_success [OF all_succeed_ok assms(1) False] by metis
    then show ?thesis using run copies_submit_calls [OF assms(1)] submitted_wf [OF assms(1)] by (auto simp: submitted_def)
  qed
qed

theorem submission_issues_entries_witness:
  "\<exists>new. snd (snd (submit_scatter_gather example_driver [example_entry] example_engine [])) = [] @ new \<and> copies new = [example_entry]"
proof -
  obtain m where "submit_scatter_gather example_driver [example_entry] example_engine [] =
      (CUDA_SUCCESS, submitted example_engine [example_entry] m, [] @ submit_calls example_engine [example_entry] m)"
    by (rule submit_success [OF example_driver_ok example_engine_wf, of "[example_entry]" "[]"]) auto
  with submission_issues_entries [OF example_engine_wf this] show ?thesis by simp
qed

text \<open>The tracking invariant: every copy on a copy-engine stream is settled, or its channel is dirty and the channel's event was recorded after it.
  A successful submission keeps it.\<close>

theorem submission_keeps_tracking:
  assumes "ce_wf ce" "ce_tracks ce tr" "submit_scatter_gather drv es ce tr = (CUDA_SUCCESS, ce', tr')"
  shows "ce_tracks ce' tr'"
proof (cases "es = []")
  case True
  then show ?thesis using assms by (simp add: submit_Nil)
next
  case False
  have run: "submit_scatter_gather (ok_driver drv) es ce tr = (CUDA_SUCCESS, ce', tr')"
    using submit_ok [of drv es ce tr] assms(3) by simp
  obtain m where "submit_scatter_gather (ok_driver drv) es ce tr = (CUDA_SUCCESS, submitted ce es m, tr @ submit_calls ce es m)"
    and b: "\<And>k. bit m k \<longleftrightarrow> k \<in> fst ` set (assign ce es)"
    using submit_success [OF all_succeed_ok assms(1) False] by metis
  then show ?thesis using run submitted_tracks [OF assms(1) b assms(2)] by simp
qed

theorem submission_keeps_tracking_witness:
  "\<exists>ce' tr'. submit_scatter_gather example_driver [example_entry] example_engine [] = (CUDA_SUCCESS, ce', tr') \<and> ce_tracks ce' tr'"
proof -
  obtain m where "submit_scatter_gather example_driver [example_entry] example_engine [] =
      (CUDA_SUCCESS, submitted example_engine [example_entry] m, [] @ submit_calls example_engine [example_entry] m)"
    by (rule submit_success [OF example_driver_ok example_engine_wf, of "[example_entry]" "[]"]) auto
  with submission_keeps_tracking [OF example_engine_wf example_engine_tracks this] show ?thesis by simp
qed

section \<open>Waiting\<close>

text \<open>C6: In a state of the engine that tracks its copies (\<open>ce_tracks\<close>: every copy is already waited for, or its channel is dirty and an
  event is recorded behind it, as after \<open>init\<close> and every successful submission, but not after a submission that failed midway), when
  \<open>wait_completion\<close> reports success, every copy issued on the copy-engine streams has completed: under the documented
  stream and event order, the host is past a synchronisation that comes after the copy. No channel stays dirty.\<close>

theorem wait_completion_completes:
  assumes "ce_wf ce" "ce_tracks ce tr" "wait_completion drv ce tr = (CUDA_SUCCESS, ce', tr')"
    and "cuda_order tr' before" "ce_copy ce tr ch i"
  shows "host_knows tr' before i \<and> dirty_mask ce' = 0"
proof -
  have ok: "fst (wait_completion drv ce tr) = CUDA_SUCCESS" using assms(3) by simp
  from wait_settles [OF ok assms(1,2,5)] have "settled tr' i" using assms(3) by simp
  then have "host_knows tr' before i" using assms(4) by (rule settled_host_knows)
  moreover have "dirty_mask ce' = 0" using wait_result(1) [OF ok assms(1)] assms(3) by simp
  ultimately show ?thesis by blast
qed

theorem wait_completion_completes_witness:
  "host_knows (snd (snd (wait_completion example_driver busy_engine busy_trace))) (<) 0"
proof -
  let ?w = "wait_completion example_driver busy_engine busy_trace"
  have "fst ?w = CUDA_SUCCESS" using example_driver_ok by (simp add: wait_completion_def sync_events_success ce_return_def)
  then have "?w = (CUDA_SUCCESS, fst (snd ?w), snd (snd ?w))" by (metis prod.collapse)
  from wait_completion_completes [OF busy_engine_wf busy_engine_tracks this cuda_order_issue, of 0 0]
  show ?thesis by (simp add: busy_copy)
qed

text \<open>C23: In a state of the engine that tracks its copies (\<open>ce_tracks\<close>, so not after a submission that failed midway), after
  \<open>make_stream_wait_on_all\<close> has succeeded any later work on the given stream runs after every copy issued so far on the copy-engine streams:
  either the host already knew the copy complete, or the copy is ordered before that work.\<close>

theorem stream_wait_orders_later_work:
  assumes "ce_wf ce" "ce_tracks ce tr" "make_stream_wait_on_all drv st ce tr = (CUDA_SUCCESS, ce', tr')"
    and "cuda_order (tr' @ rest) before" "ce_copy ce tr ch i"
    and "length tr' \<le> l" "l < length (tr' @ rest)" "on_stream st ((tr' @ rest) ! l)"
  shows "host_knows tr before i \<or> before i l"
proof -
  have ok: "fst (make_stream_wait_on_all drv st ce tr) = CUDA_SUCCESS" and tr': "snd (snd (make_stream_wait_on_all drv st ce tr)) = tr'"
    using assms(3) by simp_all
  have "\<exists>ws. tr' = tr @ ws"
  proof (cases "dirty_mask ce = 0")
    case True
    then show ?thesis using assms(3) by (simp add: make_stream_wait_on_all_def ce_return_def)
  next
    case False
    then show ?thesis using make_stream_wait_run [OF ok assms(1)] assms(3) by auto
  qed
  then obtain ws where ws: "tr' = tr @ ws" by blast
  consider "settled tr i" | "ordered_before (tr' @ rest) i l"
    using make_stream_wait_orders [OF ok assms(1,2,5), of "tr' @ rest" rest l] assms(6-8) tr' by auto
  then show ?thesis
  proof cases
    case 1
    have "cuda_order tr before" using cuda_order_prefix [of tr "ws @ rest"] assms(4) ws by simp
    with 1 settled_host_knows show ?thesis by blast
  next
    case 2
    then show ?thesis using ordered_before_holds assms(4) by blast
  qed
qed

theorem stream_wait_orders_later_work_witness:
  "snd (snd (make_stream_wait_on_all example_driver 7 busy_engine busy_trace)) = busy_trace @ [EventRecord 20 10, StreamWaitEvent 7 20]
   \<and> (host_knows busy_trace (<) 0 \<or> 0 < length (busy_trace @ [EventRecord 20 10, StreamWaitEvent 7 20]))"
proof -
  let ?w = "make_stream_wait_on_all example_driver 7 busy_engine busy_trace"
  have "fst ?w = CUDA_SUCCESS" using example_driver_ok by (simp add: make_stream_wait_on_all_def wait_on_channels_success ce_return_def)
  then have "?w = (CUDA_SUCCESS, fst (snd ?w), snd (snd ?w))" by (metis prod.collapse)
  from stream_wait_orders_later_work [OF busy_engine_wf busy_engine_tracks this cuda_order_issue,
      where ch = 0 and i = 0 and rest = "[copy_on 7 example_entry]" and l = "length (snd (snd ?w))"]
  have "host_knows busy_trace (<) 0 \<or> 0 < length (snd (snd ?w))" by (simp add: busy_copy on_stream_copy Let_def)
  moreover have "mask_channels 1 = [0]" by (code_simp)
  then have "snd (snd ?w) = busy_trace @ [EventRecord 20 10, StreamWaitEvent 7 20]"
    by (simp add: make_stream_wait_on_all_def wait_on_channels_success example_driver_ok busy_engine_def example_engine_def new_manager_def
        push_calls_def pop_calls_def ce_return_def wait_calls_def)
  ultimately show ?thesis by simp
qed

section \<open>Life cycle\<close>

text \<open>Initialising a fresh manager, with a driver whose calls succeed and whose live handles are distinct, gives a well-formed manager
  with the requested number of channels (3 when the request is out of range), no dirty channel and the tracking invariant.\<close>

theorem init_gives_ready_engine:
  assumes "all_succeed drv" "fresh_handles drv" "copies tr = []" "ce_init drv ctx num new_manager tr = (r, ce, tr')"
  shows "r = CUDA_SUCCESS \<and> ce_wf ce \<and> ce_tracks ce tr' \<and> dirty_mask ce = 0
    \<and> num_channels ce = (if 0 < num \<and> num \<le> 3 then nat num else 3)"
  using ce_init_success [OF assms] by blast

theorem init_gives_ready_engine_witness: "ce_wf (fst (snd (ce_init example_driver 5 2 new_manager [])))"
  using init_gives_ready_engine [OF example_driver_ok example_driver_fresh, of "[]" 5 2]
  by (cases "ce_init example_driver 5 2 new_manager []") auto

section \<open>Error reporting\<close>

text \<open>\<open>reports drv tr r tr'\<close>: all calls issued were answered with success, except the last one when \<open>r\<close> is an
  error, which was answered with \<open>r\<close>.\<close>

fun answered_ok :: "cu_driver \<Rightarrow> trace \<Rightarrow> trace \<Rightarrow> bool" where
  "answered_ok drv tr [] \<longleftrightarrow> True"
| "answered_ok drv tr (c # cs) \<longleftrightarrow> fst (drv tr c) = CUDA_SUCCESS \<and> answered_ok drv (tr @ [c]) cs"

definition reports :: "cu_driver \<Rightarrow> trace \<Rightarrow> CUresult \<Rightarrow> trace \<Rightarrow> bool" where
  "reports drv tr r tr' \<longleftrightarrow> (if r = CUDA_SUCCESS then \<exists>new. tr' = tr @ new \<and> answered_ok drv tr new
     else \<exists>new c. tr' = tr @ new @ [c] \<and> answered_ok drv tr new \<and> fst (drv (tr @ new) c) = r)"

lemma answered_ok_append: "answered_ok drv tr (a @ b) \<longleftrightarrow> answered_ok drv tr a \<and> answered_ok drv (tr @ a) b"
  by (induction a arbitrary: tr) auto

lemma reports_refl: "reports drv tr CUDA_SUCCESS tr"
  by (simp add: reports_def)

lemma reports_trans:
  assumes "reports drv tr CUDA_SUCCESS tr1" "reports drv tr1 r tr2"
  shows "reports drv tr r tr2"
proof -
  obtain a where a: "tr1 = tr @ a" "answered_ok drv tr a" using assms(1) by (auto simp: reports_def)
  show ?thesis
  proof (cases "r = CUDA_SUCCESS")
    case True
    then obtain b where "tr2 = tr1 @ b" "answered_ok drv tr1 b" using assms(2) by (auto simp: reports_def)
    then show ?thesis using a True by (auto simp: reports_def answered_ok_append)
  next
    case False
    then obtain b c where "tr2 = tr1 @ b @ [c]" "answered_ok drv tr1 b" "fst (drv (tr1 @ b) c) = r" using assms(2) by (auto simp: reports_def)
    then show ?thesis using a False unfolding reports_def by (auto simp: answered_ok_append intro!: exI [of _ "a @ b"])
  qed
qed

lemma reports_call: "cu drv c tr = (r, h, tr') \<Longrightarrow> reports drv tr r tr'"
  by (auto simp: cu_def reports_def)

definition faithful_op :: "cu_driver \<Rightarrow> (CopyEngineManager \<Rightarrow> trace \<Rightarrow> ce_result) \<Rightarrow> bool" where
  "faithful_op drv f \<longleftrightarrow> (\<forall>ce tr r ce' tr'. f ce tr = (r, ce', tr') \<longrightarrow> reports drv tr r tr')"

lemma faithful_opI: "(\<And>ce tr r ce' tr'. f ce tr = (r, ce', tr') \<Longrightarrow> reports drv tr r tr') \<Longrightarrow> faithful_op drv f"
  by (simp add: faithful_op_def)

lemma faithful_opD: "faithful_op drv f \<Longrightarrow> f ce tr = (r, ce', tr') \<Longrightarrow> reports drv tr r tr'"
  by (simp add: faithful_op_def)

lemma faithful_return: "faithful_op drv (\<lambda>ce. ce_return (g ce))" "faithful_op drv ce_return"
  by (auto intro!: faithful_opI simp: ce_return_def reports_refl)

lemma faithful_check:
  assumes "faithful_op drv k"
  shows "faithful_op drv (GFD_CU_CHECK drv c k)"
proof (rule faithful_opI)
  fix ce tr r ce' tr' assume run: "GFD_CU_CHECK drv c k ce tr = (r, ce', tr')"
  obtain r1 h tr1 where c: "cu drv c tr = (r1, h, tr1)" by (metis prod_cases3)
  note first = reports_call [OF c]
  show "reports drv tr r tr'"
  proof (cases "r1 = CUDA_SUCCESS")
    case True
    then have "k ce tr1 = (r, ce', tr')" using run c by (simp add: GFD_CU_CHECK_def)
    with faithful_opD [OF assms] first True show ?thesis using reports_trans by blast
  qed (use run c first in \<open>simp add: GFD_CU_CHECK_def\<close>)
qed

lemma faithful_push: "faithful_op drv k \<Longrightarrow> faithful_op drv (push_unless_pinned drv k)"
  using faithful_check by (auto simp: faithful_op_def push_unless_pinned_def split: if_splits)

lemma faithful_pop: "faithful_op drv k \<Longrightarrow> faithful_op drv (pop_unless_pinned drv k)"
  using faithful_check by (auto simp: faithful_op_def pop_unless_pinned_def split: if_splits)

lemma faithful_range: "faithful_op drv (submit_range drv ch es)"
proof (induction es)
  case Nil
  show ?case by (rule faithful_opI) (auto simp: ce_return_def reports_refl)
next
  case (Cons e es)
  then have "faithful_op drv (\<lambda>ce. submit_range drv ch es (ce\<lparr>total_bytes := total_bytes ce + unat (sg_size e)\<rparr>))"
    by (simp add: faithful_op_def)
  from faithful_check [OF this] show ?case by (simp add: faithful_op_def)
qed

lemma faithful_loops: "faithful_op drv (record_events drv chs)" "faithful_op drv (sync_events drv chs)"
  "faithful_op drv (wait_on_channels drv stream chs)"
proof (induction chs)
  case Nil
  { case 1 show ?case by (simp add: faithful_op_def ce_return_def reports_refl) }
  { case 2 show ?case by (simp add: faithful_op_def ce_return_def reports_refl) }
  { case 3 show ?case by (simp add: faithful_op_def ce_return_def reports_refl) }
next
  case (Cons ch chs)
  { case 1 show ?case using Cons(1) faithful_check by (simp add: faithful_op_def) }
  { case 2 show ?case using Cons(2) faithful_check by (simp add: faithful_op_def) }
  { case 3 show ?case using faithful_check [OF faithful_check [OF Cons(3)]] by (simp add: faithful_op_def) }
qed

lemma reports_round_robin: "submit_round_robin drv es m ce tr = (r, m', ce', tr') \<Longrightarrow> reports drv tr r tr'"
proof (induction es arbitrary: m ce tr)
  case (Cons e es)
  obtain r1 h tr1 where c: "cu drv (copy_on (ce_streams ce (next_channel ce)) e) tr = (r1, h, tr1)" by (metis prod_cases3)
  show ?case
  proof (cases "r1 = CUDA_SUCCESS")
    case True
    then show ?thesis using Cons.IH Cons.prems c reports_trans reports_call [OF c] by (auto simp: Let_def)
  qed (use Cons.prems c reports_call [OF c] in \<open>auto simp: Let_def\<close>)
qed (simp add: reports_refl)

lemma reports_chunks: "submit_chunks drv es n chs m ce tr = (r, m', ce', tr') \<Longrightarrow> reports drv tr r tr'"
proof (induction chs arbitrary: m ce tr)
  case (Cons ch chs)
  obtain r1 ce1 tr1 where c: "submit_range drv ch (take (min (ch * n + n) (length es) - ch * n) (drop (ch * n) es)) ce tr = (r1, ce1, tr1)"
    by (metis prod_cases3)
  note first = faithful_opD [OF faithful_range c]
  show ?case
  proof (cases "r1 = CUDA_SUCCESS")
    case True
    then show ?thesis using Cons.IH Cons.prems c reports_trans first reports_refl by (auto simp: Let_def split: if_splits)
  qed (use Cons.prems c first reports_refl in \<open>auto simp: Let_def split: if_splits\<close>)
qed (simp add: reports_refl)

lemma reports_issue: "issue_copies drv es ce tr = (r, m, ce', tr') \<Longrightarrow> reports drv tr r tr'"
  by (auto simp: issue_copies_def Let_def split: if_splits prod.splits dest: reports_round_robin reports_chunks)

lemma faithful_guard: "faithful_op drv f \<Longrightarrow> faithful_op drv (\<lambda>ce tr. if b ce then ce_return ce tr else f ce tr)"
  by (simp add: faithful_op_def ce_return_def reports_refl)

lemma faithful_then:
  assumes "\<And>ce. faithful_op drv (f ce)" "faithful_op drv g"
  shows "faithful_op drv (\<lambda>ce tr. case f ce ce tr of (r, ce1, tr1) \<Rightarrow> if r \<noteq> CUDA_SUCCESS then (r, ce1, tr1) else g (h ce1) tr1)"
proof (rule faithful_opI)
  fix ce tr r ce' tr'
  assume run: "(case f ce ce tr of (r, ce1, tr1) \<Rightarrow> if r \<noteq> CUDA_SUCCESS then (r, ce1, tr1) else g (h ce1) tr1) = (r, ce', tr')"
  obtain r1 ce1 tr1 where c: "f ce ce tr = (r1, ce1, tr1)" by (metis prod_cases3)
  note first = faithful_opD [OF assms(1) c]
  show "reports drv tr r tr'"
    using run c first reports_trans faithful_opD [OF assms(2)] by (cases "r1 = CUDA_SUCCESS") auto
qed

lemma faithful_submit: "faithful_op drv (submit_scatter_gather drv es)"
proof -
  let ?fin = "\<lambda>ce. ce_return (ce\<lparr>total_submissions := total_submissions ce + 1, total_entries := total_entries ce + of_nat (length es)\<rparr>)"
  let ?rest = "\<lambda>m ce tr. case record_events drv (mask_channels m) ce tr of (r, ce2, tr2) \<Rightarrow>
     if r \<noteq> CUDA_SUCCESS then (r, ce2, tr2) else pop_unless_pinned drv ?fin ce2 tr2"
  have rest: "faithful_op drv (?rest m)" for m
    by (rule faithful_then [where h = "\<lambda>ce. ce"]) (rule faithful_loops(1), rule faithful_pop [OF faithful_return(1)])
  let ?body = "\<lambda>ce tr. case issue_copies drv es ce tr of (r, m, ce1, tr1) \<Rightarrow>
     if r \<noteq> CUDA_SUCCESS then (r, ce1, tr1) else ?rest m (ce1\<lparr>dirty_mask := dirty_mask ce1 OR m\<rparr>) tr1"
  have "faithful_op drv ?body"
  proof (rule faithful_opI)
    fix ce tr r ce' tr' assume run: "?body ce tr = (r, ce', tr')"
    obtain r1 m ce1 tr1 where c: "issue_copies drv es ce tr = (r1, m, ce1, tr1)" by (metis prod_cases4)
    show "reports drv tr r tr'"
      using run c reports_issue [OF c] reports_trans faithful_opD [OF rest] by (cases "r1 = CUDA_SUCCESS") auto
  qed
  from faithful_guard [OF faithful_push [OF this], of "\<lambda>ce. \<not> ce_initialized ce \<or> es = []"]
  show ?thesis unfolding submit_scatter_gather_def [abs_def] .
qed

lemma faithful_wait: "faithful_op drv (wait_completion drv)"
proof -
  have "faithful_op drv (\<lambda>ce tr. case sync_events drv (mask_channels (dirty_mask ce)) ce tr of (r, ce1, tr1) \<Rightarrow>
      if r \<noteq> CUDA_SUCCESS then (r, ce1, tr1) else pop_unless_pinned drv ce_return (ce1\<lparr>dirty_mask := 0\<rparr>) tr1)"
    by (rule faithful_then [where h = "\<lambda>ce. ce\<lparr>dirty_mask := 0\<rparr>"]) (rule faithful_loops(2), rule faithful_pop [OF faithful_return(2)])
  from faithful_guard [OF faithful_push [OF this], of "\<lambda>ce. \<not> ce_initialized ce \<or> dirty_mask ce = 0"]
  show ?thesis unfolding wait_completion_def [abs_def] .
qed

lemma faithful_stream_wait: "faithful_op drv (make_stream_wait_on_all drv st)"
proof -
  have "faithful_op drv (\<lambda>ce tr. case wait_on_channels drv st (mask_channels (dirty_mask ce)) ce tr of (r, ce1, tr1) \<Rightarrow>
      if r \<noteq> CUDA_SUCCESS then (r, ce1, tr1) else pop_unless_pinned drv ce_return ce1 tr1)"
    by (rule faithful_then [where h = "\<lambda>ce. ce"]) (rule faithful_loops(3), rule faithful_pop [OF faithful_return(2)])
  from faithful_guard [OF faithful_push [OF this], of "\<lambda>ce. \<not> ce_initialized ce \<or> dirty_mask ce = 0"]
  show ?thesis unfolding make_stream_wait_on_all_def [abs_def] .
qed

lemma faithful_init_channels: "faithful_op drv (init_channels drv prio chs)"
proof (induction chs)
  case Nil
  show ?case by (rule faithful_opI) (simp add: ce_return_def reports_refl)
next
  case (Cons i "is")
  show ?case
  proof (rule faithful_opI)
    fix ce tr r ce' tr' assume run: "init_channels drv prio (i # is) ce tr = (r, ce', tr')"
    obtain r1 st tr1 where c1: "cu drv (StreamCreateWithPriority prio) tr = (r1, st, tr1)" by (metis prod_cases3)
    obtain r2 ev tr2 where c2: "cu drv EventCreate tr1 = (r2, ev, tr2)" by (metis prod_cases3)
    note first = reports_call [OF c1] and second = reports_call [OF c2]
    show "reports drv tr r tr'"
    proof (cases "r1 = CUDA_SUCCESS \<and> r2 = CUDA_SUCCESS")
      case True
      then have "reports drv tr CUDA_SUCCESS tr2" using first second reports_trans by blast
      then show ?thesis using run True c1 c2 reports_trans faithful_opD [OF Cons.IH] by (auto simp: Let_def)
    qed (use run c1 c2 first second reports_trans in \<open>auto simp: Let_def split: if_splits\<close>)
  qed
qed

lemma faithful_init: "faithful_op drv (ce_init drv ctx num)"
proof -
  let ?fin = "GFD_CU_CHECK drv CtxPopCurrent (\<lambda>ce. ce_return (ce\<lparr>ce_initialized := True\<rparr>))"
  let ?chans = "\<lambda>prio. \<lambda>ce tr. case init_channels drv prio [0..<num_channels ce] ce tr of (r, ce', tr2) \<Rightarrow>
     if r \<noteq> CUDA_SUCCESS then (r, ce', tr2) else ?fin ce' tr2"
  have chans: "faithful_op drv (?chans prio)" for prio
    by (rule faithful_then [where h = "\<lambda>ce. ce"]) (rule faithful_init_channels, rule faithful_check [OF faithful_return(1)])
  let ?body = "\<lambda>ce tr. case cu drv CtxGetStreamPriorityRange tr of (r, prio, tr1) \<Rightarrow>
     if r \<noteq> CUDA_SUCCESS then (r, ce, tr1) else ?chans prio ce tr1"
  have "faithful_op drv ?body"
  proof (rule faithful_opI)
    fix ce tr r ce' tr' assume run: "?body ce tr = (r, ce', tr')"
    obtain r1 prio tr1 where c: "cu drv CtxGetStreamPriorityRange tr = (r1, prio, tr1)" by (metis prod_cases3)
    show "reports drv tr r tr'"
      using run c reports_call [OF c] reports_trans faithful_opD [OF chans [of prio]] by (cases "r1 = CUDA_SUCCESS") auto
  qed
  from faithful_check [OF this, of "CtxPushCurrent ctx"] show ?thesis
    by (simp add: faithful_op_def ce_init_def Let_def ce_return_def reports_refl)
qed

lemma faithful_checked: "faithful_op drv (pin_context drv)" "faithful_op drv (record_event_on_last_stream drv ev)"
  "faithful_op drv (submit_and_wait drv es)"
proof -
  show "faithful_op drv (pin_context drv)"
    using faithful_check [OF faithful_return(1)] by (simp add: faithful_op_def pin_context_def ce_return_def reports_refl)
  show "faithful_op drv (record_event_on_last_stream drv ev)"
    using faithful_check [OF faithful_return(2)]
    by (simp add: faithful_op_def record_event_on_last_stream_def Let_def ce_return_def reports_refl)
  show "faithful_op drv (submit_and_wait drv es)" unfolding submit_and_wait_def [abs_def]
    by (rule faithful_then [where h = "\<lambda>ce. ce"]) (rule faithful_submit, rule faithful_wait)
qed

lemmas faithful_ops = faithful_init faithful_checked faithful_submit faithful_wait faithful_stream_wait

text \<open>C35: Errors are reported faithfully by every operation of the engine that has a result code (\<open>init\<close>, \<open>pin_context\<close>,
  \<open>submit_scatter_gather\<close>, \<open>wait_completion\<close>, \<open>submit_and_wait\<close>, \<open>make_stream_wait_on_all\<close> and
  \<open>record_event_on_last_stream\<close>): it returns success exactly after calls that all succeeded, and an error code is the answer of the
  last call it issued, after which nothing else was called. (\<open>shutdown\<close> and \<open>unpin_context\<close> return nothing and ignore
  the driver's answers.)\<close>

theorem engine_reports_first_error:
  assumes "f \<in> {ce_init drv ctx num, pin_context drv, submit_scatter_gather drv es, wait_completion drv, submit_and_wait drv es,
      make_stream_wait_on_all drv st, record_event_on_last_stream drv ev}"
    and "f ce tr = (r, ce', tr')"
  shows "if r = CUDA_SUCCESS then \<exists>new. tr' = tr @ new \<and> answered_ok drv tr new
     else \<exists>new c. tr' = tr @ new @ [c] \<and> answered_ok drv tr new \<and> fst (drv (tr @ new) c) = r"
proof -
  have "faithful_op drv f" using assms(1) faithful_ops by blast
  from faithful_opD [OF this assms(2)] show ?thesis by (simp add: reports_def)
qed

definition failing_driver :: cu_driver where
  "failing_driver tr c = (if length tr = 1 then CUDA_ERROR 700 else CUDA_SUCCESS, 0)"

theorem engine_reports_first_error_witness:
  "\<exists>new c. snd (snd (submit_and_wait failing_driver [example_entry] example_engine [])) = [] @ new @ [c] \<and> answered_ok failing_driver [] new
     \<and> fst (failing_driver ([] @ new) c) = CUDA_ERROR 700"
proof -
  have "fst (submit_and_wait failing_driver [example_entry] example_engine []) = CUDA_ERROR 700"
    by (simp add: submit_and_wait_def submit_scatter_gather_def push_unless_pinned_def GFD_CU_CHECK_def cu_def failing_driver_def example_engine_def
        new_manager_def MAX_CE_CHANNELS_def issue_copies_def)
  then have "submit_and_wait failing_driver [example_entry] example_engine [] = (CUDA_ERROR 700,
      fst (snd (submit_and_wait failing_driver [example_entry] example_engine [])), snd (snd (submit_and_wait failing_driver [example_entry] example_engine [])))"
    by (metis prod.collapse)
  note run = this
  have "submit_and_wait failing_driver [example_entry] \<in> {ce_init failing_driver 0 0, pin_context failing_driver,
      submit_scatter_gather failing_driver [example_entry], wait_completion failing_driver, submit_and_wait failing_driver [example_entry],
      make_stream_wait_on_all failing_driver 0, record_event_on_last_stream failing_driver 0}" by blast
  from engine_reports_first_error [OF this run] show ?thesis by simp
qed

text \<open>The copies of a submission, whether they succeed or not, only issue copies and leave the dirty mask alone.\<close>

definition is_copy :: "cu_call \<Rightarrow> bool" where
  "is_copy c \<longleftrightarrow> (\<exists>st e. c = copy_on st e)"

definition only_copies :: "CopyEngineManager \<Rightarrow> trace \<Rightarrow> CopyEngineManager \<Rightarrow> trace \<Rightarrow> bool" where
  "only_copies ce tr ce' tr' \<longleftrightarrow> dirty_mask ce' = dirty_mask ce \<and> total_submissions ce' = total_submissions ce
     \<and> (\<exists>new. tr' = tr @ new \<and> list_all is_copy new)"

lemma only_copies_refl: "only_copies ce tr ce tr"
  by (simp add: only_copies_def)

lemma only_copies_trans: "only_copies ce tr ce1 tr1 \<Longrightarrow> only_copies ce1 tr1 ce2 tr2 \<Longrightarrow> only_copies ce tr ce2 tr2"
  by (auto simp: only_copies_def)

lemma only_copies_call: "only_copies ce tr (ce\<lparr>next_channel := c, total_bytes := b\<rparr>) (tr @ [copy_on st e])"
  "only_copies ce tr (ce\<lparr>next_channel := c\<rparr>) (tr @ [copy_on st e])" "only_copies ce tr (ce\<lparr>total_bytes := b\<rparr>) (tr @ [copy_on st e])"
  "only_copies ce tr ce (tr @ [copy_on st e])"
  by (auto simp: only_copies_def is_copy_def)

lemma only_copies_range: "submit_range drv ch es ce tr = (r, ce', tr') \<Longrightarrow> only_copies ce tr ce' tr'"
proof (induction es arbitrary: ce tr)
  case (Cons e es)
  then show ?case
    using only_copies_trans [OF only_copies_call(3)] only_copies_call(4)
    by (fastforce simp: GFD_CU_CHECK_def cu_def split: prod.splits if_splits)
qed (simp add: ce_return_def only_copies_refl)

lemma only_copies_round_robin: "submit_round_robin drv es m ce tr = (r, m', ce', tr') \<Longrightarrow> only_copies ce tr ce' tr'"
proof (induction es arbitrary: m ce tr)
  case (Cons e es)
  then show ?case
    using only_copies_trans [OF only_copies_call(1)] only_copies_call(2)
    by (fastforce simp: Let_def cu_def split: prod.splits if_splits)
qed (simp add: only_copies_refl)

lemma only_copies_chunks: "submit_chunks drv es n chs m ce tr = (r, m', ce', tr') \<Longrightarrow> only_copies ce tr ce' tr'"
proof (induction chs arbitrary: m ce tr)
  case (Cons ch chs)
  then show ?case
    by (auto simp: Let_def only_copies_refl split: prod.splits if_splits dest!: only_copies_range intro: only_copies_trans)
qed (simp add: only_copies_refl)

lemma only_copies_issue:
  assumes "issue_copies drv es ce tr = (r, m, ce', tr')"
  shows "only_copies ce tr ce' tr'"
proof -
  have reset: "only_copies ce tr (c\<lparr>next_channel := 0\<rparr>) t \<longleftrightarrow> only_copies ce tr c t" for c t by (simp add: only_copies_def)
  show ?thesis using assms
    by (auto simp: issue_copies_def Let_def reset split: if_splits prod.splits dest: only_copies_round_robin only_copies_chunks)
qed

lemma record_events_ends: "record_events drv chs ce tr = (r, ce', tr') \<Longrightarrow> r \<noteq> CUDA_SUCCESS \<Longrightarrow> \<exists>ev st. last tr' = EventRecord ev st"
  by (induction chs arbitrary: ce tr) (auto simp: ce_return_def GFD_CU_CHECK_def cu_def split: prod.splits if_splits)

text \<open>A submission that fails at a copy returns with the copies it has already issued untracked: it records no event for them and marks no
  channel dirty, and a context it pushed stays pushed.\<close>

theorem failed_copy_leaves_untracked:
  assumes "submit_scatter_gather drv es ce tr = (r, ce', tr')" "r \<noteq> CUDA_SUCCESS" "is_copy (last tr')"
  shows "dirty_mask ce' = dirty_mask ce \<and> total_submissions ce' = total_submissions ce
    \<and> (\<exists>new. tr' = tr @ (if context_pinned ce then [] else [CtxPushCurrent (ce_ctx ce)]) @ new \<and> list_all is_copy new)"
proof -
  have g: "ce_initialized ce \<and> es \<noteq> []" using assms(1,2) by (auto simp: submit_scatter_gather_def ce_return_def split: if_splits)
  obtain tr1 where push: "tr1 = tr @ (if context_pinned ce then [] else [CtxPushCurrent (ce_ctx ce)])" by blast
  obtain r1 m ce1 tr2 where c: "issue_copies drv es ce tr1 = (r1, m, ce1, tr2)" by (metis prod_cases4)
  have "r1 \<noteq> CUDA_SUCCESS \<and> ce' = ce1 \<and> tr' = tr2"
    using assms g c push record_events_ends [of drv "mask_channels m" "ce1\<lparr>dirty_mask := dirty_mask ce1 OR m\<rparr>" tr2]
    by (auto simp: submit_scatter_gather_def push_unless_pinned_def pop_unless_pinned_def GFD_CU_CHECK_def cu_def ce_return_def is_copy_def
        copy_on_def split: if_splits prod.splits)
  then show ?thesis using only_copies_issue [OF c] push by (auto simp: only_copies_def)
qed

theorem failed_copy_leaves_untracked_witness:
  "dirty_mask (fst (snd (submit_scatter_gather failing_driver [example_entry] example_engine []))) = 0"
proof -
  let ?w = "submit_scatter_gather failing_driver [example_entry] example_engine []"
  have "fst ?w = CUDA_ERROR 700" "is_copy (last (snd (snd ?w)))"
    by (auto simp: submit_scatter_gather_def push_unless_pinned_def GFD_CU_CHECK_def cu_def failing_driver_def example_engine_def
        new_manager_def MAX_CE_CHANNELS_def issue_copies_def is_copy_def)
  moreover from this(1) have "?w = (CUDA_ERROR 700, fst (snd ?w), snd (snd ?w))" by (metis prod.collapse)
  ultimately have "dirty_mask (fst (snd ?w)) = dirty_mask example_engine" using failed_copy_leaves_untracked [of failing_driver] by blast
  then show ?thesis by (simp add: example_engine_def new_manager_def)
qed

section \<open>The event of the last stream\<close>

text \<open>After a submission of one entry, \<open>record_event_on_last_stream\<close> records the event on the stream that got the entry, after it, so that the
  event covers the copy.\<close>

theorem last_stream_event_covers_single:
  assumes "all_succeed drv" "ce_wf ce" "submit_scatter_gather drv [e] ce tr = (r, ce1, tr1)"
    and "record_event_on_last_stream drv ev ce1 tr1 = (r2, ce2, tr2)"
  shows "\<exists>i. length tr \<le> i \<and> tr2 ! i = copy_on (ce_streams ce (next_channel ce)) e \<and> recorded tr2 ev (ce_streams ce (next_channel ce)) i"
  using last_stream_single [OF assms] by blast

theorem last_stream_event_covers_single_witness:
  "\<exists>i ce1 tr1. submit_scatter_gather example_driver [example_entry] example_engine [] = (CUDA_SUCCESS, ce1, tr1)
    \<and> recorded (snd (snd (record_event_on_last_stream example_driver 40 ce1 tr1))) 40 10 i"
proof -
  obtain m where s: "submit_scatter_gather example_driver [example_entry] example_engine [] =
      (CUDA_SUCCESS, submitted example_engine [example_entry] m, [] @ submit_calls example_engine [example_entry] m)"
    by (rule submit_success [OF example_driver_ok example_engine_wf, of "[example_entry]" "[]"]) auto
  let ?ce = "submitted example_engine [example_entry] m" and ?tr = "[] @ submit_calls example_engine [example_entry] m"
  have "record_event_on_last_stream example_driver 40 ?ce ?tr = (fst (record_event_on_last_stream example_driver 40 ?ce ?tr),
      fst (snd (record_event_on_last_stream example_driver 40 ?ce ?tr)), snd (snd (record_event_on_last_stream example_driver 40 ?ce ?tr)))" by simp
  from last_stream_event_covers_single [OF example_driver_ok example_engine_wf s this] s show ?thesis
    by (auto simp: example_engine_def new_manager_def)
qed

text \<open>It does not cover a submission of several entries: after four entries on three channels the event is recorded on the third channel,
  which got none of them, so the event can be complete while all four copies are still running.\<close>

theorem last_stream_event_misses_many:
  assumes "all_succeed drv" "ce_wf ce" "num_channels ce = 3" "length es = 4"
    and "submit_scatter_gather drv es ce tr = (r, ce1, tr1)" "record_event_on_last_stream drv ev ce1 tr1 = (r2, ce2, tr2)"
  shows "tr2 = tr1 @ [EventRecord ev (ce_streams ce 2)]
    \<and> (\<exists>new. tr1 = tr @ new \<and> copies new = es \<and> (\<forall>e. copy_on (ce_streams ce 2) e \<notin> set new))"
  using last_stream_idle [OF assms] by simp

theorem last_stream_event_misses_many_witness:
  "\<exists>tr1. copies tr1 = replicate 4 example_entry \<and> copy_on 12 example_entry \<notin> set tr1
    \<and> tr1 = snd (snd (submit_scatter_gather example_driver (replicate 4 example_entry) example_engine []))"
proof -
  obtain m where s: "submit_scatter_gather example_driver (replicate 4 example_entry) example_engine [] =
      (CUDA_SUCCESS, submitted example_engine (replicate 4 example_entry) m, [] @ submit_calls example_engine (replicate 4 example_entry) m)"
    by (rule submit_success [OF example_driver_ok example_engine_wf, of "replicate 4 example_entry" "[]"]) auto
  let ?ce = "submitted example_engine (replicate 4 example_entry) m" and ?tr = "[] @ submit_calls example_engine (replicate 4 example_entry) m"
  have r: "record_event_on_last_stream example_driver 40 ?ce ?tr = (fst (record_event_on_last_stream example_driver 40 ?ce ?tr),
      fst (snd (record_event_on_last_stream example_driver 40 ?ce ?tr)), snd (snd (record_event_on_last_stream example_driver 40 ?ce ?tr)))" by simp
  have n: "num_channels example_engine = 3" "ce_streams example_engine 2 = 12"
    by (simp_all add: example_engine_def new_manager_def MAX_CE_CHANNELS_def)
  from last_stream_event_misses_many [OF example_driver_ok example_engine_wf n(1) _ s r] s n(2) show ?thesis by auto
qed

end
