(* ===== verification/Poller.thy ===== *)
theory Poller
  imports Bucketing Copy_Engine Parallel_Gather Descriptor_Queue
begin

text \<open>
  The polling thread's object (\<open>CpuPollingThread\<close>, \<open>include/gfd/cpu_polling.h\<close>) and its two global transfer
  paths in \<open>src/batch_processor.cpp\<close>: \<open>process_batch\<close> (single entry, contiguous batch, uniform staging,
  generic sort-merge-stage path) and \<open>process_batch_no_ce\<close>. Results of copy-engine calls are ignored here, as the
  code ignores them. Addresses of host and device buffers are plain \<open>u64\<close>; a null pointer is \<open>None\<close>.
  \<open>p_mem\<close> is memory as the host sees it: gathering and \<open>memcpy\<close> change it, DMAs are the copies of the trace.
  Time statistics are left out.
\<close>

section \<open>State\<close>

definition NUM_STAGING_BUFS :: nat where "NUM_STAGING_BUFS = 5"
definition MAX_PENDING_TILE_EVENTS :: nat where "MAX_PENDING_TILE_EVENTS = 32"

record PendingTileEvent =
  pe_event :: nat
  pe_done_value :: u64
  pe_tile_ids :: "nat list"

record Poller =
  p_queue :: DescriptorQueue
  p_ce :: CopyEngineManager
  p_trace :: trace
  p_mem :: mem
  use_ce :: bool
  num_staging_bufs :: nat
  staging_bufs :: "nat \<Rightarrow> u64"
  staging_buffer_size :: u64
  staging_events :: "nat \<Rightarrow> nat"
  staging_event_pending :: "nat \<Rightarrow> bool"
  staging_cur :: nat
  staging_inflight_count :: int
  active_gather_workers :: nat
  has_async_dma :: bool
  latest_async_read :: u64
  tiled_set :: bool
  host_tile_addr :: u64
  host_tile_done :: "nat \<Rightarrow> u64"
  dev_tile_addr :: "u64 option"
  sg_set :: bool
  dev_list_addr :: "u64 option"
  lists_completed :: u64
  signal_stream :: nat
  signal_buf_addr :: "u64 option"
  signal_buf :: "nat \<Rightarrow> u64"
  tile_progress :: "nat \<Rightarrow> u64"
  bucket_map_storage :: "nat \<Rightarrow> int"
  sg_bucket_map :: "nat \<Rightarrow> int"
  pending_tile_events :: "nat \<Rightarrow> PendingTileEvent"
  tile_event_head :: nat
  tile_event_tail :: nat
  tile_events_inflight :: nat
  descriptors_processed :: u64
  batches_submitted :: u64
  coalesced_entries :: u64
  staging_batches :: u64
  total_bytes_copied :: u64

text \<open>A copy-engine operation whose result is dropped, and a driver call whose result is dropped.\<close>

definition ce_do :: "(CopyEngineManager \<Rightarrow> trace \<Rightarrow> ce_result) \<Rightarrow> Poller \<Rightarrow> Poller" where
  "ce_do f p = (case f (p_ce p) (p_trace p) of (_, ce, tr) \<Rightarrow> p\<lparr>p_ce := ce, p_trace := tr\<rparr>)"

definition call :: "cu_call \<Rightarrow> Poller \<Rightarrow> Poller" where
  "call c p = p\<lparr>p_trace := p_trace p @ [c]\<rparr>"

definition add_stats :: "nat \<Rightarrow> nat \<Rightarrow> nat \<Rightarrow> Poller \<Rightarrow> Poller" where
  "add_stats descs coal batches p = p\<lparr>descriptors_processed := descriptors_processed p + of_nat descs,
     coalesced_entries := coalesced_entries p + of_nat coal, batches_submitted := batches_submitted p + of_nat batches\<rparr>"

definition add_bytes :: "SGEntry list \<Rightarrow> Poller \<Rightarrow> Poller" where
  "add_bytes es p = p\<lparr>total_bytes_copied := total_bytes_copied p + size_sum es\<rparr>"

definition reset_stats :: "Poller \<Rightarrow> Poller" where
  "reset_stats p = p\<lparr>descriptors_processed := 0, batches_submitted := 0, coalesced_entries := 0, staging_batches := 0,
     total_bytes_copied := 0, tile_progress := (\<lambda>_. 0)\<rparr>"

section \<open>Staging\<close>

text \<open>What a call of \<open>parallel_gather\<close> leaves in memory (\<open>Parallel_Gather\<close> has the threads).\<close>

definition gather_into :: "SGEntry list \<Rightarrow> u64 \<Rightarrow> u64 \<Rightarrow> Poller \<Rightarrow> Poller" where
  "gather_into es buf min_dst p = p\<lparr>p_mem := fold (gather_entry es buf min_dst) [0..<length es] (p_mem p)\<rparr>"

text \<open>Wait for the buffer's last DMA, if its event is pending.\<close>

definition staging_wait :: "Poller \<Rightarrow> Poller" where
  "staging_wait p =
     (let cur = staging_cur p in
      if staging_event_pending p cur
      then (call (EventSynchronize (staging_events p cur)) p)
             \<lparr>staging_event_pending := (staging_event_pending p)(cur := False),
              staging_inflight_count := staging_inflight_count p - 1\<rparr>
      else p)"

text \<open>Submit from the buffer, record its event, move on to the next buffer.\<close>

definition staging_submit :: "cu_driver \<Rightarrow> SGEntry list \<Rightarrow> Poller \<Rightarrow> Poller" where
  "staging_submit drv runs p =
     (let cur = staging_cur p;
          p1 = ce_do (submit_scatter_gather drv runs) p;
          p2 = ce_do (record_event_on_last_stream drv (staging_events p cur)) p1
      in p2\<lparr>staging_event_pending := (staging_event_pending p2)(cur := True),
            staging_inflight_count := staging_inflight_count p2 + 1,
            staging_cur := (cur + 1) mod num_staging_bufs p2,
            staging_batches := staging_batches p2 + 1\<rparr>)"

section \<open>\<open>process_batch\<close>\<close>

text \<open>Destinations follow one another and all sizes are the first one's (compared in \<open>uint32_t\<close>).\<close>

fun uniform_from :: "u64 \<Rightarrow> u32 \<Rightarrow> SGEntry list \<Rightarrow> bool" where
  "uniform_from expected_dst entry_size [] \<longleftrightarrow> True"
| "uniform_from expected_dst entry_size (e # es) \<longleftrightarrow>
     sg_dst e = expected_dst \<and> sg_size e = ucast entry_size \<and> uniform_from (expected_dst + ucast entry_size) entry_size es"

fun dst_contiguous :: "SGEntry list \<Rightarrow> bool" where
  "dst_contiguous [] \<longleftrightarrow> True"
| "dst_contiguous (e # es) \<longleftrightarrow>
     (let entry_size = ucast (sg_size e) :: u32 in uniform_from (sg_dst e + ucast entry_size) entry_size es)"

fun src_contiguous :: "SGEntry list \<Rightarrow> bool" where
  "src_contiguous (e # f # es) \<longleftrightarrow> sg_src f = sg_src e + sg_size e \<and> src_contiguous (f # es)"
| "src_contiguous _ \<longleftrightarrow> True"

text \<open>The first destination and the highest end.\<close>

fun dst_range_from :: "u64 \<Rightarrow> u64 \<Rightarrow> SGEntry list \<Rightarrow> u64 \<times> u64" where
  "dst_range_from min_dst max_dst_end [] = (min_dst, max_dst_end)"
| "dst_range_from min_dst max_dst_end (e # es) =
     (let min' = (if sg_dst e < min_dst then sg_dst e else min_dst);
          e_end = sg_dst e + sg_size e;
          max' = (if e_end > max_dst_end then e_end else max_dst_end)
      in dst_range_from min' max' es)"

fun dst_range :: "SGEntry list \<Rightarrow> u64 \<times> u64" where
  "dst_range [] = (0, 0)"
| "dst_range (e # es) = dst_range_from (sg_dst e) (sg_dst e + sg_size e) es"

definition STAGING_THRESHOLD :: nat where "STAGING_THRESHOLD = 32"

text \<open>Contents of the sort's scratch array do not matter; the model passes the input itself.\<close>

definition generic_path :: "cu_driver \<Rightarrow> nat \<Rightarrow> SGEntry list \<Rightarrow> Poller \<Rightarrow> Poller" where
  "generic_path drv n sg_entries p =
     (let sorted = radix_sort_sg sg_entries sg_entries sg_src;
          coalesced = coalesce sorted;
          (min_dst, max_dst_end) = dst_range coalesced;
          range_size = max_dst_end - min_dst
      in if STAGING_THRESHOLD < length coalesced \<and> 0 < num_staging_bufs p \<and> range_size \<le> staging_buffer_size p
         then let p1 = staging_wait p;
                  cur_buf = staging_bufs p1 (staging_cur p1);
                  p2 = gather_into coalesced cur_buf min_dst p1;
                  runs = dst_runs cur_buf min_dst (radix_sort_sg coalesced sorted sg_dst)
              in add_stats n (length coalesced) 1 (staging_submit drv runs p2)
         else add_stats n (length coalesced) 1 (ce_do (submit_scatter_gather drv coalesced) p))"

definition process_batch :: "cu_driver \<Rightarrow> Descriptor list \<Rightarrow> Poller \<Rightarrow> bool \<times> Poller" where
  "process_batch drv batch p =
     (let n = length batch; sg_entries = map sg_of batch; p0 = add_bytes sg_entries p in
      if n = 1 then (True, add_stats 1 1 1 (ce_do (submit_scatter_gather drv sg_entries) p0))
      else if dst_contiguous sg_entries \<and> 1 < n \<and> 0 < num_staging_bufs p
      then let e0 = hd sg_entries; range_size = of_nat n * sg_size e0 in
           if src_contiguous sg_entries
           then (True, add_stats n 1 1 (ce_do (submit_scatter_gather drv [e0\<lparr>sg_size := range_size\<rparr>]) p0))
           else if range_size \<le> staging_buffer_size p \<and> 0 < num_staging_bufs p
           then let p1 = staging_wait p0;
                    cur_buf = staging_bufs p1 (staging_cur p1);
                    p2 = gather_into sg_entries cur_buf (sg_dst e0) p1
                in (True, add_stats n n 1
                      (staging_submit drv [\<lparr>sg_dst = sg_dst e0, sg_src = cur_buf, sg_size = range_size\<rparr>] p2))
           else (True, generic_path drv n sg_entries p0)
      else (True, generic_path drv n sg_entries p0))"

section \<open>\<open>process_batch_no_ce\<close>\<close>

definition process_batch_no_ce :: "Descriptor list \<Rightarrow> Poller \<Rightarrow> Poller" where
  "process_batch_no_ce batch p =
     (let es = map sg_of batch; p0 = add_bytes es p
      in add_stats (length batch) (length batch) 1
           (p0\<lparr>p_mem := fold (\<lambda>e. memcpy (sg_dst e) (sg_src e) (unat (sg_size e))) (std_sort sg_src es) (p_mem p0)\<rparr>))"

section \<open>What a step adds to the trace\<close>

text \<open>\<open>issues p p' es\<close>: the copies issued between the two states are \<open>es\<close>, in this order.\<close>

definition issues :: "Poller \<Rightarrow> Poller \<Rightarrow> SGEntry list \<Rightarrow> bool" where
  "issues p p' es \<longleftrightarrow> (\<exists>new. p_trace p' = p_trace p @ new \<and> copies new = es)"

text \<open>Memory once the issued copies have run.\<close>

definition after_dma :: "Poller \<Rightarrow> Poller \<Rightarrow> mem" where
  "after_dma p p' = dmas (copies (drop (length (p_trace p)) (p_trace p'))) (p_mem p')"

lemma issues_refl: "p_trace p' = p_trace p \<Longrightarrow> issues p p' []"
  by (simp add: issues_def)

lemma issues_trans: "issues p q es \<Longrightarrow> issues q r fs \<Longrightarrow> issues p r (es @ fs)"
  by (auto simp: issues_def)

lemma issues_after: "issues p p' es \<Longrightarrow> after_dma p p' = dmas es (p_mem p')"
  by (auto simp: issues_def after_dma_def)

lemma stats_frame [simp]:
  "p_trace (add_stats a b c p) = p_trace p" "p_ce (add_stats a b c p) = p_ce p" "p_mem (add_stats a b c p) = p_mem p"
  "p_trace (add_bytes es p) = p_trace p" "p_ce (add_bytes es p) = p_ce p" "p_mem (add_bytes es p) = p_mem p"
  "staging_bufs (add_bytes es p) = staging_bufs p" "staging_cur (add_bytes es p) = staging_cur p"
  "staging_buffer_size (add_bytes es p) = staging_buffer_size p" "num_staging_bufs (add_bytes es p) = num_staging_bufs p"
  by (simp_all add: add_stats_def add_bytes_def)

lemma issues_stats [simp]: "issues p (add_stats a b c q) es = issues p q es" "issues (add_bytes fs p) q es = issues p q es"
  by (simp_all add: issues_def)

lemma ce_do_frame [simp]: "p_mem (ce_do f p) = p_mem p" "num_staging_bufs (ce_do f p) = num_staging_bufs p"
  "staging_bufs (ce_do f p) = staging_bufs p" "staging_cur (ce_do f p) = staging_cur p" "staging_buffer_size (ce_do f p) = staging_buffer_size p"
  by (simp_all add: ce_do_def split: prod.splits)

lemma submit_issues:
  assumes "all_succeed drv" "ce_wf (p_ce p)"
  shows "issues p (ce_do (submit_scatter_gather drv es) p) es" and "ce_wf (p_ce (ce_do (submit_scatter_gather drv es) p))"
proof -
  have "issues p (ce_do (submit_scatter_gather drv es) p) es \<and> ce_wf (p_ce (ce_do (submit_scatter_gather drv es) p))"
  proof (cases "es = []")
    case True
    then show ?thesis using assms(2) by (simp add: ce_do_def submit_Nil issues_refl)
  next
    case False
    obtain m where "submit_scatter_gather drv es (p_ce p) (p_trace p) = (CUDA_SUCCESS, submitted (p_ce p) es m, p_trace p @ submit_calls (p_ce p) es m)"
      and "\<And>k. bit m k \<longleftrightarrow> k \<in> fst ` set (assign (p_ce p) es)"
      using submit_success [OF assms False] by metis
    then show ?thesis using copies_submit_calls [OF assms(2)] submitted_wf [OF assms(2)]
      by (auto simp: ce_do_def issues_def)
  qed
  then show "issues p (ce_do (submit_scatter_gather drv es) p) es" "ce_wf (p_ce (ce_do (submit_scatter_gather drv es) p))" by simp_all
qed

lemma record_issues:
  assumes "all_succeed drv" "ce_wf (p_ce p)"
  shows "issues p (ce_do (record_event_on_last_stream drv ev) p) []" and "p_ce (ce_do (record_event_on_last_stream drv ev) p) = p_ce p"
  using assms by (simp_all add: ce_do_def record_event_on_last_stream_def ce_wf_def Let_def ce_return_def issues_def)

lemma staging_wait_frame [simp]: "p_mem (staging_wait p) = p_mem p" "p_ce (staging_wait p) = p_ce p"
  "staging_bufs (staging_wait p) = staging_bufs p" "staging_cur (staging_wait p) = staging_cur p"
  by (simp_all add: staging_wait_def call_def Let_def)

lemma staging_wait_issues: "issues p (staging_wait p) []"
  by (simp add: issues_def staging_wait_def call_def Let_def)

lemma staging_submit_issues:
  assumes "all_succeed drv" "ce_wf (p_ce p)"
  shows "issues p (staging_submit drv runs p) runs" "p_mem (staging_submit drv runs p) = p_mem p"
    and "ce_wf (p_ce (staging_submit drv runs p))"
proof -
  note s = submit_issues [OF assms, of runs]
  note r = record_issues [OF assms(1) s(2), of "staging_events p (staging_cur p)"]
  from issues_trans [OF s(1) r(1)] show "issues p (staging_submit drv runs p) runs" by (simp add: staging_submit_def Let_def issues_def)
  show "p_mem (staging_submit drv runs p) = p_mem p" by (simp add: staging_submit_def Let_def)
  show "ce_wf (p_ce (staging_submit drv runs p))" using s(2) r(2) by (simp add: staging_submit_def Let_def)
qed

lemma gather_into_frame [simp]: "p_ce (gather_into es b d p) = p_ce p" "p_trace (gather_into es b d p) = p_trace p"
  "staging_bufs (gather_into es b d p) = staging_bufs p" "staging_cur (gather_into es b d p) = staging_cur p"
  by (simp_all add: gather_into_def)

lemma gather_into_mem:
  assumes "src_dst_disjoint (map (staged b d) es)"
  shows "p_mem (gather_into es b d p) = dmas (map (staged b d) es) (p_mem p)"
proof -
  let ?c = "\<lparr>gc_entries = es, gc_staging = b, gc_min_dst = d, gc_workers = 0\<rparr>"
  have e: "gather_entry es b d i m = dma (map (staged b d) es ! i) m" if "i < length es" for i m
    using gather_entry_dma [of ?c i m] assms that by (simp add: gc_count_def)
  have "fold (gather_entry es b d) [0..<k] m = dmas (map ((!) (map (staged b d) es)) [0..<k]) m" if "k \<le> length es" for k m
    using that e by (induction k) simp_all
  from this [of "length es"] show ?thesis using map_nth [of "map (staged b d) es"] by (simp add: gather_into_def)
qed

section \<open>Contiguous batches\<close>

lemma sg_size_32: "e \<in> set (map sg_of batch) \<Longrightarrow> ucast (ucast (sg_size e) :: u32) = sg_size e"
proof -
  have "ucast (ucast (ucast x :: u64) :: u32) = (ucast x :: u64)" for x :: u32
    by (rule bit_word_eqI) (use bit_imp_le_length [of x] in \<open>fastforce simp: bit_simps\<close>)
  then show "e \<in> set (map sg_of batch) \<Longrightarrow> ucast (ucast (sg_size e) :: u32) = sg_size e" by (auto simp: sg_of_def)
qed

lemma uniform_sizes:
  assumes "uniform_from d n es" "es \<noteq> []"
  shows "sg_dst (hd es) = d" "\<forall>e\<in>set es. sg_size e = ucast n"
proof -
  show "sg_dst (hd es) = d" using assms by (cases es) auto
  show "\<forall>e\<in>set es. sg_size e = ucast n" using assms(1) by (induction es arbitrary: d) auto
qed

lemma uniform_fully:
  "uniform_from (sg_dst e + sg_size e) n es \<Longrightarrow> sg_size e = ucast n \<Longrightarrow> src_contiguous (e # es) \<Longrightarrow> fully_contiguous (e # es)"
proof (induction es arbitrary: e)
  case (Cons f es)
  then have "fully_contiguous (f # es)" by (intro Cons.IH) auto
  with Cons.prems show ?case by (simp add: contig_def)
qed simp

lemma uniform_run:
  "uniform_from (rs + sz) n es \<Longrightarrow> dst_runs_from b d rs sz es = [\<lparr>sg_dst = rs, sg_src = b + (rs - d), sg_size = sz + size_sum es\<rparr>]"
proof (induction es arbitrary: sz)
  case (Cons e es)
  then have e: "sg_dst e = rs + sz" "sg_size e = ucast n" "uniform_from (rs + (sz + sg_size e)) n es" by (simp_all add: add.assoc)
  from Cons.IH [OF e(3)] e(1) show ?case by (simp add: add.assoc)
qed simp

lemma uniform_size_sum:
  "\<forall>e\<in>set es. sg_size e = n \<Longrightarrow> size_sum es = of_nat (length es) * n"
  by (induction es) (simp_all add: algebra_simps)

lemma uniform_regions:
  assumes "uniform_from (d + of_nat k) n es" "e \<in> set es" "k + bytes es < 2 ^ 64"
  shows "dst_region e \<subseteq> region d (k + bytes es)"
  using assms
proof (induction es arbitrary: k)
  case (Cons f es)
  have f: "sg_dst f = d + of_nat k" "sg_size f = ucast n" using Cons.prems(1) by simp_all
  have sz: "(of_nat (unat (sg_size f)) :: u64) = ucast n" using f(2) by (metis of_nat_unat ucast_id)
  have split: "region d ((k + unat (sg_size f)) + bytes es) = region d (k + bytes (f # es))" by (simp add: add.assoc)
  show ?case
  proof (cases "e = f")
    case True
    have "region (d + of_nat k) (unat (sg_size f)) \<subseteq> region d (k + unat (sg_size f))"
      using region_add [of k "unat (sg_size f)" d] Cons.prems(3) by auto
    then show ?thesis using True f(1) region_mono [of "k + unat (sg_size f)" "k + bytes (f # es)" d] by auto
  next
    case False
    have "uniform_from (d + of_nat (k + unat (sg_size f))) n es"
      using Cons.prems(1) sz f by (simp add: add.assoc)
    from Cons.IH [OF this] False Cons.prems show ?thesis by (simp add: split [symmetric] add.assoc)
  qed
qed simp

section \<open>The destination range of the generic path\<close>

definition dst_no_wrap :: "SGEntry list \<Rightarrow> bool" where
  "dst_no_wrap es \<longleftrightarrow> (\<forall>e\<in>set es. unat (sg_dst e) + unat (sg_size e) < 2 ^ 64)"

lemma coalesce_no_wrap: "dst_no_wrap es \<Longrightarrow> dst_no_wrap (coalesce es)"
proof -
  have "dst_no_wrap (p # es) \<Longrightarrow> dst_no_wrap (coalesce_from p es)" for p es
  proof (induction es arbitrary: p)
    case (Cons e es)
    show ?case
    proof (cases "contig p e")
      case True
      have "unat (sg_dst e) = unat (sg_dst p) + unat (sg_size p)"
        using True Cons.prems by (simp add: contig_def dst_no_wrap_def unat_add_u64)
      then have "unat (sg_dst (grow p e)) + unat (sg_size (grow p e)) < 2 ^ 64"
        using Cons.prems by (simp add: dst_no_wrap_def unat_add_u64)
      then have "dst_no_wrap (grow p e # es)" using Cons.prems by (simp add: dst_no_wrap_def)
      with True Cons.IH show ?thesis by simp
    next
      case False
      then show ?thesis using Cons.prems Cons.IH [of e] by (simp add: dst_no_wrap_def)
    qed
  qed simp
  then show "dst_no_wrap es \<Longrightarrow> dst_no_wrap (coalesce es)" by (cases es) auto
qed

lemma dst_range_from_bounds:
  "dst_range_from lo hi es = (mn, mx) \<Longrightarrow>
   mn \<le> lo \<and> hi \<le> mx \<and> (\<forall>e\<in>set es. mn \<le> sg_dst e \<and> sg_dst e + sg_size e \<le> mx)"
proof (induction es arbitrary: lo hi)
  case (Cons a es)
  let ?lo = "if sg_dst a < lo then sg_dst a else lo" and ?hi = "if sg_dst a + sg_size a > hi then sg_dst a + sg_size a else hi"
  have IH: "mn \<le> ?lo \<and> ?hi \<le> mx \<and> (\<forall>e\<in>set es. mn \<le> sg_dst e \<and> sg_dst e + sg_size e \<le> mx)"
    using Cons.prems by (intro Cons.IH) (simp add: Let_def)
  have le: "?lo \<le> lo" "?lo \<le> sg_dst a" "hi \<le> ?hi" "sg_dst a + sg_size a \<le> ?hi" by auto
  from IH le(1) have "mn \<le> lo" by (meson order.trans)
  moreover from IH le(2) have "mn \<le> sg_dst a" by (meson order.trans)
  moreover from IH le(3) have "hi \<le> mx" by (meson order.trans)
  moreover from IH le(4) have "sg_dst a + sg_size a \<le> mx" by (meson order.trans)
  ultimately show ?case using IH by simp
qed simp

lemma region_between:
  assumes "lo \<le> d" "d + n \<le> hi" "unat d + unat n < 2 ^ 64"
  shows "region d (unat n) \<subseteq> region lo (unat (hi - lo))"
proof
  fix x assume x: "x \<in> region d (unat n)"
  have le: "unat lo \<le> unat d" "unat d + unat n \<le> unat hi"
    using assms by (simp_all add: word_le_nat_alt unat_add_u64)
  then have "lo \<le> hi" by (simp add: word_le_nat_alt)
  then have w: "unat (hi - lo) = unat hi - unat lo" by (rule unat_sub)
  have xd: "unat (x - d) < unat n" using x by (simp add: in_region)
  have dl: "unat (d - lo) = unat d - unat lo" using assms(1) by (rule unat_sub)
  have "x - lo = (x - d) + (d - lo)" by simp
  moreover have "unat (x - d) + unat (d - lo) < 2 ^ 64" using xd dl le assms(3) by linarith
  ultimately have "unat (x - lo) = unat (x - d) + unat (d - lo)" by (metis unat_add_u64)
  with xd dl w le show "x \<in> region lo (unat (hi - lo))" by (simp add: in_region)
qed

lemma dst_range_covers:
  assumes "dst_range es = (mn, mx)" "e \<in> set es" "dst_no_wrap es"
  shows "dst_region e \<subseteq> region mn (unat (mx - mn))"
proof -
  obtain f fs where es: "es = f # fs" using assms(2) by (cases es) auto
  have "mn \<le> sg_dst e \<and> sg_dst e + sg_size e \<le> mx"
    using dst_range_from_bounds [of "sg_dst f" "sg_dst f + sg_size f" fs mn mx] assms(1,2) by (auto simp: es)
  with assms(2,3) show ?thesis by (intro region_between) (auto simp: dst_no_wrap_def)
qed

section \<open>A batch copies its descriptors\<close>

text \<open>The current staging buffer is apart from everything the batch touches.\<close>

definition staging_apart :: "Poller \<Rightarrow> SGEntry list \<Rightarrow> bool" where
  "staging_apart p es \<longleftrightarrow> (\<forall>e\<in>set es. disjnt (src_region e) (region (staging_bufs p (staging_cur p)) (unat (staging_buffer_size p)))
     \<and> disjnt (dst_region e) (region (staging_bufs p (staging_cur p)) (unat (staging_buffer_size p))))"

definition batch_ok :: "Poller \<Rightarrow> SGEntry list \<Rightarrow> bool" where
  "batch_ok p es \<longleftrightarrow> separate es \<and> bytes es < 2 ^ 64 \<and> dst_no_wrap es \<and> staging_apart p es"

text \<open>Gather into the current buffer, then DMA the runs of a permutation of the gathered entries.\<close>

lemma staged_transfer:
  assumes "all_succeed drv" "ce_wf (p_ce p)" "separate es" "bytes es < 2 ^ 64" "mset es' = mset es"
    and b: "b = staging_bufs p (staging_cur p)"
    and fits: "staging_fits b d n es" and room: "n \<le> unat (staging_buffer_size p)"
    and q: "q = staging_submit drv (dst_runs b d es') (gather_into es b d (staging_wait p))"
  shows "issues p q (dst_runs b d es')" and "ce_wf (p_ce q)"
    and "a \<notin> region b (unat (staging_buffer_size p)) \<Longrightarrow> dmas (dst_runs b d es') (p_mem q) a = dmas es (p_mem p) a"
proof -
  let ?p = "gather_into es b d (staging_wait p)"
  have wf: "ce_wf (p_ce ?p)" using assms(2) by simp
  note sub = staging_submit_issues [OF assms(1) wf, of "dst_runs b d es'"]
  have "issues p ?p []" using staging_wait_issues [of p] by (simp add: issues_def)
  from issues_trans [OF this sub(1)] show "issues p q (dst_runs b d es')" by (simp add: q)
  show "ce_wf (p_ce q)" using sub(3) by (simp add: q)
  have "src_dst_disjoint (map (staged b d) es)" using separate_staged [OF assms(3) fits] by (simp add: separate_def)
  from gather_into_mem [OF this] sub(2) have mem: "p_mem q = dmas (map (staged b d) es) (p_mem p)" by (simp add: q)
  assume "a \<notin> region b (unat (staging_buffer_size p))"
  then have "a \<notin> region b n" using region_mono [OF room] by auto
  from staging_correct [OF assms(3) fits assms(4) this assms(5)] show "dmas (dst_runs b d es') (p_mem q) a = dmas es (p_mem p) a"
    by (simp add: mem)
qed

text \<open>What \<open>process_batch\<close> promises of the state and the copies it leaves behind.\<close>

definition transfers :: "Poller \<Rightarrow> Poller \<Rightarrow> SGEntry list \<Rightarrow> bool" where
  "transfers p q es \<longleftrightarrow> ce_wf (p_ce q) \<and> (\<exists>copied. issues p q copied) \<and>
     (\<forall>a. a \<notin> region (staging_bufs p (staging_cur p)) (unat (staging_buffer_size p)) \<longrightarrow>
        after_dma p q a = dmas es (p_mem p) a)"

lemma transfersI:
  assumes "issues p q cs" "ce_wf (p_ce q)"
    and "\<And>a. a \<notin> region (staging_bufs p (staging_cur p)) (unat (staging_buffer_size p)) \<Longrightarrow> dmas cs (p_mem q) a = dmas es (p_mem p) a"
  shows "transfers p q es"
  using assms issues_after [OF assms(1)] by (auto simp: transfers_def)

lemma transfers_stats [simp]: "transfers p (add_stats a b c q) es = transfers p q es"
  "transfers (add_bytes fs p) q es = transfers p q es"
  by (simp_all add: transfers_def after_dma_def)

lemma direct_transfer:
  assumes "all_succeed drv" "ce_wf (p_ce p)" "\<And>m. dmas cs m = dmas es m"
  shows "transfers p (ce_do (submit_scatter_gather drv cs) p) es"
  using submit_issues [OF assms(1,2), of cs] by (rule transfersI) (simp add: assms(3))

lemma generic_path_transfers:
  assumes "all_succeed drv" "ce_wf (p_ce p)" "batch_ok p es" "es \<noteq> []"
  shows "transfers p (generic_path drv n es p) es"
proof -
  let ?s = "radix_sort_sg es es sg_src"
  let ?c = "coalesce ?s"
  have es: "separate es" "bytes es < 2 ^ 64" "dst_no_wrap es" "staging_apart p es" using assms(3) by (simp_all add: batch_ok_def)
  have ok: "length es \<le> length es" by simp
  note c = radix.srt_coalesce [OF ok es(1,2), where key = sg_src]
  have keep: "mset ?s = mset es" by (rule radix.keeps [OF ok])
  have "dst_no_wrap ?s" using es(3) mset_eq_setD [OF keep] by (simp add: dst_no_wrap_def)
  then have nw: "dst_no_wrap ?c" by (rule coalesce_no_wrap)
  obtain mn mx where rng: "dst_range ?c = (mn, mx)" by (cases "dst_range ?c")
  show ?thesis
  proof (cases "STAGING_THRESHOLD < length ?c \<and> 0 < num_staging_bufs p \<and> mx - mn \<le> staging_buffer_size p")
    case False
    then have "generic_path drv n es p = add_stats n (length ?c) 1 (ce_do (submit_scatter_gather drv ?c) p)"
      by (auto simp: generic_path_def Let_def rng)
    then show ?thesis using direct_transfer [OF assms(1,2)] c(1) by simp
  next
    case True
    let ?b = "staging_bufs p (staging_cur p)"
    let ?d = "radix_sort_sg ?c ?s sg_dst"
    have len: "length ?c \<le> length ?s" by (rule length_coalesce)
    have perm: "mset ?d = mset ?c" by (rule radix.keeps [OF len])
    have room: "unat (mx - mn) \<le> unat (staging_buffer_size p)" using True by (simp add: word_le_nat_alt)
    have fits: "staging_fits ?b mn (unat (mx - mn)) ?c"
      unfolding staging_fits_def
    proof
      fix e assume e: "e \<in> set ?c"
      have "src_region e \<subseteq> \<Union> (src_region ` set es)" "dst_region e \<subseteq> \<Union> (dst_region ` set es)" using c(4,5) e by auto
      then have "disjnt (src_region e) (region ?b (unat (staging_buffer_size p)))" "disjnt (dst_region e) (region ?b (unat (staging_buffer_size p)))"
        using es(4) unfolding staging_apart_def disjnt_iff by blast+
      then show "dst_region e \<subseteq> region mn (unat (mx - mn)) \<and> disjnt (src_region e) (region ?b (unat (mx - mn)))
          \<and> disjnt (dst_region e) (region ?b (unat (mx - mn)))"
        using dst_range_covers [OF rng e nw] region_mono [OF room, of ?b] by (auto intro: disjnt_subset2)
    qed
    have bc: "bytes ?c < 2 ^ 64" using es(2) c(3) by simp
    note t = staged_transfer [OF assms(1,2) c(2) bc perm refl fits room refl]
    have "generic_path drv n es p = add_stats n (length ?c) 1 (staging_submit drv (dst_runs ?b mn ?d) (gather_into ?c ?b mn (staging_wait p)))"
      using True by (simp add: generic_path_def Let_def rng)
    then show ?thesis using transfersI [OF t(1,2)] t(3) c(1) by simp
  qed
qed

lemma uniform_path_transfers:
  assumes "all_succeed drv" "ce_wf (p_ce p)" "batch_ok p es" "es = e # fs" "dst_contiguous es"
    and size32: "ucast (ucast (sg_size e) :: u32) = sg_size e"
    and room: "of_nat (length es) * sg_size e \<le> staging_buffer_size p"
    and b: "b = staging_bufs p (staging_cur p)"
  shows "transfers p (staging_submit drv [\<lparr>sg_dst = sg_dst e, sg_src = b, sg_size = of_nat (length es) * sg_size e\<rparr>]
     (gather_into es b (sg_dst e) (staging_wait p))) es"
proof -
  have es: "separate es" "bytes es < 2 ^ 64" "staging_apart p es" using assms(3) by (simp_all add: batch_ok_def)
  let ?n = "ucast (sg_size e) :: u32"
  have u: "uniform_from (sg_dst e + sg_size e) ?n fs" using assms(4,5) size32 by (simp add: Let_def)
  have sizes: "\<forall>f\<in>set es. sg_size f = sg_size e" using uniform_sizes(2) [OF u] size32 assms(4) by (cases "fs = []") auto
  note total = uniform_size_sum [OF sizes]
  have n: "unat (of_nat (length es) * sg_size e) = bytes es" using unat_size_sum [OF es(2)] total by simp
  have u0: "uniform_from (sg_dst e + of_nat 0) ?n es" using u size32 assms(4) by simp
  have room': "bytes es \<le> unat (staging_buffer_size p)" using room n by (simp add: word_le_nat_alt)
  have fits: "staging_fits b (sg_dst e) (bytes es) es"
    unfolding staging_fits_def
  proof
    fix f assume f: "f \<in> set es"
    have "dst_region f \<subseteq> region (sg_dst e) (bytes es)" using uniform_regions [OF u0 f] es(2) by simp
    then show "dst_region f \<subseteq> region (sg_dst e) (bytes es) \<and> disjnt (src_region f) (region b (bytes es)) \<and> disjnt (dst_region f) (region b (bytes es))"
      using es(3) f region_mono [OF room', of b] b by (auto simp: staging_apart_def intro: disjnt_subset2)
  qed
  have runs: "dst_runs b (sg_dst e) es = [\<lparr>sg_dst = sg_dst e, sg_src = b, sg_size = of_nat (length es) * sg_size e\<rparr>]"
    using uniform_run [OF u, of b "sg_dst e"] total by (simp add: assms(4))
  note t = staged_transfer [OF assms(1,2) es(1,2) refl b fits room' refl]
  show ?thesis using transfersI [OF t(1,2)] t(3) runs b by simp
qed

lemma process_batch_transfers:
  assumes "all_succeed drv" "ce_wf (p_ce p)" "batch \<noteq> []" "batch_ok p (map sg_of batch)"
  shows "fst (process_batch drv batch p)" and "transfers p (snd (process_batch drv batch p)) (map sg_of batch)"
proof -
  let ?es = "map sg_of batch" let ?p = "add_bytes (map sg_of batch) p" let ?e = "hd ?es"
  show "fst (process_batch drv batch p)" by (simp add: process_batch_def Let_def)
  have wf: "ce_wf (p_ce ?p)" and bo: "batch_ok ?p ?es" using assms(2,4) by (simp_all add: batch_ok_def staging_apart_def)
  have ne: "?es \<noteq> []" and es: "?es = ?e # tl ?es" using assms(3) by (cases batch; simp)+
  have len: "length ?es = length batch" by simp
  have s32: "ucast (ucast (sg_size ?e) :: u32) = sg_size ?e" using assms(3) by (intro sg_size_32 [of _ batch]) (cases batch; simp)
  note gen = generic_path_transfers [OF assms(1) wf bo ne, of "length batch"]
  have con: "dmas [?e\<lparr>sg_size := of_nat (length batch) * sg_size ?e\<rparr>] m = dmas ?es m" if "dst_contiguous ?es" "src_contiguous ?es" for m
  proof -
    have u: "uniform_from (sg_dst ?e + sg_size ?e) (ucast (sg_size ?e)) (tl ?es)"
      using that(1) s32 by (subst (asm) es) (simp only: dst_contiguous.simps Let_def)
    have sizes: "\<forall>f\<in>set ?es. sg_size f = sg_size ?e"
      using uniform_sizes(2) [OF u] s32 by (subst es) (cases "tl ?es = []"; simp)
    have "fully_contiguous ?es" using uniform_fully [OF u s32 [symmetric]] that(2) es by metis
    from merged_dma [OF ne this] assms(4) show ?thesis
      using uniform_size_sum [OF sizes] by (simp add: merged_def batch_ok_def)
  qed
  have "transfers ?p (snd (process_batch drv batch p)) ?es"
  proof (cases "length batch = 1")
    case True
    then show ?thesis using direct_transfer [OF assms(1) wf, of ?es ?es] by (simp add: process_batch_def Let_def)
  next
    case n1: False
    show ?thesis
    proof (cases "dst_contiguous ?es \<and> 1 < length batch \<and> 0 < num_staging_bufs p")
      case False
      with n1 show ?thesis using gen by (auto simp: process_batch_def Let_def)
    next
      case dc: True
      show ?thesis
      proof (cases "src_contiguous ?es")
        case True
        then show ?thesis using direct_transfer [OF assms(1) wf con] dc n1 by (simp add: process_batch_def Let_def)
      next
        case sc: False
        show ?thesis
        proof (cases "of_nat (length batch) * sg_size ?e \<le> staging_buffer_size p")
          case True
          then show ?thesis
            using uniform_path_transfers [OF assms(1) wf bo es _ s32 _ refl] dc sc n1
            by (simp add: process_batch_def Let_def)
        next
          case False
          then show ?thesis using gen dc sc n1 by (simp add: process_batch_def Let_def)
        qed
      qed
    qed
  qed
  then show "transfers p (snd (process_batch drv batch p)) ?es" by simp
qed

lemma process_batch_no_ce_copies:
  assumes "separate (map sg_of batch)"
  shows "p_mem (process_batch_no_ce batch p) = dmas (map sg_of batch) (p_mem p)"
proof -
  have "fold (\<lambda>e. memcpy (sg_dst e) (sg_src e) (unat (sg_size e))) es m = dmas es m" for es m
    by (simp add: dmas_def dma_def [abs_def])
  then show ?thesis using stdsort.srt_dmas [OF _ assms] by (simp add: process_batch_no_ce_def Let_def)
qed

end
