(* ===== verification/Tiled_Processor.thy ===== *)
theory Tiled_Processor
  imports Poller
begin

text \<open>
  The per-tile and per-list transfer paths of \<open>src/batch_processor.cpp\<close>: \<open>process_batch_tiled\<close> groups a batch
  by tile id, submits one DMA group per tile (or a single one when everything is contiguous), counts progress per tile
  and writes the counts to the tile signals; \<open>process_batch_sg\<close> does the same by list id and marks lists
  done. Both write device signals on a dedicated stream that was made to wait for every copy-engine channel in use,
  so a signal is written after the data it announces.
\<close>

section \<open>Grouping and data transfers\<close>

definition group_entries :: "Descriptor list \<Rightarrow> nat list list \<Rightarrow> SGEntry list list" where
  "group_entries batch groups = map (map (\<lambda>i. sg_of (batch ! i))) groups"

text \<open>One tile's DMA list: merged when it is contiguous.\<close>

definition tile_dma :: "SGEntry list \<Rightarrow> SGEntry list" where
  "tile_dma es = (if length es = 1 then es else if fully_contiguous es then [merged es] else es)"

definition tiled_dmas :: "SGEntry list list \<Rightarrow> SGEntry list list" where
  "tiled_dmas groups =
     (let all = concat groups
      in if 1 < length all \<and> fully_contiguous all then [merged all] # [] else map tile_dma groups)"

definition submit_groups :: "cu_driver \<Rightarrow> SGEntry list list \<Rightarrow> Poller \<Rightarrow> Poller" where
  "submit_groups drv gs = fold (\<lambda>es. ce_do (submit_scatter_gather drv es)) gs"

section \<open>Progress and tile signals\<close>

definition tile_step :: "nat \<Rightarrow> nat \<Rightarrow> Poller \<Rightarrow> Poller" where
  "tile_step tile_id n p =
     (if tile_id < MAX_TILES
      then let v = tile_progress p tile_id + of_nat n
           in p\<lparr>tile_progress := (tile_progress p)(tile_id := v), signal_buf := (signal_buf p)(tile_id := v)\<rparr>
      else p)"

definition update_progress :: "nat list \<Rightarrow> nat list \<Rightarrow> Poller \<Rightarrow> Poller" where
  "update_progress ids counts p =
     (if signal_buf_addr p = None then p else fold (\<lambda>(t, n). tile_step t n) (zip ids counts) p)"

definition signal_call :: "u64 \<Rightarrow> u64 \<Rightarrow> nat \<Rightarrow> nat \<Rightarrow> nat \<Rightarrow> cu_call" where
  "signal_call d s tid words stream = MemcpyHtoDAsync (d + of_nat (8 * tid)) (s + of_nat (8 * tid)) (of_nat (8 * words)) stream"

definition device_signals :: "u64 \<Rightarrow> u64 \<Rightarrow> nat list \<Rightarrow> Poller \<Rightarrow> Poller" where
  "device_signals d s ids p =
     (let single = fold (\<lambda>t. if t < MAX_TILES then call (signal_call d s t 1 (signal_stream p)) else (\<lambda>p. p)) ids in
      if length ids \<le> 4 then single p
      else let min_tid = fold min (tl ids) (hd ids); max_tid = fold max (tl ids) (hd ids); range = max_tid - min_tid + 1
           in if range = length ids \<and> max_tid < MAX_TILES
              then call (signal_call d s min_tid range (signal_stream p)) p
              else single p)"

definition host_signals :: "cu_driver \<Rightarrow> u64 \<Rightarrow> nat list \<Rightarrow> Poller \<Rightarrow> Poller" where
  "host_signals drv s ids p =
     (let es = map (\<lambda>t. \<lparr>sg_dst = host_tile_addr p + of_nat (8 * t), sg_src = s + of_nat (8 * t), sg_size = 8\<rparr>)
                 (filter (\<lambda>t. t < MAX_TILES) ids)
      in if 0 < length es then ce_do (submit_scatter_gather drv es) p else p)"

definition tile_signals :: "cu_driver \<Rightarrow> nat list \<Rightarrow> Poller \<Rightarrow> Poller" where
  "tile_signals drv ids p =
     (case signal_buf_addr p of None \<Rightarrow> p
      | Some s \<Rightarrow>
          case (if tiled_set p \<and> signal_stream p \<noteq> 0 then dev_tile_addr p else None) of
            Some d \<Rightarrow> device_signals d s ids (ce_do (make_stream_wait_on_all drv (signal_stream p)) p)
          | None \<Rightarrow> host_signals drv s ids p)"

definition process_batch_tiled :: "cu_driver \<Rightarrow> Descriptor list \<Rightarrow> Poller \<Rightarrow> Poller" where
  "process_batch_tiled drv batch p =
     (case group_batch MAX_TILES (replicate (length batch) 0) (map id_of batch) (bucket_map_storage p) of
        (active_tile_ids, groups, bm) \<Rightarrow>
        let gs = group_entries batch groups;
            p1 = add_bytes (concat gs) (p\<lparr>bucket_map_storage := bm\<rparr>);
            p2 = update_progress active_tile_ids (map length gs) p1;
            p3 = submit_groups drv (tiled_dmas gs) p2;
            p4 = tile_signals drv active_tile_ids p3
        in p4\<lparr>descriptors_processed := descriptors_processed p4 + of_nat (length batch),
              batches_submitted := batches_submitted p4 + of_nat (length active_tile_ids)\<rparr>)"

section \<open>Lists\<close>

definition list_dma :: "SGEntry list \<Rightarrow> SGEntry list" where
  "list_dma es = (if 1 < length es \<and> fully_contiguous es then [merged es] else es)"

definition bump_completed :: "nat \<Rightarrow> Poller \<Rightarrow> Poller" where
  "bump_completed n p = p\<lparr>lists_completed := lists_completed p + of_nat n\<rparr>"

definition list_signal :: "u64 \<Rightarrow> nat \<Rightarrow> Poller \<Rightarrow> Poller" where
  "list_signal d list_id p =
     (case signal_buf_addr p of
        Some s \<Rightarrow> if list_id < MAX_SG_LISTS
                  then call (signal_call d s list_id 1 (signal_stream p)) (p\<lparr>signal_buf := (signal_buf p)(list_id := 1)\<rparr>)
                  else p
      | None \<Rightarrow> p)"

definition list_signal_sync :: "nat \<Rightarrow> Poller \<Rightarrow> Poller" where
  "list_signal_sync list_id p =
     (case dev_list_addr p of
        Some d \<Rightarrow> if list_id < MAX_SG_LISTS then call (MemcpyHtoD (d + of_nat (8 * list_id)) 1 8) p else p
      | None \<Rightarrow> p)"

definition list_signals :: "cu_driver \<Rightarrow> nat list \<Rightarrow> Poller \<Rightarrow> Poller" where
  "list_signals drv ids p =
     (if \<not> sg_set p then p
      else case (if signal_stream p \<noteq> 0 then dev_list_addr p else None) of
        Some d \<Rightarrow> bump_completed (length ids)
                    (fold (list_signal d) ids (ce_do (make_stream_wait_on_all drv (signal_stream p)) p))
      | None \<Rightarrow> bump_completed (length ids) (fold list_signal_sync ids (ce_do (wait_completion drv) p)))"

definition process_batch_sg :: "cu_driver \<Rightarrow> Descriptor list \<Rightarrow> Poller \<Rightarrow> Poller" where
  "process_batch_sg drv batch p =
     (case group_batch MAX_SG_LISTS (replicate (length batch) 0) (map id_of batch) (sg_bucket_map p) of
        (active_list_ids, groups, bm) \<Rightarrow>
        let gs = group_entries batch groups;
            p1 = submit_groups drv (map list_dma gs) (p\<lparr>sg_bucket_map := bm\<rparr>);
            p2 = add_bytes (concat gs) p1;
            p3 = list_signals drv active_list_ids p2
        in p3\<lparr>descriptors_processed := descriptors_processed p3 + of_nat (length batch),
              batches_submitted := batches_submitted p3 + of_nat (length active_list_ids)\<rparr>)"

section \<open>The groups hold every descriptor with a valid id\<close>

lemma mset_by_key:
  assumes "distinct act"
  shows "mset (concat (map (\<lambda>k. filter (\<lambda>i. ks ! i = k) is) act)) = mset (filter (\<lambda>i. ks ! i \<in> set act) is)"
  using assms
proof (induction act)
  case (Cons k act)
  have "filter (\<lambda>i. ks ! i \<in> set (k # act)) is = filter (\<lambda>i. ks ! i = k \<or> ks ! i \<in> set act) is" by simp
  also have "mset \<dots> = mset (filter (\<lambda>i. ks ! i = k) is) + mset (filter (\<lambda>i. ks ! i \<in> set act) is)"
    using Cons.prems by (induction "is") auto
  finally show ?case using Cons by simp
qed simp

definition valid_entries :: "nat \<Rightarrow> Descriptor list \<Rightarrow> SGEntry list" where
  "valid_entries limit batch = map sg_of (filter (\<lambda>d. id_of d < limit) batch)"

lemma groups_are_valid_entries:
  assumes "group_batch limit (replicate (length batch) 0) (map id_of batch) (\<lambda>_. -1) = (act, groups, bm)"
  shows "mset (concat (group_entries batch groups)) = mset (valid_entries limit batch)"
    and "bm = (\<lambda>_. -1)" and "distinct act" and "set act = {k \<in> id_of ` set batch. k < limit}"
    and "map length (group_entries batch groups) = map (\<lambda>k. length (filter (\<lambda>d. id_of d = k) batch)) act"
    and "g \<in> set (group_entries batch groups) \<Longrightarrow> g \<noteq> []"
proof -
  let ?ks = "map id_of batch"
  have "length ?ks \<le> length (replicate (length batch) (0::nat))" by simp
  note g = group_batch_correct [OF this assms]
  show "bm = (\<lambda>_. -1)" "distinct act" by (fact g)+
  show act: "set act = {k \<in> id_of ` set batch. k < limit}" using g(2) by simp
  have len: "length (filter (\<lambda>i. ?ks ! i = k) [0..<length ?ks]) = length (filter (\<lambda>d. id_of d = k) batch)" for k
    using filter_idx [of "\<lambda>x. x = k" ?ks] by (simp add: filter_map comp_def)
  show lens: "map length (group_entries batch groups) = map (\<lambda>k. length (filter (\<lambda>d. id_of d = k) batch)) act"
    unfolding group_entries_def g(3) using len by simp
  have "mset (concat groups) = mset (filter (\<lambda>i. ?ks ! i \<in> set act) [0..<length ?ks])"
    unfolding g(3) by (rule mset_by_key [OF g(1)])
  also have "filter (\<lambda>i. ?ks ! i \<in> set act) [0..<length ?ks] = filter (\<lambda>i. id_of (batch ! i) < limit) [0..<length batch]"
    using act by (intro filter_cong) auto
  finally have "mset (concat groups) = mset (filter (\<lambda>i. id_of (batch ! i) < limit) [0..<length batch])" .
  then have "mset (map (\<lambda>i. sg_of (batch ! i)) (concat groups))
      = mset (map (\<lambda>i. sg_of (batch ! i)) (filter (\<lambda>i. id_of (batch ! i) < limit) [0..<length batch]))" by (metis mset_map)
  moreover have "map (\<lambda>i. batch ! i) (filter (\<lambda>i. id_of (batch ! i) < limit) [0..<length batch]) = filter (\<lambda>d. id_of d < limit) batch"
    using filter_map [of "\<lambda>d. id_of d < limit" "\<lambda>i. batch ! i" "[0..<length batch]"] by (simp add: map_nth comp_def)
  then have "map (\<lambda>i. sg_of (batch ! i)) (filter (\<lambda>i. id_of (batch ! i) < limit) [0..<length batch]) = valid_entries limit batch"
    unfolding valid_entries_def by (metis (no_types, lifting) comp_apply map_map map_eq_conv)
  ultimately show "mset (concat (group_entries batch groups)) = mset (valid_entries limit batch)"
    by (simp add: group_entries_def map_concat)
  assume "g \<in> set (group_entries batch groups)"
  then have "length g \<in> set (map length (group_entries batch groups))" by auto
  then obtain k where "k \<in> set act" "length g = length (filter (\<lambda>d. id_of d = k) batch)" unfolding lens by auto
  moreover have "filter (\<lambda>d. id_of d = k) batch \<noteq> []" using \<open>k \<in> set act\<close> act by (auto simp: filter_empty_conv)
  ultimately show "g \<noteq> []" by auto
qed

section \<open>Data transfers\<close>

abbreviation p_tracks :: "Poller \<Rightarrow> bool" where
  "p_tracks p \<equiv> ce_tracks (p_ce p) (p_trace p)"

lemma submit_tracks:
  assumes "all_succeed drv" "ce_wf (p_ce p)" "p_tracks p"
  shows "p_tracks (ce_do (submit_scatter_gather drv es) p)"
proof (cases "es = []")
  case False
  obtain m where "submit_scatter_gather drv es (p_ce p) (p_trace p) = (CUDA_SUCCESS, submitted (p_ce p) es m, p_trace p @ submit_calls (p_ce p) es m)"
    and "\<And>k. bit m k \<longleftrightarrow> k \<in> fst ` set (assign (p_ce p) es)"
    using submit_success [OF assms(1,2) False] by metis
  then show ?thesis using submitted_tracks [OF assms(2) _ assms(3)] by (simp add: ce_do_def)
qed (use assms(3) in \<open>simp add: ce_do_def submit_Nil\<close>)

lemma submit_groups_issues:
  assumes "all_succeed drv" "ce_wf (p_ce p)"
  shows "issues p (submit_groups drv gs p) (concat gs)" "ce_wf (p_ce (submit_groups drv gs p))"
    and "p_mem (submit_groups drv gs p) = p_mem p" and "p_tracks p \<Longrightarrow> p_tracks (submit_groups drv gs p)"
proof -
  have "issues p (submit_groups drv gs p) (concat gs) \<and> ce_wf (p_ce (submit_groups drv gs p))
    \<and> p_mem (submit_groups drv gs p) = p_mem p \<and> (p_tracks p \<longrightarrow> p_tracks (submit_groups drv gs p))"
    using assms(2)
  proof (induction gs arbitrary: p)
    case Nil
    then show ?case by (simp add: submit_groups_def issues_refl)
  next
    case (Cons g gs)
    note s = submit_issues [OF assms(1) Cons.prems, of g]
    note t = submit_tracks [OF assms(1) Cons.prems, of g]
    from Cons.IH [OF s(2)] issues_trans [OF s(1)] t show ?case by (auto simp: submit_groups_def)
  qed
  then show "issues p (submit_groups drv gs p) (concat gs)" "ce_wf (p_ce (submit_groups drv gs p))"
    "p_mem (submit_groups drv gs p) = p_mem p" "p_tracks p \<Longrightarrow> p_tracks (submit_groups drv gs p)" by simp_all
qed

lemma merged_groups:
  assumes "\<And>g m. g \<in> set gs \<Longrightarrow> g \<noteq> [] \<Longrightarrow> separate g \<Longrightarrow> bytes g < 2 ^ 64 \<Longrightarrow> dmas (f g) m = dmas g m"
    and "\<And>g. g \<in> set gs \<Longrightarrow> g \<noteq> []" "separate (concat gs)" "bytes (concat gs) < 2 ^ 64"
  shows "dmas (concat (map f gs)) m = dmas (concat gs) m"
  using assms
proof (induction gs arbitrary: m)
  case (Cons g gs)
  have "dmas (f g) m = dmas g m"
    using Cons.prems separate_appendD1 [of g "concat gs"] by (intro Cons.prems(1)) auto
  moreover have "dmas (concat (map f gs)) m' = dmas (concat gs) m'" for m'
    using Cons.prems separate_appendD2 [of g "concat gs"] by (intro Cons.IH) auto
  ultimately show ?case by simp
qed simp

lemma tile_dma_correct: "g \<noteq> [] \<Longrightarrow> separate g \<Longrightarrow> bytes g < 2 ^ 64 \<Longrightarrow> dmas (tile_dma g) m = dmas g m"
  using merged_dma [of g] by (simp add: tile_dma_def)

lemma list_dma_correct: "g \<noteq> [] \<Longrightarrow> separate g \<Longrightarrow> bytes g < 2 ^ 64 \<Longrightarrow> dmas (list_dma g) m = dmas g m"
  using merged_dma [of g] by (simp add: list_dma_def)

lemma tiled_dmas_correct:
  assumes "\<And>g. g \<in> set gs \<Longrightarrow> g \<noteq> []" "separate (concat gs)" "bytes (concat gs) < 2 ^ 64"
  shows "dmas (concat (tiled_dmas gs)) m = dmas (concat gs) m"
proof (cases "1 < length (concat gs) \<and> fully_contiguous (concat gs)")
  case True
  then have "concat gs \<noteq> []" by (metis length_0_conv not_less_zero)
  from merged_dma [OF this _ assms(2,3)] True show ?thesis by (simp add: tiled_dmas_def Let_def)
next
  case False
  then have "tiled_dmas gs = map tile_dma gs" unfolding tiled_dmas_def Let_def by (rule if_not_P)
  then show ?thesis using merged_groups [of gs tile_dma] assms tile_dma_correct by simp
qed

section \<open>Progress counts\<close>

lemma tile_step_only: "\<exists>tp sb. tile_step t n p = p\<lparr>tile_progress := tp, signal_buf := sb\<rparr>"
proof (cases "t < MAX_TILES")
  case False
  then have "tile_step t n p = p\<lparr>tile_progress := tile_progress p, signal_buf := signal_buf p\<rparr>" by (simp add: tile_step_def)
  then show ?thesis by blast
qed (auto simp: tile_step_def Let_def)

lemma update_progress_only: "\<exists>tp sb. update_progress ids ns p = p\<lparr>tile_progress := tp, signal_buf := sb\<rparr>"
proof -
  have "\<exists>tp sb. fold (\<lambda>(t, n). tile_step t n) xs p = p\<lparr>tile_progress := tp, signal_buf := sb\<rparr>" for xs
  proof (induction xs rule: rev_induct)
    case Nil
    show ?case by (rule exI [of _ "tile_progress p"], rule exI [of _ "signal_buf p"]) simp
  next
    case (snoc x xs)
    then obtain tp sb where "fold (\<lambda>(t, n). tile_step t n) xs p = p\<lparr>tile_progress := tp, signal_buf := sb\<rparr>" by blast
    moreover obtain tp' sb' where "tile_step (fst x) (snd x) (p\<lparr>tile_progress := tp, signal_buf := sb\<rparr>) = p\<lparr>tile_progress := tp', signal_buf := sb'\<rparr>"
      using tile_step_only [of "fst x" "snd x" "p\<lparr>tile_progress := tp, signal_buf := sb\<rparr>"] by auto
    ultimately show ?case by (simp add: split_def) blast
  qed
  moreover have "p = p\<lparr>tile_progress := tile_progress p, signal_buf := signal_buf p\<rparr>" by simp
  ultimately show ?thesis unfolding update_progress_def by (metis (full_types))
qed

lemma update_progress_frame [simp]:
  "p_trace (update_progress ids ns p) = p_trace p" "p_ce (update_progress ids ns p) = p_ce p" "p_mem (update_progress ids ns p) = p_mem p"
  "signal_stream (update_progress ids ns p) = signal_stream p" "tiled_set (update_progress ids ns p) = tiled_set p"
  "dev_tile_addr (update_progress ids ns p) = dev_tile_addr p" "signal_buf_addr (update_progress ids ns p) = signal_buf_addr p"
  using update_progress_only [of ids ns p] by auto

lemma update_progress_values:
  assumes "distinct ids" "\<forall>t\<in>set ids. t < MAX_TILES" "signal_buf_addr p \<noteq> None"
    and q: "q = update_progress ids (map f ids) p"
  shows "t \<in> set ids \<Longrightarrow> tile_progress q t = tile_progress p t + of_nat (f t) \<and> signal_buf q t = tile_progress q t"
    and "t \<notin> set ids \<Longrightarrow> tile_progress q t = tile_progress p t \<and> signal_buf q t = signal_buf p t"
proof -
  have "(t \<in> set ids \<longrightarrow> tile_progress q t = tile_progress p t + of_nat (f t) \<and> signal_buf q t = tile_progress q t)
    \<and> (t \<notin> set ids \<longrightarrow> tile_progress q t = tile_progress p t \<and> signal_buf q t = signal_buf p t)"
    if "q = fold (\<lambda>(t, n). tile_step t n) (zip ids (map f ids)) p" for t q
    using assms(1,2) that
  proof (induction ids arbitrary: p)
    case (Cons x xs)
    let ?p = "tile_step x (f x) p"
    have x: "tile_progress ?p = (tile_progress p)(x := tile_progress p x + of_nat (f x))"
      "signal_buf ?p = (signal_buf p)(x := tile_progress p x + of_nat (f x))" using Cons.prems(2) by (simp_all add: tile_step_def Let_def)
    have "q = fold (\<lambda>(t, n). tile_step t n) (zip xs (map f xs)) ?p" using Cons.prems(3) by simp
    from Cons.IH [OF _ _ this] Cons.prems(1,2) show ?case by (auto simp: x)
  qed simp
  from this [of q t] show "t \<in> set ids \<Longrightarrow> tile_progress q t = tile_progress p t + of_nat (f t) \<and> signal_buf q t = tile_progress q t"
    and "t \<notin> set ids \<Longrightarrow> tile_progress q t = tile_progress p t \<and> signal_buf q t = signal_buf p t"
    using assms(3) unfolding q update_progress_def by (simp_all only: if_False refl) simp_all
qed

section \<open>Signals\<close>

lemma fold_call: "fold (\<lambda>t. call (f t)) ts p = p\<lparr>p_trace := p_trace p @ map f ts\<rparr>"
  by (induction ts arbitrary: p) (simp_all add: call_def)

lemma fold_min_max:
  fixes a :: nat
  shows "fold min ts a \<le> a" "\<forall>t\<in>set ts. fold min ts a \<le> t" "fold min ts a \<in> insert a (set ts)"
    and "a \<le> fold max ts a" "\<forall>t\<in>set ts. t \<le> fold max ts a" "fold max ts a \<in> insert a (set ts)"
proof -
  have mn: "fold min ts a = Min (insert a (set ts))" and mx: "fold max ts a = Max (insert a (set ts))" for a
    using Min.set_eq_fold [of a ts] Max.set_eq_fold [of a ts] by (simp_all add: min.commute max.commute)
  show "fold min ts a \<le> a" "\<forall>t\<in>set ts. fold min ts a \<le> t" unfolding mn by auto
  show "fold min ts a \<in> insert a (set ts)" unfolding mn by (rule Min_in) auto
  show "a \<le> fold max ts a" "\<forall>t\<in>set ts. t \<le> fold max ts a" unfolding mx by auto
  show "fold max ts a \<in> insert a (set ts)" unfolding mx by (rule Max_in) auto
qed

definition signal_calls :: "u64 \<Rightarrow> u64 \<Rightarrow> nat \<Rightarrow> (nat \<times> nat) list \<Rightarrow> trace" where
  "signal_calls d s stream ws = map (\<lambda>(t, w). signal_call d s t w stream) ws"

text \<open>The writes cover the words of the active tiles and nothing else, batched or not.\<close>

lemma device_signals_exact:
  assumes "distinct ids" "\<forall>t\<in>set ids. t < MAX_TILES"
  shows "\<exists>ws. device_signals d s ids p = p\<lparr>p_trace := p_trace p @ signal_calls d s (signal_stream p) ws\<rparr>
     \<and> (\<Union>(t, w)\<in>set ws. {t..<t + w}) = set ids"
proof -
  let ?single = "fold (\<lambda>t. if t < MAX_TILES then call (signal_call d s t 1 (signal_stream p)) else (\<lambda>p. p)) ids p"
  let ?mn = "fold min (tl ids) (hd ids)" let ?mx = "fold max (tl ids) (hd ids)"
  have "?single = fold (\<lambda>t. call (signal_call d s t 1 (signal_stream p))) ids p"
    using assms(2) by (intro fold_cong) auto
  then have single: "?single = p\<lparr>p_trace := p_trace p @ signal_calls d s (signal_stream p) (map (\<lambda>t. (t, 1)) ids)\<rparr>"
    by (simp add: fold_call signal_calls_def comp_def)
  have one: ?thesis if "device_signals d s ids p = ?single"
    using single that by (intro exI [of _ "map (\<lambda>t. (t, 1)) ids"]) auto
  show ?thesis
  proof (cases "length ids \<le> 4 \<or> \<not> (?mx - ?mn + 1 = length ids \<and> ?mx < MAX_TILES)")
    case True
    then show ?thesis by (intro one) (auto simp: device_signals_def Let_def)
  next
    case False
    then have len: "4 < length ids" "?mx - ?mn + 1 = length ids" by auto
    then have ids: "set ids = insert (hd ids) (set (tl ids))" by (cases ids) auto
    note mm = fold_min_max [where a = "hd ids" and ts = "tl ids"]
    have sub: "set ids \<subseteq> {?mn..?mx}"
    proof
      fix t assume "t \<in> set ids"
      then consider "t = hd ids" | "t \<in> set (tl ids)" using ids by blast
      then show "t \<in> {?mn..?mx}" using mm by cases auto
    qed
    have "?mn \<le> ?mx" using mm by (meson order.trans)
    then have "card {?mn..?mx} = card (set ids)" using len(2) distinct_card [OF assms(1)] by simp
    then have "set ids = {?mn..?mx}" using sub by (intro card_subset_eq) auto
    moreover have "device_signals d s ids p = p\<lparr>p_trace := p_trace p @ signal_calls d s (signal_stream p) [(?mn, ?mx - ?mn + 1)]\<rparr>"
      using False unfolding device_signals_def Let_def call_def signal_calls_def by (simp del: One_nat_def)
    moreover have "{?mn..<?mn + (?mx - ?mn + 1)} = {?mn..?mx}" using \<open>?mn \<le> ?mx\<close> by auto
    ultimately show ?thesis by (intro exI [of _ "[(?mn, ?mx - ?mn + 1)]"]) simp
  qed
qed

lemma signal_on_stream: "c \<in> set (signal_calls d s stream ws) \<Longrightarrow> on_stream stream c"
  by (auto simp: signal_calls_def signal_call_def on_stream_def)

lemma ce_do_fields [simp]: "signal_stream (ce_do f p) = signal_stream p" "signal_buf (ce_do f p) = signal_buf p"
  "tile_progress (ce_do f p) = tile_progress p" "signal_buf_addr (ce_do f p) = signal_buf_addr p"
  "dev_tile_addr (ce_do f p) = dev_tile_addr p" "tiled_set (ce_do f p) = tiled_set p"
  "dev_list_addr (ce_do f p) = dev_list_addr p" "sg_set (ce_do f p) = sg_set p" "lists_completed (ce_do f p) = lists_completed p"
  by (simp_all add: ce_do_def split: prod.splits)

lemma submit_groups_fields [simp]: "signal_stream (submit_groups drv gs p) = signal_stream p" "signal_buf (submit_groups drv gs p) = signal_buf p"
  "tile_progress (submit_groups drv gs p) = tile_progress p" "signal_buf_addr (submit_groups drv gs p) = signal_buf_addr p"
  "dev_tile_addr (submit_groups drv gs p) = dev_tile_addr p" "tiled_set (submit_groups drv gs p) = tiled_set p"
  "dev_list_addr (submit_groups drv gs p) = dev_list_addr p" "sg_set (submit_groups drv gs p) = sg_set p"
  "lists_completed (submit_groups drv gs p) = lists_completed p"
  by (induction gs arbitrary: p; simp add: submit_groups_def)+

section \<open>\<open>process_batch_tiled\<close>\<close>

text \<open>The state between the data transfers and the signals.\<close>

lemma tiled_run:
  assumes "all_succeed drv" "ce_wf (p_ce p)" "bucket_map_storage p = (\<lambda>_. -1)"
  obtains act gs p3 nd nb where "process_batch_tiled drv batch p = (tile_signals drv act p3)\<lparr>descriptors_processed := nd, batches_submitted := nb\<rparr>"
    and "mset (concat gs) = mset (valid_entries MAX_TILES batch)" "\<And>g. g \<in> set gs \<Longrightarrow> g \<noteq> []"
    and "distinct act" "set act = {k \<in> id_of ` set batch. k < MAX_TILES}"
    and "issues p p3 (concat (tiled_dmas gs))" "ce_wf (p_ce p3)" "p_mem p3 = p_mem p" "p_tracks p \<Longrightarrow> p_tracks p3"
    and "signal_stream p3 = signal_stream p" "signal_buf_addr p3 = signal_buf_addr p" "dev_tile_addr p3 = dev_tile_addr p" "tiled_set p3 = tiled_set p"
    and "\<And>t. signal_buf_addr p \<noteq> None \<Longrightarrow> t < MAX_TILES \<Longrightarrow>
           tile_progress p3 t = tile_progress p t + of_nat (length (filter (\<lambda>d. id_of d = t) batch))"
    and "\<And>t. signal_buf_addr p \<noteq> None \<Longrightarrow> t \<in> set act \<Longrightarrow> signal_buf p3 t = tile_progress p3 t"
proof -
  obtain act groups bm where g: "group_batch MAX_TILES (replicate (length batch) 0) (map id_of batch) (\<lambda>_. -1) = (act, groups, bm)"
    by (cases "group_batch MAX_TILES (replicate (length batch) 0) (map id_of batch) (\<lambda>_. -1)") auto
  note gv = groups_are_valid_entries [OF g]
  let ?gs = "group_entries batch groups" and ?n = "\<lambda>k. length (filter (\<lambda>d. id_of d = k) batch)"
  define p1 where "p1 = add_bytes (concat ?gs) (p\<lparr>bucket_map_storage := bm\<rparr>)"
  define p2 where "p2 = update_progress act (map ?n act) p1"
  define p3 where "p3 = submit_groups drv (tiled_dmas ?gs) p2"
  have p1: "p_trace p1 = p_trace p" "p_ce p1 = p_ce p" "p_mem p1 = p_mem p" "signal_stream p1 = signal_stream p"
    "signal_buf_addr p1 = signal_buf_addr p" "dev_tile_addr p1 = dev_tile_addr p" "tiled_set p1 = tiled_set p" "tile_progress p1 = tile_progress p"
    by (simp_all add: p1_def add_bytes_def)
  have wf: "ce_wf (p_ce p2)" using assms(2) by (simp add: p2_def p1)
  note sub = submit_groups_issues [OF assms(1) wf, of "tiled_dmas ?gs"]
  have run: "process_batch_tiled drv batch p = (tile_signals drv act p3)\<lparr>descriptors_processed :=
        descriptors_processed (tile_signals drv act p3) + of_nat (length batch),
        batches_submitted := batches_submitted (tile_signals drv act p3) + of_nat (length act)\<rparr>"
    using g gv(5) assms(3) by (simp add: process_batch_tiled_def Let_def p3_def p2_def p1_def)
  have iss: "issues p p3 (concat (tiled_dmas ?gs))" using sub(1) by (simp add: issues_def p3_def p2_def p1)
  have lim: "\<forall>t\<in>set act. t < MAX_TILES" using gv(4) by auto
  have prog: "tile_progress p3 t = tile_progress p t + of_nat (?n t)" if "signal_buf_addr p \<noteq> None" "t < MAX_TILES" for t
  proof (cases "t \<in> set act")
    case True
    then show ?thesis using update_progress_values(1) [OF gv(3) lim, of p1 p2 ?n t] that p1 by (simp add: p3_def p2_def)
  next
    case False
    then have "?n t = 0" using that(2) gv(4) by (auto simp: filter_empty_conv)
    then show ?thesis using update_progress_values(2) [OF gv(3) lim, of p1 p2 ?n t] that p1 False by (simp add: p3_def p2_def)
  qed
  have buf: "signal_buf p3 t = tile_progress p3 t" if "signal_buf_addr p \<noteq> None" "t \<in> set act" for t
    using update_progress_values(1) [OF gv(3) lim, of p1 p2 ?n t] that p1 by (simp add: p3_def p2_def)
  show ?thesis
    by (rule that [OF run gv(1) gv(6) gv(3,4) iss _ _ _ _ _ _ _ prog buf])
      (use sub p1 in \<open>simp_all add: p3_def p2_def\<close>)
qed

lemma make_wait_run:
  assumes "all_succeed drv" "ce_wf (p_ce p)"
  shows "\<exists>ws. make_stream_wait_on_all drv st (p_ce p) (p_trace p) = (CUDA_SUCCESS, p_ce p, p_trace p @ ws) \<and> copies ws = []"
proof (cases "dirty_mask (p_ce p) = 0")
  case True
  then show ?thesis by (simp add: make_stream_wait_on_all_def ce_return_def)
next
  case False
  have quiet: "copies (wait_calls st ce chs) = []" for ce chs by (induction chs) (simp_all add: wait_calls_def)
  have "make_stream_wait_on_all drv st (p_ce p) (p_trace p) = (CUDA_SUCCESS, p_ce p, p_trace p @ push_calls (p_ce p)
      @ wait_calls st (p_ce p) (mask_channels (dirty_mask (p_ce p))) @ pop_calls (p_ce p))"
    using False assms
    by (simp add: make_stream_wait_on_all_def ce_wf_def wait_on_channels_success ce_return_def pop_calls_def)
  then show ?thesis using quiet by auto
qed

definition signal_entry :: "u64 \<Rightarrow> u64 \<Rightarrow> nat \<times> nat \<Rightarrow> SGEntry" where
  "signal_entry d s tw = \<lparr>sg_dst = d + of_nat (8 * fst tw), sg_src = s + of_nat (8 * fst tw), sg_size = of_nat (8 * snd tw)\<rparr>"

lemma copies_signal_calls: "copies (signal_calls d s st ws) = map (signal_entry d s) ws"
  by (induction ws) (auto simp: signal_calls_def signal_call_def signal_entry_def)

lemma tiled_device_run:
  assumes "all_succeed drv" "ce_wf (p_ce p)" "bucket_map_storage p = (\<lambda>_. -1)"
    and "tiled_set p" "signal_stream p \<noteq> 0" "dev_tile_addr p = Some d" "signal_buf_addr p = Some s"
  obtains act gs p3 ws tw where "set act = {k \<in> id_of ` set batch. k < MAX_TILES}"
    and "mset (concat gs) = mset (valid_entries MAX_TILES batch)" "\<And>g. g \<in> set gs \<Longrightarrow> g \<noteq> []"
    and "issues p p3 (concat (tiled_dmas gs))" "ce_wf (p_ce p3)" "p_tracks p \<Longrightarrow> p_tracks p3"
    and "make_stream_wait_on_all drv (signal_stream p) (p_ce p3) (p_trace p3) = (CUDA_SUCCESS, p_ce p3, tw)"
    and "issues p3 (p3\<lparr>p_trace := tw\<rparr>) []"
    and "p_trace (process_batch_tiled drv batch p) = tw @ signal_calls d s (signal_stream p) ws"
    and "(\<Union>(t, w)\<in>set ws. {t..<t + w}) = set act" "p_mem (process_batch_tiled drv batch p) = p_mem p"
    and "p_ce (process_batch_tiled drv batch p) = p_ce p3"
    and "\<And>t. t < MAX_TILES \<Longrightarrow> tile_progress (process_batch_tiled drv batch p) t
            = tile_progress p t + of_nat (length (filter (\<lambda>d. id_of d = t) batch))"
    and "\<And>t. t \<in> set act \<Longrightarrow> signal_buf (process_batch_tiled drv batch p) t = tile_progress (process_batch_tiled drv batch p) t"
proof -
  obtain act gs p3 nd nb where run: "process_batch_tiled drv batch p = (tile_signals drv act p3)\<lparr>descriptors_processed := nd, batches_submitted := nb\<rparr>"
    and gs: "mset (concat gs) = mset (valid_entries MAX_TILES batch)" "\<And>g. g \<in> set gs \<Longrightarrow> g \<noteq> []"
    and act: "distinct act" "set act = {k \<in> id_of ` set batch. k < MAX_TILES}"
    and p3: "issues p p3 (concat (tiled_dmas gs))" "ce_wf (p_ce p3)" "p_mem p3 = p_mem p" "p_tracks p \<Longrightarrow> p_tracks p3"
    and fields: "signal_stream p3 = signal_stream p" "signal_buf_addr p3 = signal_buf_addr p" "dev_tile_addr p3 = dev_tile_addr p" "tiled_set p3 = tiled_set p"
    and prog: "\<And>t. signal_buf_addr p \<noteq> None \<Longrightarrow> t < MAX_TILES \<Longrightarrow>
           tile_progress p3 t = tile_progress p t + of_nat (length (filter (\<lambda>d. id_of d = t) batch))"
    and buf: "\<And>t. signal_buf_addr p \<noteq> None \<Longrightarrow> t \<in> set act \<Longrightarrow> signal_buf p3 t = tile_progress p3 t"
    using assms(1-3) by (rule tiled_run [where batch = batch]) (rule that)
  obtain wt where wt: "make_stream_wait_on_all drv (signal_stream p) (p_ce p3) (p_trace p3) = (CUDA_SUCCESS, p_ce p3, p_trace p3 @ wt)" "copies wt = []"
    using make_wait_run [OF assms(1) p3(2), of "signal_stream p"] by blast
  let ?p4 = "p3\<lparr>p_trace := p_trace p3 @ wt\<rparr>"
  have lim: "\<forall>t\<in>set act. t < MAX_TILES" using act(2) by auto
  obtain ws where ws: "device_signals d s act ?p4 = ?p4\<lparr>p_trace := p_trace ?p4 @ signal_calls d s (signal_stream ?p4) ws\<rparr>"
    "(\<Union>(t, w)\<in>set ws. {t..<t + w}) = set act" using device_signals_exact [OF act(1) lim, of d s ?p4] by blast
  have "ce_do (make_stream_wait_on_all drv (signal_stream p)) p3 = ?p4" using wt(1) by (simp add: ce_do_def)
  then have ts: "tile_signals drv act p3 = ?p4\<lparr>p_trace := p_trace ?p4 @ signal_calls d s (signal_stream ?p4) ws\<rparr>"
    using assms(4-7) fields ws(1) by (simp add: tile_signals_def)
  show ?thesis
    by (rule that [OF act(2) gs p3(1,2,4) wt(1) _ _ ws(2)]) (use ts run fields p3(3) prog buf assms(7) wt(2) in \<open>simp_all add: issues_def\<close>)
qed

section \<open>\<open>process_batch_sg\<close>\<close>

lemma sg_run:
  assumes "all_succeed drv" "ce_wf (p_ce p)" "sg_bucket_map p = (\<lambda>_. -1)"
  obtains act gs p2 nd nb where "process_batch_sg drv batch p = (list_signals drv act p2)\<lparr>descriptors_processed := nd, batches_submitted := nb\<rparr>"
    and "mset (concat gs) = mset (valid_entries MAX_SG_LISTS batch)" "\<And>g. g \<in> set gs \<Longrightarrow> g \<noteq> []"
    and "distinct act" "set act = {k \<in> id_of ` set batch. k < MAX_SG_LISTS}"
    and "issues p p2 (concat (map list_dma gs))" "ce_wf (p_ce p2)" "p_mem p2 = p_mem p" "p_tracks p \<Longrightarrow> p_tracks p2"
    and "signal_stream p2 = signal_stream p" "signal_buf_addr p2 = signal_buf_addr p" "dev_list_addr p2 = dev_list_addr p"
    and "sg_set p2 = sg_set p" "lists_completed p2 = lists_completed p"
proof -
  obtain act groups bm where g: "group_batch MAX_SG_LISTS (replicate (length batch) 0) (map id_of batch) (\<lambda>_. -1) = (act, groups, bm)"
    by (cases "group_batch MAX_SG_LISTS (replicate (length batch) 0) (map id_of batch) (\<lambda>_. -1)") auto
  note gv = groups_are_valid_entries [OF g]
  let ?gs = "group_entries batch groups"
  define p0 where "p0 = p\<lparr>sg_bucket_map := bm\<rparr>"
  define p2 where "p2 = add_bytes (concat ?gs) (submit_groups drv (map list_dma ?gs) p0)"
  have wf: "ce_wf (p_ce p0)" using assms(2) by (simp add: p0_def)
  note sub = submit_groups_issues [OF assms(1) wf, of "map list_dma ?gs"]
  have run: "process_batch_sg drv batch p = (list_signals drv act p2)\<lparr>descriptors_processed :=
        descriptors_processed (list_signals drv act p2) + of_nat (length batch),
        batches_submitted := batches_submitted (list_signals drv act p2) + of_nat (length act)\<rparr>"
    using g assms(3) by (simp add: process_batch_sg_def Let_def p2_def p0_def)
  have iss: "issues p p2 (concat (map list_dma ?gs))" using sub(1) by (simp add: issues_def p2_def p0_def)
  have f: "signal_stream p2 = signal_stream p" "signal_buf_addr p2 = signal_buf_addr p" "dev_list_addr p2 = dev_list_addr p"
    "sg_set p2 = sg_set p" "lists_completed p2 = lists_completed p" by (simp_all add: p2_def add_bytes_def p0_def)
  show ?thesis
    by (rule that [OF run gv(1) gv(6) gv(3,4) iss _ _ _ f]) (use sub in \<open>simp_all add: p2_def p0_def\<close>)
qed

lemma fold_list_signal:
  assumes "\<forall>t\<in>set ids. t < MAX_SG_LISTS" "signal_buf_addr p = Some s"
  shows "\<exists>sb. fold (list_signal d) ids p = p\<lparr>signal_buf := sb, p_trace := p_trace p @ signal_calls d s (signal_stream p) (map (\<lambda>t. (t, 1)) ids)\<rparr>
     \<and> (\<forall>t\<in>set ids. sb t = 1) \<and> (\<forall>t. signal_buf p t = 1 \<longrightarrow> sb t = 1)"
  using assms
proof (induction ids arbitrary: p)
  case Nil
  then show ?case by (intro exI [of _ "signal_buf p"]) (simp add: signal_calls_def)
next
  case (Cons t ids)
  let ?p = "p\<lparr>signal_buf := (signal_buf p)(t := 1), p_trace := p_trace p @ [signal_call d s t 1 (signal_stream p)]\<rparr>"
  have "list_signal d t p = ?p" using Cons.prems by (simp add: list_signal_def call_def)
  moreover obtain sb where "fold (list_signal d) ids ?p = ?p\<lparr>signal_buf := sb, p_trace := p_trace ?p @ signal_calls d s (signal_stream ?p) (map (\<lambda>t. (t, 1)) ids)\<rparr>"
    "\<forall>t\<in>set ids. sb t = 1" "\<forall>t. signal_buf ?p t = 1 \<longrightarrow> sb t = 1" using Cons.IH [of ?p] Cons.prems by auto
  ultimately show ?case by (intro exI [of _ sb]) (simp add: signal_calls_def)
qed

end
