(* ===== verification/Batch_Properties.thy ===== *)
theory Batch_Properties
  imports Tiled_Processor Engine_Properties Queue_Properties
begin

text \<open>
  The properties of the batch processor: each path of \<open>process_batch\<close> copies exactly what the descriptors ask for; the
  tiled and the per-list path copy the entries with a valid identifier, count them, and write each signal after the data
  it announces.
\<close>

section \<open>Example poller\<close>

definition example_poller :: Poller where
  "example_poller = \<lparr>p_queue = empty_queue, p_ce = example_engine, p_trace = [], p_mem = (\<lambda>_. 0), use_ce = True,
     num_staging_bufs = 1, staging_bufs = (\<lambda>_. 100000), staging_buffer_size = 4096, staging_events = (\<lambda>_. 40),
     staging_event_pending = (\<lambda>_. False), staging_cur = 0, staging_inflight_count = 0, active_gather_workers = 0,
     has_async_dma = False, latest_async_read = 0, tiled_set = True, host_tile_addr = 200000, host_tile_done = (\<lambda>_. 0),
     dev_tile_addr = Some 300000, sg_set = False, dev_list_addr = None, lists_completed = 0, signal_stream = 7,
     signal_buf_addr = Some 400000, signal_buf = (\<lambda>_. 0), tile_progress = (\<lambda>_. 0), bucket_map_storage = (\<lambda>_. -1),
     sg_bucket_map = (\<lambda>_. -1),
     pending_tile_events = (\<lambda>_. \<lparr>pe_event = 0, pe_done_value = 0, pe_tile_ids = []\<rparr>), tile_event_head = 0, tile_event_tail = 0,
     tile_events_inflight = 0, descriptors_processed = 0, batches_submitted = 0, coalesced_entries = 0, staging_batches = 0,
     total_bytes_copied = 0\<rparr>"

definition example_list_poller :: Poller where
  "example_list_poller = example_poller\<lparr>tiled_set := False, sg_set := True, dev_list_addr := Some 500000\<rparr>"

lemma example_poller_fields [simp]: "p_ce example_poller = example_engine" "p_trace example_poller = []"
  "bucket_map_storage example_poller = (\<lambda>_. -1)" "tiled_set example_poller" "signal_stream example_poller = 7"
  "dev_tile_addr example_poller = Some 300000" "signal_buf_addr example_poller = Some 400000" "tile_progress example_poller = (\<lambda>_. 0)"
  "descriptors_processed example_poller = 0"
  by (simp_all add: example_poller_def)

lemma example_list_poller_fields [simp]: "p_ce example_list_poller = example_engine" "p_trace example_list_poller = []"
  "sg_bucket_map example_list_poller = (\<lambda>_. -1)" "sg_set example_list_poller" "signal_stream example_list_poller = 7"
  "dev_list_addr example_list_poller = Some 500000" "signal_buf_addr example_list_poller = Some 400000"
  "lists_completed example_list_poller = 0"
  by (simp_all add: example_list_poller_def example_poller_def)

lemma example_poller_wf: "ce_wf (p_ce example_poller)" "ce_wf (p_ce example_list_poller)"
  "p_tracks example_poller" "p_tracks example_list_poller"
  using example_engine_wf example_engine_tracks by simp_all

lemma example_tile_setup: "bucket_map_storage example_poller = (\<lambda>_. -1)" "tiled_set example_poller" "signal_stream example_poller \<noteq> 0"
  "dev_tile_addr example_poller = Some 300000" "signal_buf_addr example_poller = Some 400000"
  by simp_all

lemma example_list_setup: "sg_bucket_map example_list_poller = (\<lambda>_. -1)" "sg_set example_list_poller" "signal_stream example_list_poller \<noteq> 0"
  "dev_list_addr example_list_poller = Some 500000" "signal_buf_addr example_list_poller = Some 400000"
  by simp_all

lemma example_ids: "id_of example_descriptor = 0"
  by (simp add: id_of_def example_descriptor_def)

lemma example_batch_ok: "batch_ok example_poller (map sg_of [example_descriptor])"
  by (auto simp: batch_ok_def separate_def dst_disjoint_def src_dst_disjoint_def dst_no_wrap_def staging_apart_def sg_of_def
      example_descriptor_def example_poller_def intro!: region_apart_either)

lemma example_valid: "valid_entries MAX_TILES [example_descriptor] = [sg_of example_descriptor]"
  "valid_entries MAX_SG_LISTS [example_descriptor] = [sg_of example_descriptor]"
  by (simp_all add: valid_entries_def MAX_TILES_def MAX_SG_LISTS_def id_of_def example_descriptor_def)

section \<open>\<open>process_batch\<close>\<close>

text \<open>C1: Every path of \<open>process_batch\<close> (single entry, one merged range, staging, generic coalescing with or without staging) moves
  exactly the bytes the descriptors ask for: outside the staging buffer, memory after the issued copies is memory after
  copying the descriptors one by one. The copy engine stays well-formed.\<close>

theorem batch_copies_descriptors:
  assumes "all_succeed drv" "ce_wf (p_ce p)" "batch \<noteq> []" "batch_ok p (map sg_of batch)" "process_batch drv batch p = (is_async, q)"
  shows "is_async \<and> ce_wf (p_ce q) \<and> (\<exists>copied. issues p q copied)
    \<and> (\<forall>a. a \<notin> region (staging_bufs p (staging_cur p)) (unat (staging_buffer_size p)) \<longrightarrow>
         after_dma p q a = dmas (map sg_of batch) (p_mem p) a)"
  using process_batch_transfers [OF assms(1-4)] assms(5) by (simp add: transfers_def)

theorem batch_copies_descriptors_witness:
  "after_dma example_poller (snd (process_batch example_driver [example_descriptor] example_poller)) 4096
     = dmas (map sg_of [example_descriptor]) (p_mem example_poller) 4096"
proof -
  have wf: "ce_wf (p_ce example_poller)" using example_engine_wf by simp
  have run: "process_batch example_driver [example_descriptor] example_poller =
      (fst (process_batch example_driver [example_descriptor] example_poller), snd (process_batch example_driver [example_descriptor] example_poller))"
    by simp
  have out: "(4096 :: u64) \<notin> region (staging_bufs example_poller (staging_cur example_poller)) (unat (staging_buffer_size example_poller))"
    by (simp add: example_poller_def in_region)
  from batch_copies_descriptors [OF example_driver_ok wf _ example_batch_ok run] out show ?thesis by blast
qed

text \<open>Without a copy engine the processor copies with the CPU in source order, which leaves the same memory as the order of the batch.\<close>

theorem batch_without_engine_copies:
  assumes "separate (map sg_of batch)"
  shows "p_mem (process_batch_no_ce batch p) = dmas (map sg_of batch) (p_mem p)"
  using assms by (rule process_batch_no_ce_copies)

theorem batch_without_engine_copies_witness:
  "p_mem (process_batch_no_ce [example_descriptor] example_poller) = dma (sg_of example_descriptor) (\<lambda>_. 0)"
  using batch_without_engine_copies [of "[example_descriptor]" example_poller] example_batch_ok
  by (simp add: batch_ok_def) (simp add: example_poller_def)

section \<open>Tiles\<close>

lemma device_run_data:
  assumes "issues p p3 (concat (tiled_dmas gs))" "mset (concat gs) = mset (valid_entries MAX_TILES batch)" "\<And>g. g \<in> set gs \<Longrightarrow> g \<noteq> []"
    and "separate (valid_entries MAX_TILES batch)" "bytes (valid_entries MAX_TILES batch) < 2 ^ 64"
  shows "dmas (concat (tiled_dmas gs)) m = dmas (valid_entries MAX_TILES batch) m"
proof -
  have "separate (concat gs)" using separate_perm assms(2,4) by metis
  moreover have "bytes (concat gs) < 2 ^ 64" using bytes_perm [OF assms(2)] assms(5) by simp
  ultimately have "dmas (concat (tiled_dmas gs)) m = dmas (concat gs) m" by (intro tiled_dmas_correct assms(3))
  also have "\<dots> = dmas (valid_entries MAX_TILES batch) m" using assms(2) \<open>separate (concat gs)\<close> by (intro dmas_perm) simp_all
  finally show ?thesis .
qed

text \<open>C12: The tiled path, with device signals: the transfers it issues copy exactly the entries whose tile is below 1024; the progress of each
  such tile grows by the number of its descriptors and is what the signal buffer holds; and the signals written are those of
  the tiles of the batch, no other.\<close>

theorem tiled_transfers_and_signals:
  assumes "all_succeed drv" "ce_wf (p_ce p)" "bucket_map_storage p = (\<lambda>_. -1)"
    and "tiled_set p" "signal_stream p \<noteq> 0" "dev_tile_addr p = Some d" "signal_buf_addr p = Some s"
    and "separate (valid_entries MAX_TILES batch)" "bytes (valid_entries MAX_TILES batch) < 2 ^ 64"
    and "q = process_batch_tiled drv batch p"
  shows "\<exists>data ws. issues p q (data @ map (signal_entry d s) ws) \<and> (\<forall>m. dmas data m = dmas (valid_entries MAX_TILES batch) m)
    \<and> (\<Union>(t, w)\<in>set ws. {t..<t + w}) = {k \<in> id_of ` set batch. k < MAX_TILES}
    \<and> (\<forall>t<MAX_TILES. tile_progress q t = tile_progress p t + of_nat (length (filter (\<lambda>d. id_of d = t) batch)))
    \<and> (\<forall>t. t < MAX_TILES \<and> t \<in> id_of ` set batch \<longrightarrow> signal_buf q t = tile_progress q t)"
proof -
  obtain act gs p3 ws tw where act: "set act = {k \<in> id_of ` set batch. k < MAX_TILES}"
    and gs: "mset (concat gs) = mset (valid_entries MAX_TILES batch)" "\<And>g. g \<in> set gs \<Longrightarrow> g \<noteq> []"
    and p3: "issues p p3 (concat (tiled_dmas gs))" "issues p3 (p3\<lparr>p_trace := tw\<rparr>) []"
    and tr: "p_trace q = tw @ signal_calls d s (signal_stream p) ws" and ws: "(\<Union>(t, w)\<in>set ws. {t..<t + w}) = set act"
    and prog: "\<And>t. t < MAX_TILES \<Longrightarrow> tile_progress q t = tile_progress p t + of_nat (length (filter (\<lambda>d. id_of d = t) batch))"
    and buf: "\<And>t. t \<in> set act \<Longrightarrow> signal_buf q t = tile_progress q t"
    by (rule tiled_device_run [OF assms(1-7), of batch, folded assms(10)]) (rule that; assumption | simp only:)
  have "issues p q (concat (tiled_dmas gs) @ map (signal_entry d s) ws)"
    using p3 tr by (auto simp: issues_def copies_signal_calls)
  moreover have "\<forall>m. dmas (concat (tiled_dmas gs)) m = dmas (valid_entries MAX_TILES batch) m"
    using device_run_data [OF p3(1) gs assms(8,9)] by simp
  moreover have "\<forall>t. t < MAX_TILES \<and> t \<in> id_of ` set batch \<longrightarrow> signal_buf q t = tile_progress q t" using buf act by simp
  ultimately show ?thesis using ws act prog
    by (intro exI [of _ "concat (tiled_dmas gs)"] exI [of _ ws] conjI allI impI) simp_all
qed

theorem tiled_transfers_and_signals_witness:
  "tile_progress (process_batch_tiled example_driver [example_descriptor] example_poller) 0 = 1"
proof -
  have sep: "separate (valid_entries MAX_TILES [example_descriptor])" "bytes (valid_entries MAX_TILES [example_descriptor]) < 2 ^ 64"
    using example_batch_ok by (simp_all add: example_valid batch_ok_def)
  have "(0 :: nat) < MAX_TILES" by (simp add: MAX_TILES_def)
  moreover obtain data ws where "\<forall>t<MAX_TILES. tile_progress (process_batch_tiled example_driver [example_descriptor] example_poller) t
      = tile_progress example_poller t + of_nat (length (filter (\<lambda>d. id_of d = t) [example_descriptor]))"
    using tiled_transfers_and_signals [OF example_driver_ok example_poller_wf(1) example_tile_setup sep refl] by (elim exE conjE) (rule that)
  ultimately have "tile_progress (process_batch_tiled example_driver [example_descriptor] example_poller) 0
      = tile_progress example_poller 0 + of_nat (length (filter (\<lambda>d. id_of d = 0) [example_descriptor]))" by (elim allE impE)
  then show ?thesis by (simp add: example_ids)
qed

lemma copies_none_nth: "copies ws = [] \<Longrightarrow> k < length ws \<Longrightarrow> ws ! k \<noteq> copy_on st e"
  by (metis copies_append copies_copy_on id_take_nth_drop append_is_Nil_conv list.distinct(1))

text \<open>A signal written after \<open>make_stream_wait_on_all\<close> comes after every copy on the copy-engine streams.\<close>

lemma signals_after_copies:
  assumes "ce_wf ce" "ce_tracks ce tr" "make_stream_wait_on_all drv st ce tr = (CUDA_SUCCESS, ce, tw)"
    and "tw = tr @ new" "copies new = []" "cuda_order (tw @ signal_calls d s st ws) before"
    and "ce_copy ce tw ch i" "length tw \<le> l" "l < length (tw @ signal_calls d s st ws)"
  shows "host_knows tw before i \<or> before i l"
proof -
  let ?T = "tw @ signal_calls d s st ws"
  have "ce_copy ce tr ch i"
  proof (cases "i < length tr")
    case True
    then show ?thesis using assms(4,7) by (auto simp: ce_copy_def nth_append)
  next
    case False
    then have "i - length tr < length new" using assms(4,7) by (auto simp: ce_copy_def)
    from copies_none_nth [OF assms(5) this] show ?thesis using False assms(4,7) by (auto simp: ce_copy_def nth_append)
  qed
  moreover have "on_stream st (?T ! l)"
    using signal_on_stream [OF nth_mem, of "l - length tw" d s st ws] assms(8,9) by (auto simp: nth_append)
  ultimately consider "settled tr i" | "ordered_before ?T i l"
    using make_stream_wait_orders [of drv st ce tr ch i ?T "signal_calls d s st ws" l] assms by auto
  then show ?thesis
  proof cases
    case 1
    have "cuda_order tr before" using cuda_order_prefix [of tr "new @ signal_calls d s st ws"] assms(4,6) by simp
    from settled_host_knows [OF 1 this] have "host_knows tr before i" .
    then show ?thesis unfolding assms(4) host_knows_def by (metis length_append nth_append trans_less_add1)
  qed (use ordered_before_holds assms(6) in blast)
qed

text \<open>C2: In the device-signal mode (the tile counters are in device memory, with a signal stream and a signal buffer) a tile's signal is
  written after its data: under the documented stream and event order, every copy issued on a copy-engine stream before the
  signals, in this batch or earlier, has completed for the host or is ordered before each signal write. (With host-mapped
  counters the signals are copies on the engine's own streams, which no event orders after the data, and this is not claimed.)\<close>

theorem tile_signal_after_data:
  assumes "all_succeed drv" "ce_wf (p_ce p)" "p_tracks p" "bucket_map_storage p = (\<lambda>_. -1)"
    and "tiled_set p" "signal_stream p \<noteq> 0" "dev_tile_addr p = Some d" "signal_buf_addr p = Some s"
    and "q = process_batch_tiled drv batch p" "cuda_order (p_trace q) before"
  shows "\<exists>tw ws. p_trace q = tw @ signal_calls d s (signal_stream p) ws
    \<and> (\<Union>(t, w)\<in>set ws. {t..<t + w}) = {k \<in> id_of ` set batch. k < MAX_TILES}
    \<and> (\<forall>ch i l. ce_copy (p_ce q) tw ch i \<and> length tw \<le> l \<and> l < length (p_trace q) \<longrightarrow> host_knows tw before i \<or> before i l)"
proof -
  obtain act p3 ws tw where act: "set act = {k \<in> id_of ` set batch. k < MAX_TILES}"
    and p3: "ce_wf (p_ce p3)" "p_tracks p \<Longrightarrow> p_tracks p3" "issues p3 (p3\<lparr>p_trace := tw\<rparr>) []"
    and w: "make_stream_wait_on_all drv (signal_stream p) (p_ce p3) (p_trace p3) = (CUDA_SUCCESS, p_ce p3, tw)"
    and tr: "p_trace q = tw @ signal_calls d s (signal_stream p) ws" "p_ce q = p_ce p3" and ws: "(\<Union>(t, w)\<in>set ws. {t..<t + w}) = set act"
    by (rule tiled_device_run [OF assms(1,2,4-8), of batch]) (use assms(9) in simp)
  obtain new where new: "tw = p_trace p3 @ new" "copies new = []" using p3(3) by (auto simp: issues_def)
  have "\<forall>ch i l. ce_copy (p_ce q) tw ch i \<and> length tw \<le> l \<and> l < length (p_trace q) \<longrightarrow> host_knows tw before i \<or> before i l"
    by (intro allI impI, elim conjE, rule signals_after_copies [OF p3(1) p3(2) [OF assms(3)] w new])
      (use assms(10) tr in simp_all)
  then show ?thesis using tr(1) ws act by (intro exI [of _ tw] exI [of _ ws] conjI) simp_all
qed

theorem tile_signal_after_data_witness:
  "\<exists>tw ws. p_trace (process_batch_tiled example_driver [example_descriptor] example_poller) = tw @ signal_calls 300000 400000 7 ws
    \<and> (\<Union>(t, w)\<in>set ws. {t..<t + w}) = {0}"
proof -
  have "{k \<in> id_of ` set [example_descriptor]. k < MAX_TILES} = {0}" by (auto simp: example_ids MAX_TILES_def)
  moreover obtain tw ws where "p_trace (process_batch_tiled example_driver [example_descriptor] example_poller)
      = tw @ signal_calls 300000 400000 (signal_stream example_poller) ws"
    and "(\<Union>(t, w)\<in>set ws. {t..<t + w}) = {k \<in> id_of ` set [example_descriptor]. k < MAX_TILES}"
    using tile_signal_after_data [OF example_driver_ok example_poller_wf(1,3) example_tile_setup refl cuda_order_issue, of "[example_descriptor]"]
    by (elim exE conjE) (rule that)
  ultimately show ?thesis by (intro exI [of _ tw] exI [of _ ws]) simp
qed

text \<open>Descriptors whose tile identifier is 1024 or more are dropped by the tiled path without an error: nothing is copied for them, and yet
  they are counted as processed.\<close>

theorem tiled_drops_large_ids:
  assumes "all_succeed drv" "ce_wf (p_ce p)" "bucket_map_storage p = (\<lambda>_. -1)" "\<forall>d\<in>set batch. MAX_TILES \<le> id_of d"
  shows "issues p (process_batch_tiled drv batch p) []
    \<and> descriptors_processed (process_batch_tiled drv batch p) = descriptors_processed p + of_nat (length batch)"
proof -
  obtain act groups bm where g: "group_batch MAX_TILES (replicate (length batch) 0) (map id_of batch) (\<lambda>_. -1) = (act, groups, bm)"
    by (metis prod_cases3)
  have "group_entries batch groups = []" "act = []"
  proof -
    have "set act = {}" using groups_are_valid_entries(4) [OF g] assms(4) by auto
    then show "act = []" by simp
    with groups_are_valid_entries(5) [OF g] show "group_entries batch groups = []" by (metis length_0_conv length_map list.size(3))
  qed
  moreover obtain new where "make_stream_wait_on_all drv (signal_stream p) (p_ce p) (p_trace p) = (CUDA_SUCCESS, p_ce p, p_trace p @ new)"
    "copies new = []" using make_wait_run [OF assms(1,2)] by blast
  ultimately show ?thesis using g assms(2,3)
    by (auto simp: process_batch_tiled_def Let_def issues_def tiled_dmas_def submit_groups_def update_progress_def tile_signals_def
        device_signals_def host_signals_def add_bytes_def ce_do_def split: option.split prod.split)
qed

definition large_id_descriptor :: Descriptor where
  "large_id_descriptor = example_descriptor\<lparr>user_data := push_bit 32 2000\<rparr>"

theorem tiled_drops_large_ids_witness:
  "issues example_poller (process_batch_tiled example_driver [large_id_descriptor] example_poller) []"
proof -
  have "\<forall>d\<in>set [large_id_descriptor]. MAX_TILES \<le> id_of d" by (simp add: large_id_descriptor_def id_of_def MAX_TILES_def)
  from tiled_drops_large_ids [OF example_driver_ok example_poller_wf(1) example_tile_setup(1) this] show ?thesis by blast
qed

section \<open>Lists\<close>

text \<open>C11: The per-list path with device signals: the transfers copy exactly the entries whose list is below 512; every such list gets one
  signal of value 1, written after the copies issued before it. The count of completed lists is raised at once, when the
  transfers have only been issued.\<close>

theorem list_transfers_and_signals:
  assumes "all_succeed drv" "ce_wf (p_ce p)" "p_tracks p" "sg_bucket_map p = (\<lambda>_. -1)"
    and "sg_set p" "signal_stream p \<noteq> 0" "dev_list_addr p = Some d" "signal_buf_addr p = Some s"
    and "separate (valid_entries MAX_SG_LISTS batch)" "bytes (valid_entries MAX_SG_LISTS batch) < 2 ^ 64"
    and "q = process_batch_sg drv batch p" "cuda_order (p_trace q) before"
  shows "\<exists>data tw act. copies tw = copies (p_trace p) @ data \<and> (\<forall>m. dmas data m = dmas (valid_entries MAX_SG_LISTS batch) m)
    \<and> distinct act \<and> set act = {k \<in> id_of ` set batch. k < MAX_SG_LISTS}
    \<and> p_trace q = tw @ signal_calls d s (signal_stream p) (map (\<lambda>t. (t, 1)) act) \<and> (\<forall>t\<in>set act. signal_buf q t = 1)
    \<and> (\<forall>ch i l. ce_copy (p_ce q) tw ch i \<and> length tw \<le> l \<and> l < length (p_trace q) \<longrightarrow> host_knows tw before i \<or> before i l)
    \<and> lists_completed q = lists_completed p + of_nat (length act)"
proof -
  obtain act gs p2 nd nb where run: "q = (list_signals drv act p2)\<lparr>descriptors_processed := nd, batches_submitted := nb\<rparr>"
    and gs: "mset (concat gs) = mset (valid_entries MAX_SG_LISTS batch)" "\<And>g. g \<in> set gs \<Longrightarrow> g \<noteq> []"
    and act: "distinct act" "set act = {k \<in> id_of ` set batch. k < MAX_SG_LISTS}"
    and p2: "issues p p2 (concat (map list_dma gs))" "ce_wf (p_ce p2)" "p_tracks p \<Longrightarrow> p_tracks p2"
    and f: "signal_stream p2 = signal_stream p" "signal_buf_addr p2 = signal_buf_addr p" "dev_list_addr p2 = dev_list_addr p"
      "sg_set p2 = sg_set p" "lists_completed p2 = lists_completed p"
    by (rule sg_run [OF assms(1,2,4), of batch, folded assms(11)]) (rule that; assumption | simp only:)
  obtain new where w: "make_stream_wait_on_all drv (signal_stream p) (p_ce p2) (p_trace p2) = (CUDA_SUCCESS, p_ce p2, p_trace p2 @ new)" "copies new = []"
    using make_wait_run [OF assms(1) p2(2)] by blast
  let ?tw = "p_trace p2 @ new" let ?p = "p2\<lparr>p_trace := ?tw\<rparr>"
  have "\<forall>t\<in>set act. t < MAX_SG_LISTS" using act(2) by auto
  then obtain sb where sb: "fold (list_signal d) act ?p = ?p\<lparr>signal_buf := sb, p_trace := p_trace ?p @ signal_calls d s (signal_stream ?p) (map (\<lambda>t. (t, 1)) act)\<rparr>"
    "\<forall>t\<in>set act. sb t = 1" using fold_list_signal [of act ?p s d] f(2) assms(8) by auto
  have "ce_do (make_stream_wait_on_all drv (signal_stream p2)) p2 = ?p" using w(1) f(1) by (simp add: ce_do_def)
  then have ls: "list_signals drv act p2 = bump_completed (length act) (fold (list_signal d) act ?p)"
    using f assms(5-7) by (simp add: list_signals_def)
  have tr: "p_trace q = ?tw @ signal_calls d s (signal_stream p) (map (\<lambda>t. (t, 1)) act)" "p_ce q = p_ce p2"
    and vals: "\<forall>t\<in>set act. signal_buf q t = 1" "lists_completed q = lists_completed p + of_nat (length act)"
    using run ls sb f by (simp_all add: bump_completed_def)
  have order: "\<forall>ch i l. ce_copy (p_ce q) ?tw ch i \<and> length ?tw \<le> l \<and> l < length (p_trace q) \<longrightarrow> host_knows ?tw before i \<or> before i l"
    by (intro allI impI, elim conjE, rule signals_after_copies [OF p2(2) p2(3) [OF assms(3)] w(1) refl w(2)])
      (use assms(12) tr in simp_all)
  have sep: "separate (concat gs)" using separate_perm gs(1) assms(9) by metis
  have data: "\<forall>m. dmas (concat (map list_dma gs)) m = dmas (valid_entries MAX_SG_LISTS batch) m"
  proof
    fix m
    have "bytes (concat gs) < 2 ^ 64" using bytes_perm [OF gs(1)] assms(10) by simp
    with list_dma_correct gs(2) sep have "dmas (concat (map list_dma gs)) m = dmas (concat gs) m" by (intro merged_groups)
    also have "\<dots> = dmas (valid_entries MAX_SG_LISTS batch) m" using gs(1) sep by (intro dmas_perm) simp_all
    finally show "dmas (concat (map list_dma gs)) m = dmas (valid_entries MAX_SG_LISTS batch) m" .
  qed
  have c: "copies ?tw = copies (p_trace p) @ concat (map list_dma gs)" using p2(1) w(2) by (auto simp: issues_def)
  show ?thesis
    by (rule exI [of _ "concat (map list_dma gs)"], rule exI [of _ ?tw], rule exI [of _ act], intro conjI)
      (fact c data act tr(1) vals order)+
qed

theorem list_transfers_and_signals_witness:
  "lists_completed (process_batch_sg example_driver [example_descriptor] example_list_poller) = 1"
proof -
  have sep: "separate (valid_entries MAX_SG_LISTS [example_descriptor])" "bytes (valid_entries MAX_SG_LISTS [example_descriptor]) < 2 ^ 64"
    using example_batch_ok by (simp_all add: example_valid batch_ok_def)
  note r = list_transfers_and_signals [OF example_driver_ok example_poller_wf(2,4) example_list_setup sep refl cuda_order_issue]
  obtain act where act: "distinct act" "set act = {k \<in> id_of ` set [example_descriptor]. k < MAX_SG_LISTS}"
    and n: "lists_completed (process_batch_sg example_driver [example_descriptor] example_list_poller)
      = lists_completed example_list_poller + of_nat (length act)"
  proof -
    obtain data tw act where c: "distinct act" "set act = {k \<in> id_of ` set [example_descriptor]. k < MAX_SG_LISTS}"
      "lists_completed (process_batch_sg example_driver [example_descriptor] example_list_poller)
      = lists_completed example_list_poller + of_nat (length act)"
      using r by (elim exE conjE) (rule that; assumption)
    show thesis by (rule that [OF c])
  qed
  have "{k \<in> id_of ` set [example_descriptor]. k < MAX_SG_LISTS} = {0}" by (auto simp: example_ids MAX_SG_LISTS_def)
  then have "set act = {0}" using act(2) by simp
  then have "length act = 1" using distinct_card [OF act(1)] by simp
  then show ?thesis using n by simp
qed

end
