(* ===== verification/Cpu_Polling.thy ===== *)
theory Cpu_Polling
  imports Tiled_Processor
begin

text \<open>
  The polling thread: \<open>flush_batch\<close> and \<open>poll_tile_events\<close> (\<open>src/batch_processor.cpp\<close>) and \<open>polling_loop\<close>
  (\<open>src/cpu_polling.cpp\<close>). One iteration of the loop is a function; \<open>env\<close> stands for what the GPU
  does to the queue between two loads of an iteration and \<open>arrive\<close> for what it has done by the time the iteration
  begins, when the poller may have been idle, so the results hold for every producer. The inner loop
  that spins on pending tile events makes one pass per iteration; spinning without effect is not modelled.
\<close>

section \<open>Tile markers on the global path\<close>

definition has_flag :: "u32 \<Rightarrow> u32 \<Rightarrow> bool" where
  "has_flag f m \<longleftrightarrow> f AND m \<noteq> 0"

definition write_tile_signal :: "nat \<Rightarrow> Poller \<Rightarrow> Poller" where
  "write_tile_signal tid p =
     (case dev_tile_addr p of
        Some d \<Rightarrow> call (MemcpyHtoD (d + of_nat (8 * tid)) (tile_progress p tid) 8) p
      | None \<Rightarrow> p\<lparr>host_tile_done := (host_tile_done p)(tid := tile_progress p tid)\<rparr>)"

text \<open>After synchronous transfers: count every descriptor, signal at the chunk markers.\<close>

definition mark_one :: "Descriptor \<Rightarrow> Poller \<Rightarrow> Poller" where
  "mark_one d p =
     (let tid = id_of d in
      if tid < MAX_TILES
      then let p1 = p\<lparr>tile_progress := (tile_progress p)(tid := tile_progress p tid + 1)\<rparr>
           in if has_flag (flags d) FLAG_LAST_IN_TILE then write_tile_signal tid p1 else p1
      else p)"

definition mark_tiles :: "Descriptor list \<Rightarrow> Poller \<Rightarrow> Poller" where
  "mark_tiles = fold mark_one"

text \<open>After asynchronous transfers: queue an event that \<open>poll_tile_events\<close> turns into signals.\<close>

fun collect_tiles :: "Descriptor list \<Rightarrow> (nat \<Rightarrow> nat) \<Rightarrow> nat list \<Rightarrow> (nat \<Rightarrow> u64) \<Rightarrow> nat list \<times> (nat \<Rightarrow> u64)" where
  "collect_tiles [] local tids progress = (tids, progress)"
| "collect_tiles (d # ds) local tids progress =
     (if has_flag (flags d) FLAG_LAST_IN_TILE \<and> length tids < MAX_TILES \<and> id_of d < MAX_TILES
      then collect_tiles ds (local(id_of d := 0)) (tids @ [id_of d])
             (progress(id_of d := progress (id_of d) + of_nat (local (id_of d))))
      else collect_tiles ds local tids progress)"

definition defer_tiles :: "cu_driver \<Rightarrow> Descriptor list \<Rightarrow> u64 \<Rightarrow> Poller \<Rightarrow> Poller" where
  "defer_tiles drv batch cur_read p =
     (let local = (\<lambda>t. if t < MAX_TILES then length (filter (\<lambda>d. id_of d = t) batch) else 0);
          slot = tile_event_head p;
          pe = pending_tile_events p slot;
          (ev, p1) = (if pe_event pe = 0
             then case cu drv EventCreate (p_trace p) of (r, h, tr) \<Rightarrow> ((if r = CUDA_SUCCESS then h else 0), p\<lparr>p_trace := tr\<rparr>)
             else (pe_event pe, p));
          p2 = ce_do (record_event_on_last_stream drv ev) p1;
          (tids, progress) = collect_tiles batch local [] (tile_progress p2)
      in p2\<lparr>pending_tile_events := (pending_tile_events p2)(slot := \<lparr>pe_event = ev, pe_done_value = cur_read, pe_tile_ids = tids\<rparr>),
            tile_progress := progress,
            tile_event_head := (slot + 1) mod MAX_PENDING_TILE_EVENTS,
            tile_events_inflight := tile_events_inflight p2 + 1\<rparr>)"

section \<open>\<open>flush_batch\<close>\<close>

definition set_done :: "u64 \<Rightarrow> Poller \<Rightarrow> Poller" where
  "set_done v p = p\<lparr>p_queue := (p_queue p)\<lparr>done_idx := v\<rparr>\<rparr>"

definition set_async :: "u64 \<Rightarrow> Poller \<Rightarrow> Poller" where
  "set_async v p = p\<lparr>has_async_dma := True, latest_async_read := v\<rparr>"

definition flush_batch :: "cu_driver \<Rightarrow> Descriptor list \<Rightarrow> u32 \<Rightarrow> Poller \<Rightarrow> Poller" where
  "flush_batch drv batch or_flags p =
     (if batch = [] then p
      else let cur_read = read_idx (p_queue p);
               markers = tiled_set p \<and> has_flag or_flags (FLAG_LAST_IN_TILE OR FLAG_LAST_CHUNK_IN_TILE);
               sg_mode = sg_set p \<and> has_flag or_flags FLAG_LAST_IN_TILE
           in if sg_mode \<and> use_ce p then set_async cur_read (process_batch_sg drv batch p)
              else if use_ce p
              then if tiled_set p \<and> signal_buf_addr p \<noteq> None then set_async cur_read (process_batch_tiled drv batch p)
                   else case process_batch drv batch p of (is_async, p1) \<Rightarrow>
                     if is_async then let p2 = set_async cur_read p1 in if markers then defer_tiles drv batch cur_read p2 else p2
                     else let p2 = (if has_async_dma p1 then (ce_do (wait_completion drv) p1)\<lparr>has_async_dma := False\<rparr> else p1);
                              p3 = set_done cur_read p2
                          in if markers then mark_tiles batch p3 else p3
              else let p1 = set_done cur_read (process_batch_no_ce batch p)
                   in if markers then mark_tiles batch p1 else p1)"

section \<open>\<open>poll_tile_events\<close>\<close>

definition retire_event :: "bool \<Rightarrow> Poller \<Rightarrow> Poller" where
  "retire_event final p =
     (let slot = tile_event_tail p; pe = pending_tile_events p slot;
          p1 = fold (\<lambda>tid p. if final then p\<lparr>host_tile_done := (host_tile_done p)(tid := tile_progress p tid)\<rparr>
                              else write_tile_signal tid p) (pe_tile_ids pe) p;
          p2 = (if pe_done_value pe > done_idx (p_queue p1) then set_done (pe_done_value pe) p1 else p1)
      in p2\<lparr>tile_event_tail := (slot + 1) mod MAX_PENDING_TILE_EVENTS,
            tile_events_inflight := tile_events_inflight p2 - 1\<rparr>)"

fun poll_events :: "cu_driver \<Rightarrow> nat \<Rightarrow> Poller \<Rightarrow> Poller" where
  "poll_events drv 0 p = p"
| "poll_events drv (Suc n) p =
     (let slot = tile_event_tail p in
      case cu drv (EventQuery (pe_event (pending_tile_events p slot))) (p_trace p) of (r, _, tr) \<Rightarrow>
        if r = CUDA_ERROR_NOT_READY then p\<lparr>p_trace := tr\<rparr>
        else let p1 = retire_event False (p\<lparr>p_trace := tr\<rparr>)
             in poll_events drv n (p1\<lparr>has_async_dma := 0 < tile_events_inflight p1\<rparr>))"

definition poll_tile_events :: "cu_driver \<Rightarrow> Poller \<Rightarrow> Poller" where
  "poll_tile_events drv p = poll_events drv (tile_events_inflight p) p"

section \<open>The loop\<close>

record PollLoop =
  lp :: Poller
  loop_batch :: "Descriptor list"
  loop_flags :: u32
  loop_threshold :: nat

type_synonym producers = "(DescriptorQueue \<Rightarrow> DescriptorQueue) \<times> (nat \<Rightarrow> DescriptorQueue \<Rightarrow> DescriptorQueue)"

definition queue_env :: "(DescriptorQueue \<Rightarrow> DescriptorQueue) \<Rightarrow> PollLoop \<Rightarrow> PollLoop" where
  "queue_env f L = L\<lparr>lp := (lp L)\<lparr>p_queue := f (p_queue (lp L))\<rparr>\<rparr>"

text \<open>Take one ready entry into the batch.\<close>

definition take_entry :: "Descriptor \<Rightarrow> DescriptorQueue \<Rightarrow> PollLoop \<Rightarrow> PollLoop" where
  "take_entry d q L =
     L\<lparr>lp := (lp L)\<lparr>p_queue := q\<rparr>, loop_batch := loop_batch L @ [d], loop_flags := loop_flags L OR flags d,
       loop_threshold := (if length (loop_batch L) + 1 = 1
          then if desc_size d \<le> 2048 then min BATCH_THRESHOLD_SMALL MAX_BATCH_SIZE else BATCH_THRESHOLD
          else loop_threshold L)\<rparr>"

definition batch_full :: "PollLoop \<Rightarrow> bool" where
  "batch_full L \<longleftrightarrow> loop_threshold L \<le> length (loop_batch L) \<or> MAX_BATCH_SIZE \<le> length (loop_batch L)
     \<or> (tiled_set (lp L) \<or> sg_set (lp L)) \<and> has_flag (loop_flags L) FLAG_LAST_IN_TILE"

function take_loop :: "(nat \<Rightarrow> DescriptorQueue \<Rightarrow> DescriptorQueue) \<Rightarrow> PollLoop \<Rightarrow> PollLoop" where
  "take_loop env L =
     (case poll_entry (p_queue (lp L)) of
        None \<Rightarrow> L
      | Some (d, q) \<Rightarrow>
          let L1 = take_entry d q L
          in if batch_full L1 then L1 else take_loop env (queue_env (env (length (loop_batch L1))) L1))"
  by auto
termination
proof (relation "measure (\<lambda>(env, L). MAX_BATCH_SIZE - length (loop_batch L))")
  fix env :: "nat \<Rightarrow> DescriptorQueue \<Rightarrow> DescriptorQueue" and L x d q L1
  assume "\<not> batch_full L1" "L1 = take_entry d q L"
  then have "length (loop_batch L) + 1 < MAX_BATCH_SIZE" by (simp add: batch_full_def take_entry_def)
  then show "((env, queue_env (env (length (loop_batch L1))) L1), (env, L)) \<in> measure (\<lambda>(env, L). MAX_BATCH_SIZE - length (loop_batch L))"
    by (simp add: queue_env_def \<open>L1 = take_entry d q L\<close> take_entry_def)
qed simp

declare take_loop.simps [simp del]

definition flush :: "cu_driver \<Rightarrow> PollLoop \<Rightarrow> PollLoop" where
  "flush drv L = (if loop_batch L = [] then L else L\<lparr>lp := flush_batch drv (loop_batch L) (loop_flags L) (lp L), loop_batch := [], loop_flags := 0\<rparr>)"

definition GAP_SPIN_LIMIT :: nat where "GAP_SPIN_LIMIT = 4096"

fun gap_spin :: "(nat \<Rightarrow> DescriptorQueue \<Rightarrow> DescriptorQueue) \<Rightarrow> nat \<Rightarrow> DescriptorQueue \<Rightarrow> bool \<times> DescriptorQueue" where
  "gap_spin env 0 q = (False, q)"
| "gap_spin env (Suc n) q = (let q1 = env n q in if poll_entry q1 \<noteq> None then (True, q1) else gap_spin env n q1)"

text \<open>Nothing to read and nothing batched: retire events, or wait for the outstanding DMAs and publish.\<close>

definition finish_async :: "cu_driver \<Rightarrow> Poller \<Rightarrow> Poller" where
  "finish_async drv p =
     (let p1 = (if 0 < staging_inflight_count p then (ce_do (wait_completion drv) p)\<lparr>staging_inflight_count := 0\<rparr> else p);
          p2 = ce_do (wait_completion drv) p1
      in (set_done (latest_async_read p2) p2)\<lparr>has_async_dma := False\<rparr>)"

definition idle_work :: "cu_driver \<Rightarrow> Poller \<Rightarrow> Poller" where
  "idle_work drv p =
     (if 0 < tile_events_inflight p then poll_tile_events drv p
      else if has_async_dma p then finish_async drv p
      else p)"

definition poll_iteration :: "cu_driver \<Rightarrow> (nat \<Rightarrow> DescriptorQueue \<Rightarrow> DescriptorQueue) \<Rightarrow> PollLoop \<Rightarrow> PollLoop" where
  "poll_iteration drv env L =
     (if poll_entry (p_queue (lp L)) \<noteq> None
      then let L1 = take_loop env L
           in if loop_threshold L1 \<le> length (loop_batch L1)
                 \<or> has_flag (loop_flags L1) (FLAG_LAST_IN_BATCH OR FLAG_URGENT OR FLAG_LAST_IN_TILE)
              then flush drv L1 else L1
      else if loop_batch L \<noteq> []
      then case gap_spin env GAP_SPIN_LIMIT (p_queue (lp L)) of (gap_filled, q) \<Rightarrow>
             let L1 = L\<lparr>lp := (lp L)\<lparr>p_queue := q\<rparr>\<rparr> in if gap_filled then L1 else flush drv L1
      else L\<lparr>lp := idle_work drv (lp L)\<rparr>)"

text \<open>A turn of the loop: the producers may have acted since the last one, on an idle poller too.\<close>

definition poll_turn :: "cu_driver \<Rightarrow> producers \<Rightarrow> PollLoop \<Rightarrow> PollLoop" where
  "poll_turn drv = (\<lambda>(arrive, env) L. poll_iteration drv env (queue_env arrive L))"

section \<open>Shutdown\<close>

text \<open>Drain what is committed; the flags of drained entries are not collected. The fuel bounds the number
  of entries taken.\<close>

fun drain :: "cu_driver \<Rightarrow> nat \<Rightarrow> PollLoop \<Rightarrow> PollLoop" where
  "drain drv 0 L = L"
| "drain drv (Suc n) L =
     (case poll_entry (p_queue (lp L)) of
        None \<Rightarrow> L
      | Some (d, q) \<Rightarrow>
          let L1 = L\<lparr>lp := (lp L)\<lparr>p_queue := q\<rparr>, loop_batch := loop_batch L @ [d]\<rparr>
          in drain drv n (if MAX_BATCH_SIZE \<le> length (loop_batch L1) then flush drv L1 else L1))"

fun retire_all :: "nat \<Rightarrow> Poller \<Rightarrow> Poller" where
  "retire_all 0 p = p"
| "retire_all (Suc n) p = retire_all n (retire_event True p)"

definition final_flush :: "cu_driver \<Rightarrow> Poller \<Rightarrow> Poller" where
  "final_flush drv p =
     (let p1 = (if 0 < tile_events_inflight p
            then (retire_all (tile_events_inflight p) (ce_do (wait_completion drv) p))\<lparr>has_async_dma := False\<rparr> else p);
          p2 = (if 0 < staging_inflight_count p1 then (ce_do (wait_completion drv) p1)\<lparr>staging_inflight_count := 0\<rparr> else p1)
      in if has_async_dma p2
         then let p3 = ce_do (wait_completion drv) p2 in (set_done (latest_async_read p3) p3)\<lparr>has_async_dma := False\<rparr>
         else p2)"

definition unpin :: "cu_driver \<Rightarrow> Poller \<Rightarrow> Poller" where
  "unpin drv p = (if use_ce p then case unpin_context drv (p_ce p) (p_trace p) of (ce, tr) \<Rightarrow> p\<lparr>p_ce := ce, p_trace := tr\<rparr> else p)"

text \<open>The whole thread, for a list of turns during which \<open>running_\<close> is set; \<open>final\<close> is what arrives before the drain.\<close>

definition polling_loop :: "cu_driver \<Rightarrow> producers list \<Rightarrow> (DescriptorQueue \<Rightarrow> DescriptorQueue) \<Rightarrow> Poller \<Rightarrow> Poller" where
  "polling_loop drv turns final p =
     (let start = (if use_ce p then pin_context drv (p_ce p) (p_trace p) else (CUDA_SUCCESS, p_ce p, p_trace p))
      in case start of (r, ce, tr) \<Rightarrow>
        let p0 = p\<lparr>p_ce := ce, p_trace := tr\<rparr> in
        if r \<noteq> CUDA_SUCCESS then p0
        else let L0 = \<lparr>lp = p0, loop_batch = [], loop_flags = 0, loop_threshold = BATCH_THRESHOLD\<rparr>;
                 L1 = queue_env final (fold (poll_turn drv) turns L0);
                 L2 = flush drv (drain drv (QUEUE_SIZE + 1) L1)
             in unpin drv (final_flush drv (lp L2)))"

end
