(* ===== verification/Poll_Safety.thy ===== *)
theory Poll_Safety
  imports Cpu_Polling
begin

text \<open>
  What the polling loop guarantees as a whole. The invariant \<open>loop_ok\<close> says that the copy engine is
  well-formed, that every copy is settled or will be waited for, that the grouping maps are clear, that the batch fits
  its array, and that the value to be published next is the read index less what is still batched. Every
  iteration keeps it, and \<open>done_idx\<close> moves only to the read index, with nothing batched and every copy settled.
  The theorems are for the copy-engine modes without deferred tile events.
\<close>

section \<open>The poller's invariant\<close>

definition events_apart :: "Poller \<Rightarrow> bool" where
  "events_apart p \<longleftrightarrow> (\<forall>ch<num_channels (p_ce p). signal_stream p \<noteq> ce_streams (p_ce p) ch)
     \<and> (\<forall>b. \<forall>ch<num_channels (p_ce p). staging_events p b \<noteq> ce_events (p_ce p) ch)"

definition poller_ok :: "Poller \<Rightarrow> bool" where
  "poller_ok p \<longleftrightarrow> ce_wf (p_ce p) \<and> p_tracks p \<and> events_apart p
     \<and> bucket_map_storage p = (\<lambda>_. -1) \<and> sg_bucket_map p = (\<lambda>_. -1)"

definition same_setup :: "Poller \<Rightarrow> Poller \<Rightarrow> bool" where
  "same_setup p q \<longleftrightarrow> use_ce q = use_ce p \<and> tiled_set q = tiled_set p \<and> sg_set q = sg_set p
     \<and> signal_buf_addr q = signal_buf_addr p \<and> signal_stream q = signal_stream p \<and> staging_events q = staging_events p
     \<and> p_queue q = p_queue p \<and> tile_events_inflight q = tile_events_inflight p
     \<and> num_channels (p_ce q) = num_channels (p_ce p) \<and> ce_streams (p_ce q) = ce_streams (p_ce p)
     \<and> ce_events (p_ce q) = ce_events (p_ce p)"

definition good :: "Poller \<Rightarrow> Poller \<Rightarrow> bool" where
  "good p q \<longleftrightarrow> poller_ok q \<and> same_setup p q"

lemma same_setup_trans: "same_setup p q \<Longrightarrow> same_setup q r \<Longrightarrow> same_setup p r"
  by (simp add: same_setup_def)

lemma good_trans: "good p q \<Longrightarrow> (poller_ok q \<Longrightarrow> good q r) \<Longrightarrow> good p r"
  using same_setup_trans by (auto simp: good_def)

lemma good_refl: "poller_ok p \<Longrightarrow> good p p"
  by (simp add: good_def same_setup_def)

text \<open>Changes of fields the invariant does not look at.\<close>

lemma good_fields:
  assumes "poller_ok p" "p_ce q = p_ce p" "p_trace q = p_trace p" "signal_stream q = signal_stream p" "staging_events q = staging_events p"
    "bucket_map_storage q = (\<lambda>_. -1)" "sg_bucket_map q = (\<lambda>_. -1)" "use_ce q = use_ce p" "tiled_set q = tiled_set p" "sg_set q = sg_set p"
    "signal_buf_addr q = signal_buf_addr p" "p_queue q = p_queue p" "tile_events_inflight q = tile_events_inflight p"
  shows "good p q"
  using assms by (simp add: good_def poller_ok_def same_setup_def events_apart_def)

text \<open>Changes of the copy engine and the trace.\<close>

lemma good_engine:
  assumes "poller_ok p" "q = p\<lparr>p_ce := ce, p_trace := tr\<rparr>" "ce_wf ce" "ce_tracks ce tr"
    "num_channels ce = num_channels (p_ce p)" "ce_streams ce = ce_streams (p_ce p)" "ce_events ce = ce_events (p_ce p)"
  shows "good p q"
  using assms by (simp add: good_def poller_ok_def same_setup_def events_apart_def)

lemma good_calls:
  assumes "poller_ok p" "quiet_for (p_ce p) new"
  shows "good p (p\<lparr>p_trace := p_trace p @ new\<rparr>)"
  by (rule good_engine [OF assms(1), where ce = "p_ce p" and tr = "p_trace p @ new"])
    (use assms tracks_quiet in \<open>auto simp: poller_ok_def\<close>)

lemma good_submit:
  assumes "all_succeed drv" "poller_ok p"
  shows "good p (ce_do (submit_scatter_gather drv es) p)"
proof (cases "es = []")
  case True
  then show ?thesis using good_refl [OF assms(2)] by (simp add: ce_do_def submit_Nil)
next
  case False
  have wf: "ce_wf (p_ce p)" "p_tracks p" using assms(2) by (simp_all add: poller_ok_def)
  obtain m where m: "submit_scatter_gather drv es (p_ce p) (p_trace p) = (CUDA_SUCCESS, submitted (p_ce p) es m, p_trace p @ submit_calls (p_ce p) es m)"
    and b: "\<And>k. bit m k \<longleftrightarrow> k \<in> fst ` set (assign (p_ce p) es)"
    using submit_success [OF assms(1) wf(1) False] by metis
  show ?thesis
    by (rule good_engine [OF assms(2), where ce = "submitted (p_ce p) es m" and tr = "p_trace p @ submit_calls (p_ce p) es m"])
      (use m submitted_wf [OF wf(1) b] submitted_tracks [OF wf(1) b wf(2)] in \<open>simp_all add: ce_do_def submitted_def\<close>)
qed

lemma good_record:
  assumes "all_succeed drv" "poller_ok p" "\<And>ch. ch < num_channels (p_ce p) \<Longrightarrow> ev \<noteq> ce_events (p_ce p) ch"
  shows "good p (ce_do (record_event_on_last_stream drv ev) p)"
proof -
  have "ce_do (record_event_on_last_stream drv ev) p = p\<lparr>p_trace := p_trace p @
      [EventRecord ev (ce_streams (p_ce p) ((next_channel (p_ce p) + num_channels (p_ce p) - 1) mod num_channels (p_ce p)))]\<rparr>"
    using assms(1,2) by (simp add: ce_do_def record_event_on_last_stream_def poller_ok_def ce_wf_def Let_def ce_return_def)
  moreover have "quiet_for (p_ce p) [EventRecord ev s]" for s using assms(3) by (auto simp: quiet_for_def copy_on_def)
  ultimately show ?thesis using good_calls [OF assms(2)] by simp
qed

lemma good_wait:
  assumes "all_succeed drv" "poller_ok p"
  shows "good p (ce_do (wait_completion drv) p)"
    and "ce_copy (p_ce p) (p_trace (ce_do (wait_completion drv) p)) ch i \<Longrightarrow> settled (p_trace (ce_do (wait_completion drv) p)) i"
proof -
  have wf: "ce_wf (p_ce p)" "p_tracks p" using assms(2) by (simp_all add: poller_ok_def)
  have ok: "fst (wait_completion drv (p_ce p) (p_trace p)) = CUDA_SUCCESS"
    using assms(1) by (simp add: wait_completion_def sync_events_success ce_return_def)
  obtain ce tr where run: "wait_completion drv (p_ce p) (p_trace p) = (CUDA_SUCCESS, ce, tr)"
    using ok by (cases "wait_completion drv (p_ce p) (p_trace p)") auto
  note t = tracks_wait [OF ok wf] wait_result [OF ok wf(1)]
  show "good p (ce_do (wait_completion drv) p)"
    by (rule good_engine [OF assms(2), where ce = ce and tr = tr]) (use t run in \<open>simp_all add: ce_do_def\<close>)
  show "ce_copy (p_ce p) (p_trace (ce_do (wait_completion drv) p)) ch i \<Longrightarrow> settled (p_trace (ce_do (wait_completion drv) p)) i"
    using t(2) run by (simp add: ce_do_def)
qed

lemma good_stream_wait:
  assumes "all_succeed drv" "poller_ok p"
  shows "good p (ce_do (make_stream_wait_on_all drv st) p)"
proof -
  have wf: "ce_wf (p_ce p)" "p_tracks p" using assms(2) by (simp_all add: poller_ok_def)
  obtain ws where run: "make_stream_wait_on_all drv st (p_ce p) (p_trace p) = (CUDA_SUCCESS, p_ce p, p_trace p @ ws)"
    using make_wait_run [OF assms(1) wf(1)] by blast
  with tracks_stream_wait [of drv st, OF _ wf] have "ce_tracks (p_ce p) (p_trace p @ ws)" by simp
  then show ?thesis
    by (intro good_engine [OF assms(2), where ce = "p_ce p" and tr = "p_trace p @ ws"]) (use run wf in \<open>simp_all add: ce_do_def\<close>)
qed

section \<open>The transfer paths keep it\<close>

lemma good_stats: "poller_ok p \<Longrightarrow> good p (add_stats a b c p)" "poller_ok p \<Longrightarrow> good p (add_bytes es p)"
  by (rule good_fields; simp add: add_stats_def add_bytes_def poller_ok_def)+

lemma good_counters: "poller_ok p \<Longrightarrow> good p (p\<lparr>descriptors_processed := x, batches_submitted := y\<rparr>)"
  by (rule good_fields) (simp_all add: poller_ok_def)

lemma good_gather: "poller_ok p \<Longrightarrow> good p (gather_into es b d p)"
  by (rule good_fields) (simp_all add: gather_into_def poller_ok_def)

lemma good_staging_wait:
  assumes "poller_ok p"
  shows "good p (staging_wait p)"
proof (cases "staging_event_pending p (staging_cur p)")
  case True
  let ?p = "p\<lparr>p_trace := p_trace p @ [EventSynchronize (staging_events p (staging_cur p))]\<rparr>"
  have "quiet_for (p_ce p) [EventSynchronize e]" for e by (auto simp: quiet_for_def copy_on_def)
  then have "good p ?p" by (rule good_calls [OF assms])
  moreover have "good ?p (staging_wait p)" if "poller_ok ?p"
    using that True by (intro good_fields) (simp_all add: staging_wait_def call_def Let_def poller_ok_def)
  ultimately show ?thesis by (rule good_trans)
qed (use good_refl [OF assms] in \<open>simp add: staging_wait_def\<close>)

lemma good_staging_submit:
  assumes "all_succeed drv" "poller_ok p"
  shows "good p (staging_submit drv runs p)"
proof -
  let ?p1 = "ce_do (submit_scatter_gather drv runs) p" let ?ev = "staging_events p (staging_cur p)"
  let ?p2 = "ce_do (record_event_on_last_stream drv ?ev) ?p1"
  note s = good_submit [OF assms, of runs]
  have "good ?p1 ?p2" if "poller_ok ?p1"
  proof (rule good_record [OF assms(1) that])
    fix ch assume "ch < num_channels (p_ce ?p1)"
    then show "?ev \<noteq> ce_events (p_ce ?p1) ch"
      using that s by (simp add: poller_ok_def events_apart_def good_def same_setup_def)
  qed
  then have "good p ?p2" by (rule good_trans [OF s])
  moreover have "good ?p2 (staging_submit drv runs p)" if "poller_ok ?p2"
    using that by (intro good_fields) (simp_all add: staging_submit_def Let_def poller_ok_def)
  ultimately show ?thesis by (rule good_trans)
qed

lemma good_staged:
  assumes "all_succeed drv" "poller_ok p"
  shows "good p (add_stats a b c (staging_submit drv runs (gather_into es buf d (staging_wait p))))"
proof -
  have "good p (gather_into es buf d (staging_wait p))" by (rule good_trans [OF good_staging_wait [OF assms(2)]]) (rule good_gather)
  then have "good p (staging_submit drv runs (gather_into es buf d (staging_wait p)))"
    by (rule good_trans) (rule good_staging_submit [OF assms(1)])
  then show ?thesis by (rule good_trans) (rule good_stats)
qed

lemma good_direct:
  assumes "all_succeed drv" "poller_ok p"
  shows "good p (add_stats a b c (ce_do (submit_scatter_gather drv es) p))"
  by (rule good_trans [OF good_submit [OF assms]]) (rule good_stats)

lemma good_generic:
  assumes "all_succeed drv" "poller_ok p"
  shows "good p (generic_path drv n es p)"
  using good_staged [OF assms] good_direct [OF assms] unfolding generic_path_def by (simp add: Let_def split: prod.split)

lemma good_process_batch:
  assumes "all_succeed drv" "poller_ok p"
  shows "good p (snd (process_batch drv batch p))"
proof -
  let ?p = "add_bytes (map sg_of batch) p"
  have "good p ?p" using assms(2) by (rule good_stats)
  moreover have "good ?p (snd (process_batch drv batch p))" if "poller_ok ?p"
    using good_staged [OF assms(1) that] good_direct [OF assms(1) that] good_generic [OF assms(1) that]
    by (simp add: process_batch_def Let_def)
  ultimately show ?thesis by (rule good_trans)
qed

lemma good_submit_groups:
  assumes "all_succeed drv" "poller_ok p"
  shows "good p (submit_groups drv gs p)"
  using assms(2)
proof (induction gs arbitrary: p)
  case Nil
  then show ?case by (simp add: submit_groups_def good_refl)
next
  case (Cons g gs)
  from good_trans [OF good_submit [OF assms(1) Cons.prems] Cons.IH] show ?case by (simp add: submit_groups_def)
qed

lemma good_signal_calls:
  assumes "poller_ok p" "q = p\<lparr>p_trace := p_trace p @ signal_calls d s (signal_stream p) ws\<rparr>"
  shows "good p q"
proof -
  have "quiet_for (p_ce p) (signal_calls d s (signal_stream p) ws)"
    using assms(1) by (auto simp: quiet_for_def poller_ok_def events_apart_def signal_calls_def signal_call_def copy_on_def is_record_def)
  then show ?thesis using good_calls [OF assms(1)] assms(2) by simp
qed

lemma groups_facts:
  assumes "group_batch limit (replicate (length ds) 0) (map id_of ds) (\<lambda>_. -1) = (act, groups, bm)"
  shows "distinct act" "\<forall>t\<in>set act. t < limit" "bm = (\<lambda>_. -1)"
  using groups_are_valid_entries [OF assms] by auto

lemma good_tile_signals:
  assumes "all_succeed drv" "poller_ok p" "distinct act" "\<forall>t\<in>set act. t < MAX_TILES"
  shows "good p (tile_signals drv act p)"
proof -
  have dev: "good p (device_signals d s act (ce_do (make_stream_wait_on_all drv (signal_stream p)) p))" for d s
  proof (rule good_trans [OF good_stream_wait [OF assms(1,2), of "signal_stream p"]])
    let ?p = "ce_do (make_stream_wait_on_all drv (signal_stream p)) p"
    assume ok: "poller_ok ?p"
    obtain ws where "device_signals d s act ?p = ?p\<lparr>p_trace := p_trace ?p @ signal_calls d s (signal_stream ?p) ws\<rparr>"
      using device_signals_exact [OF assms(3,4)] by blast
    then show "good ?p (device_signals d s act ?p)" by (rule good_signal_calls [OF ok])
  qed
  have host: "good p (host_signals drv s act p)" for s
    using good_submit [OF assms(1,2)] good_refl [OF assms(2)] by (simp add: host_signals_def Let_def)
  show ?thesis using dev host good_refl [OF assms(2)] by (simp add: tile_signals_def split: option.split)
qed

lemma good_tiled:
  assumes "all_succeed drv" "poller_ok p"
  shows "good p (process_batch_tiled drv ds p)"
proof -
  have bm: "bucket_map_storage p = (\<lambda>_. -1)" using assms(2) by (simp add: poller_ok_def)
  obtain act groups bm where g: "group_batch MAX_TILES (replicate (length ds) 0) (map id_of ds) (\<lambda>_. -1) = (act, groups, bm)"
    by (cases "group_batch MAX_TILES (replicate (length ds) 0) (map id_of ds) (\<lambda>_. -1)") auto
  note f = groups_facts [OF g]
  let ?gs = "group_entries ds groups"
  define p2 where "p2 = update_progress act (map length ?gs) (add_bytes (concat ?gs) (p\<lparr>bucket_map_storage := bm\<rparr>))"
  define p4 where "p4 = tile_signals drv act (submit_groups drv (tiled_dmas ?gs) p2)"
  have "good p p2"
    using update_progress_only [of act "map length ?gs" "add_bytes (concat ?gs) (p\<lparr>bucket_map_storage := bm\<rparr>)"] assms(2) f(3)
    by (intro good_fields) (auto simp: p2_def add_bytes_def poller_ok_def)
  then have "good p (submit_groups drv (tiled_dmas ?gs) p2)" by (rule good_trans) (rule good_submit_groups [OF assms(1)])
  then have "good p p4" unfolding p4_def by (rule good_trans) (intro good_tile_signals assms(1) f(1,2))
  moreover have "process_batch_tiled drv ds p = p4\<lparr>descriptors_processed := descriptors_processed p4 + of_nat (length ds),
      batches_submitted := batches_submitted p4 + of_nat (length act)\<rparr>"
    using g bm by (simp add: process_batch_tiled_def Let_def p4_def p2_def)
  moreover have "good p4 (p4\<lparr>descriptors_processed := x, batches_submitted := y\<rparr>)" if "poller_ok p4" for x y
    using that by (rule good_counters)
  ultimately show ?thesis by (simp only:) (rule good_trans)
qed

lemma good_list_signals:
  assumes "all_succeed drv" "poller_ok p" "\<forall>t\<in>set act. t < MAX_SG_LISTS"
  shows "good p (list_signals drv act p)"
proof -
  have bump: "good p (bump_completed n q)" if "good p q" for n q
    using that by (rule good_trans) (rule good_fields, auto simp: bump_completed_def poller_ok_def)
  have dev: "good p (fold (list_signal d) act (ce_do (make_stream_wait_on_all drv (signal_stream p)) p))" for d
  proof (rule good_trans [OF good_stream_wait [OF assms(1,2), of "signal_stream p"]])
    let ?p = "ce_do (make_stream_wait_on_all drv (signal_stream p)) p"
    assume ok: "poller_ok ?p"
    show "good ?p (fold (list_signal d) act ?p)"
    proof (cases "signal_buf_addr ?p")
      case None
      then have "fold (list_signal d) act ?p = ?p" by (induction act) (simp_all add: list_signal_def)
      then show ?thesis using good_refl [OF ok] by simp
    next
      case (Some s)
      obtain sb where sb: "fold (list_signal d) act ?p = ?p\<lparr>signal_buf := sb, p_trace := p_trace ?p @ signal_calls d s (signal_stream ?p) (map (\<lambda>t. (t, 1)) act)\<rparr>"
        using fold_list_signal [OF assms(3) Some, of d] by blast
      let ?q = "?p\<lparr>p_trace := p_trace ?p @ signal_calls d s (signal_stream ?p) (map (\<lambda>t. (t, 1)) act)\<rparr>"
      have "good ?p ?q" using ok refl by (rule good_signal_calls)
      then show ?thesis by (rule good_trans) (rule good_fields, auto simp: sb poller_ok_def)
    qed
  qed
  have sync: "good p (fold list_signal_sync act (ce_do (wait_completion drv) p))"
  proof (rule good_trans [OF good_wait(1) [OF assms(1,2)]])
    show "good q (fold list_signal_sync act q)" if "poller_ok q" for q
      using that
    proof (induction act arbitrary: q)
      case (Cons t act)
      have "quiet_for (p_ce q) [MemcpyHtoD a b c]" for a b c by (auto simp: quiet_for_def copy_on_def is_record_def)
      then have "good q (list_signal_sync t q)" using good_calls [OF Cons.prems] good_refl [OF Cons.prems]
        by (auto simp: list_signal_sync_def call_def split: option.split)
      then show ?case using Cons.IH good_trans by fastforce
    qed (simp add: good_refl)
  qed
  show ?thesis
    using bump [OF dev] bump [OF sync] good_refl [OF assms(2)] by (auto simp: list_signals_def split: option.split)
qed

lemma good_sg:
  assumes "all_succeed drv" "poller_ok p"
  shows "good p (process_batch_sg drv ds p)"
proof -
  have bm: "sg_bucket_map p = (\<lambda>_. -1)" using assms(2) by (simp add: poller_ok_def)
  obtain act groups bm where g: "group_batch MAX_SG_LISTS (replicate (length ds) 0) (map id_of ds) (\<lambda>_. -1) = (act, groups, bm)"
    by (cases "group_batch MAX_SG_LISTS (replicate (length ds) 0) (map id_of ds) (\<lambda>_. -1)") auto
  note f = groups_facts [OF g]
  let ?gs = "group_entries ds groups"
  define p0 where "p0 = p\<lparr>sg_bucket_map := bm\<rparr>"
  define p3 where "p3 = list_signals drv act (add_bytes (concat ?gs) (submit_groups drv (map list_dma ?gs) p0))"
  have "good p p0" using assms(2) f(3) by (intro good_fields) (simp_all add: p0_def poller_ok_def)
  then have "good p (submit_groups drv (map list_dma ?gs) p0)" by (rule good_trans) (rule good_submit_groups [OF assms(1)])
  then have "good p (add_bytes (concat ?gs) (submit_groups drv (map list_dma ?gs) p0))" by (rule good_trans) (rule good_stats)
  then have "good p p3" unfolding p3_def by (rule good_trans) (intro good_list_signals assms(1) f(2))
  moreover have "process_batch_sg drv ds p = p3\<lparr>descriptors_processed := descriptors_processed p3 + of_nat (length ds),
      batches_submitted := batches_submitted p3 + of_nat (length act)\<rparr>"
    using g bm by (simp add: process_batch_sg_def Let_def p3_def p0_def)
  moreover have "good p3 (p3\<lparr>descriptors_processed := x, batches_submitted := y\<rparr>)" if "poller_ok p3" for x y
    using that by (rule good_counters)
  ultimately show ?thesis by (simp only:) (rule good_trans)
qed

section \<open>Flushing\<close>

text \<open>Copy-engine mode, with no deferred tile events: tiled queues have their signal buffer.\<close>

definition ce_mode :: "Poller \<Rightarrow> bool" where
  "ce_mode p \<longleftrightarrow> use_ce p \<and> tile_events_inflight p = 0 \<and> (tiled_set p \<longrightarrow> signal_buf_addr p \<noteq> None)"

lemma ce_mode_setup: "same_setup p q \<Longrightarrow> ce_mode q = ce_mode p"
  by (simp add: same_setup_def ce_mode_def)

lemma flush_batch_good:
  assumes "all_succeed drv" "poller_ok p" "ce_mode p" "ds \<noteq> []" "q = flush_batch drv ds fl p"
  shows "good p q" and "has_async_dma q" and "latest_async_read q = read_idx (p_queue p)"
proof -
  let ?r = "read_idx (p_queue p)"
  have async: "good p (set_async ?r x)" if "good p x" for x
    using that by (rule good_trans) (rule good_fields, auto simp: set_async_def poller_ok_def)
  have pb: "process_batch drv ds p = (True, snd (process_batch drv ds p))" by (simp add: process_batch_def Let_def prod_eq_iff)
  have u: "use_ce p" "tiled_set p \<Longrightarrow> signal_buf_addr p \<noteq> None" using assms(3) by (simp_all add: ce_mode_def)
  have "q = (if sg_set p \<and> has_flag fl FLAG_LAST_IN_TILE then set_async ?r (process_batch_sg drv ds p)
      else if tiled_set p then set_async ?r (process_batch_tiled drv ds p) else set_async ?r (snd (process_batch drv ds p)))"
    using u assms(4) unfolding assms(5) flush_batch_def by (subst pb) (simp add: Let_def)
  then consider "q = set_async ?r (process_batch_sg drv ds p)" | "q = set_async ?r (process_batch_tiled drv ds p)"
    | "q = set_async ?r (snd (process_batch drv ds p))" by metis
  then show "good p q" "has_async_dma q" "latest_async_read q = ?r"
    by (cases; use async [OF good_sg [OF assms(1,2)]] async [OF good_tiled [OF assms(1,2)]] async [OF good_process_batch [OF assms(1,2)]]
        in \<open>simp add: set_async_def\<close>)+
qed

section \<open>One iteration\<close>

definition env_ok :: "(nat \<Rightarrow> DescriptorQueue \<Rightarrow> DescriptorQueue) \<Rightarrow> bool" where
  "env_ok env \<longleftrightarrow> (\<forall>i q. read_idx (env i q) = read_idx q \<and> done_idx (env i q) = done_idx q)"

definition producers_ok :: "producers \<Rightarrow> bool" where
  "producers_ok t \<longleftrightarrow> (case t of (arrive, env) \<Rightarrow> env_ok (\<lambda>_. arrive) \<and> env_ok env)"

definition loop_ok :: "PollLoop \<Rightarrow> bool" where
  "loop_ok L \<longleftrightarrow> poller_ok (lp L) \<and> ce_mode (lp L) \<and> loop_threshold L \<le> BATCH_THRESHOLD
     \<and> length (loop_batch L) < BATCH_THRESHOLD
     \<and> (has_async_dma (lp L) \<longrightarrow> latest_async_read (lp L) + of_nat (length (loop_batch L)) = read_idx (p_queue (lp L)))"

lemma poller_queue [simp]: "poller_ok (p\<lparr>p_queue := q\<rparr>) = poller_ok p" "ce_mode (p\<lparr>p_queue := q\<rparr>) = ce_mode p"
  by (simp_all add: poller_ok_def events_apart_def ce_mode_def)

lemma poll_entry_indices:
  "poll_entry q = Some (d, q') \<Longrightarrow> read_idx q' = read_idx q + 1 \<and> done_idx q' = done_idx q"
  by (auto simp: poll_entry_def Let_def set_entry_def split: if_splits)

text \<open>The take loop only moves entries from the queue to the batch, and the batch fits its array.\<close>

lemma take_loop_facts:
  assumes "env_ok env" "length (loop_batch L) < BATCH_THRESHOLD" "loop_threshold L \<le> BATCH_THRESHOLD"
  shows "\<exists>q ds fl th. take_loop env L = L\<lparr>lp := (lp L)\<lparr>p_queue := q\<rparr>, loop_batch := loop_batch L @ ds, loop_flags := fl, loop_threshold := th\<rparr>
     \<and> read_idx q = read_idx (p_queue (lp L)) + of_nat (length ds) \<and> done_idx q = done_idx (p_queue (lp L))
     \<and> th \<le> BATCH_THRESHOLD \<and> length (loop_batch L @ ds) \<le> BATCH_THRESHOLD"
  using assms
proof (induction env L rule: take_loop.induct)
  case (1 env L)
  show ?case
  proof (cases "poll_entry (p_queue (lp L))")
    case None
    then have "take_loop env L = L\<lparr>lp := (lp L)\<lparr>p_queue := p_queue (lp L)\<rparr>, loop_batch := loop_batch L @ [],
        loop_flags := loop_flags L, loop_threshold := loop_threshold L\<rparr>" by (simp add: take_loop.simps [of env L])
    then show ?thesis using "1.prems" by (intro exI conjI) (assumption, simp_all)
  next
    case (Some x)
    then obtain d q where e: "poll_entry (p_queue (lp L)) = Some (d, q)" by (cases x) auto
    note idx = poll_entry_indices [OF e]
    let ?L = "take_entry d q L"
    have th: "loop_threshold ?L \<le> BATCH_THRESHOLD" using "1.prems" by (auto simp: take_entry_def BATCH_THRESHOLD_SMALL_def BATCH_THRESHOLD_def)
    have one: "?L = L\<lparr>lp := (lp L)\<lparr>p_queue := q\<rparr>, loop_batch := loop_batch L @ [d], loop_flags := loop_flags ?L, loop_threshold := loop_threshold ?L\<rparr>"
      by (simp add: take_entry_def)
    show ?thesis
    proof (cases "batch_full ?L")
      case True
      then have "take_loop env L = ?L" by (simp add: take_loop.simps [of env L] e Let_def)
      then show ?thesis using one th idx "1.prems" by (intro exI conjI) (simp, simp_all)
    next
      case False
      let ?L2 = "queue_env (env (length (loop_batch ?L))) ?L"
      have "length (loop_batch ?L) < BATCH_THRESHOLD" using False th by (simp add: batch_full_def)
      then obtain q2 ds fl th2 where IH: "take_loop env ?L2 = ?L2\<lparr>lp := (lp ?L2)\<lparr>p_queue := q2\<rparr>, loop_batch := loop_batch ?L2 @ ds, loop_flags := fl, loop_threshold := th2\<rparr>"
        "read_idx q2 = read_idx (p_queue (lp ?L2)) + of_nat (length ds)" "done_idx q2 = done_idx (p_queue (lp ?L2))"
        "th2 \<le> BATCH_THRESHOLD" "length (loop_batch ?L2 @ ds) \<le> BATCH_THRESHOLD"
        using "1.IH" [OF e refl refl False "1.prems"(1)] th by (auto simp: queue_env_def)
      have env: "read_idx (p_queue (lp ?L2)) = read_idx q" "done_idx (p_queue (lp ?L2)) = done_idx q"
        using "1.prems"(1) by (simp_all add: queue_env_def env_ok_def take_entry_def)
      have "take_loop env L = take_loop env ?L2" using False by (simp add: take_loop.simps [of env L] e Let_def)
      also have "\<dots> = L\<lparr>lp := (lp L)\<lparr>p_queue := q2\<rparr>, loop_batch := loop_batch L @ (d # ds), loop_flags := fl, loop_threshold := th2\<rparr>"
        unfolding IH(1) by (simp add: queue_env_def take_entry_def)
      finally show ?thesis using IH env idx
        by (intro exI conjI) (assumption, simp_all add: queue_env_def take_entry_def)
    qed
  qed
qed

lemma flush_ok:
  assumes "all_succeed drv" "poller_ok (lp L)" "ce_mode (lp L)" "loop_threshold L \<le> BATCH_THRESHOLD"
    and "has_async_dma (lp L) \<longrightarrow> latest_async_read (lp L) + of_nat (length (loop_batch L)) = read_idx (p_queue (lp L))"
  shows "loop_ok (flush drv L)" "p_queue (lp (flush drv L)) = p_queue (lp L)" "loop_batch (flush drv L) = []"
    and "loop_batch L \<noteq> [] \<Longrightarrow> has_async_dma (lp (flush drv L))"
proof -
  have "loop_ok (flush drv L) \<and> p_queue (lp (flush drv L)) = p_queue (lp L) \<and> loop_batch (flush drv L) = []
    \<and> (loop_batch L \<noteq> [] \<longrightarrow> has_async_dma (lp (flush drv L)))"
  proof (cases "loop_batch L = []")
    case True
    then show ?thesis using assms by (simp add: flush_def loop_ok_def BATCH_THRESHOLD_def)
  next
    case False
    note f = flush_batch_good [OF assms(1-3) False refl, of "loop_flags L"]
    have "poller_ok (flush_batch drv (loop_batch L) (loop_flags L) (lp L))" "ce_mode (flush_batch drv (loop_batch L) (loop_flags L) (lp L))"
      "p_queue (flush_batch drv (loop_batch L) (loop_flags L) (lp L)) = p_queue (lp L)"
      using f(1) assms(3) by (auto simp: good_def same_setup_def ce_mode_def)
    then show ?thesis using f(2,3) False assms(4) by (simp add: flush_def loop_ok_def BATCH_THRESHOLD_def)
  qed
  then show "loop_ok (flush drv L)" "p_queue (lp (flush drv L)) = p_queue (lp L)" "loop_batch (flush drv L) = []"
    "loop_batch L \<noteq> [] \<Longrightarrow> has_async_dma (lp (flush drv L))" by simp_all
qed

lemma gap_spin_indices: "env_ok env \<Longrightarrow> gap_spin env n q = (b, q') \<Longrightarrow> read_idx q' = read_idx q \<and> done_idx q' = done_idx q"
  by (induction env n q rule: gap_spin.induct) (auto simp: Let_def env_ok_def split: if_splits)

definition all_settled :: "Poller \<Rightarrow> bool" where
  "all_settled p \<longleftrightarrow> (\<forall>ch i. ce_copy (p_ce p) (p_trace p) ch i \<longrightarrow> settled (p_trace p) i)"

lemma finish_async_ok:
  assumes "all_succeed drv" "poller_ok p" "ce_mode p" "q = finish_async drv p"
  shows "poller_ok q" "ce_mode q" "all_settled q" "\<not> has_async_dma q"
    and "p_queue q = (p_queue p)\<lparr>done_idx := latest_async_read p\<rparr>"
proof -
  define p1 where "p1 = (if 0 < staging_inflight_count p then (ce_do (wait_completion drv) p)\<lparr>staging_inflight_count := 0\<rparr> else p)"
  define p2 where "p2 = ce_do (wait_completion drv) p1"
  have q: "q = (set_done (latest_async_read p2) p2)\<lparr>has_async_dma := False\<rparr>"
    by (simp add: assms(4) finish_async_def p1_def p2_def Let_def)
  have "good (ce_do (wait_completion drv) p) ((ce_do (wait_completion drv) p)\<lparr>staging_inflight_count := 0\<rparr>)"
    if "poller_ok (ce_do (wait_completion drv) p)" using that by (intro good_fields) (auto simp: poller_ok_def)
  then have g1: "good p p1" using good_trans [OF good_wait(1) [OF assms(1,2)]] good_refl [OF assms(2)] by (simp add: p1_def)
  then have ok1: "poller_ok p1" by (simp add: good_def)
  note w = good_wait [OF assms(1) ok1]
  have g2: "good p p2" unfolding p2_def using g1 w(1) by (rule good_trans)
  then have ok2: "poller_ok p2" "same_setup p p2" by (simp_all add: good_def)
  have same: "same_setup p1 p2" using w(1) by (simp add: good_def p2_def)
  have latest: "latest_async_read (ce_do f r) = latest_async_read r" for f r by (simp add: ce_do_def split: prod.splits)
  have l: "latest_async_read p2 = latest_async_read p" by (simp add: p2_def p1_def latest)
  show "poller_ok q" using ok2(1) by (simp add: q set_done_def poller_ok_def events_apart_def)
  show "ce_mode q" using assms(3) ce_mode_setup [OF ok2(2)] by (simp add: q set_done_def ce_mode_def)
  show "\<not> has_async_dma q" by (simp add: q)
  show "p_queue q = (p_queue p)\<lparr>done_idx := latest_async_read p\<rparr>" using ok2(2) l by (simp add: q set_done_def same_setup_def)
  show "all_settled q"
    unfolding all_settled_def
  proof (intro allI impI)
    fix ch i assume "ce_copy (p_ce q) (p_trace q) ch i"
    then have "ce_copy (p_ce p1) (p_trace p2) ch i" using same by (simp add: q set_done_def ce_copy_def same_setup_def)
    then show "settled (p_trace q) i" using w(2) by (simp add: q set_done_def p2_def)
  qed
qed

text \<open>What an iteration may do to \<open>done_idx\<close>.\<close>

definition publishes_safely :: "PollLoop \<Rightarrow> PollLoop \<Rightarrow> bool" where
  "publishes_safely L L' \<longleftrightarrow> done_idx (p_queue (lp L')) = done_idx (p_queue (lp L))
     \<or> loop_batch L' = [] \<and> done_idx (p_queue (lp L')) = read_idx (p_queue (lp L')) \<and> all_settled (lp L')"

lemma poll_iteration_ok:
  assumes drv: "all_succeed drv" and env: "env_ok env" and ok: "loop_ok L"
  shows "loop_ok (poll_iteration drv env L)" and "publishes_safely L (poll_iteration drv env L)"
proof -
  have o: "poller_ok (lp L)" "ce_mode (lp L)" "loop_threshold L \<le> BATCH_THRESHOLD" "length (loop_batch L) < BATCH_THRESHOLD"
    and as: "has_async_dma (lp L) \<Longrightarrow> latest_async_read (lp L) + of_nat (length (loop_batch L)) = read_idx (p_queue (lp L))"
    using ok by (simp_all add: loop_ok_def)
  have "loop_ok (poll_iteration drv env L) \<and> publishes_safely L (poll_iteration drv env L)"
  proof (cases "poll_entry (p_queue (lp L)) = None")
    case False
    define L1 where "L1 = take_loop env L"
    obtain q ds fl th where L1: "L1 = L\<lparr>lp := (lp L)\<lparr>p_queue := q\<rparr>, loop_batch := loop_batch L @ ds, loop_flags := fl, loop_threshold := th\<rparr>"
      and idx: "read_idx q = read_idx (p_queue (lp L)) + of_nat (length ds)" "done_idx q = done_idx (p_queue (lp L))"
      and th: "th \<le> BATCH_THRESHOLD" "length (loop_batch L @ ds) \<le> BATCH_THRESHOLD"
      unfolding L1_def using take_loop_facts [OF env o(4,3)] by blast
    have pre: "poller_ok (lp L1)" "ce_mode (lp L1)" "loop_threshold L1 \<le> BATCH_THRESHOLD"
      "has_async_dma (lp L1) \<longrightarrow> latest_async_read (lp L1) + of_nat (length (loop_batch L1)) = read_idx (p_queue (lp L1))"
      using o as th idx by (auto simp: L1 algebra_simps)
    note f = flush_ok [OF drv pre]
    show ?thesis
    proof (cases "loop_threshold L1 \<le> length (loop_batch L1) \<or> has_flag (loop_flags L1) (FLAG_LAST_IN_BATCH OR FLAG_URGENT OR FLAG_LAST_IN_TILE)")
      case True
      then have "poll_iteration drv env L = flush drv L1" using False by (simp add: poll_iteration_def Let_def L1_def)
      then show ?thesis using f(1,2) idx(2) by (simp add: publishes_safely_def L1)
    next
      case no: False
      then have "poll_iteration drv env L = L1" using False unfolding poll_iteration_def Let_def L1_def by auto
      moreover have "loop_ok L1" using pre no by (auto simp: loop_ok_def)
      ultimately show ?thesis using idx(2) by (simp add: publishes_safely_def L1)
    qed
  next
    case none: True
    show ?thesis
    proof (cases "loop_batch L = []")
      case False
      obtain b q where g: "gap_spin env GAP_SPIN_LIMIT (p_queue (lp L)) = (b, q)" by (cases "gap_spin env GAP_SPIN_LIMIT (p_queue (lp L))") auto
      note idx = gap_spin_indices [OF env g]
      let ?L = "L\<lparr>lp := (lp L)\<lparr>p_queue := q\<rparr>\<rparr>"
      have pre: "poller_ok (lp ?L)" "ce_mode (lp ?L)" "loop_threshold ?L \<le> BATCH_THRESHOLD"
        "has_async_dma (lp ?L) \<longrightarrow> latest_async_read (lp ?L) + of_nat (length (loop_batch ?L)) = read_idx (p_queue (lp ?L))"
        using o as idx by auto
      note f = flush_ok [OF drv pre]
      have "poll_iteration drv env L = (if b then ?L else flush drv ?L)" using none False by (simp add: poll_iteration_def g)
      moreover have "loop_ok ?L" using pre o(4) by (simp add: loop_ok_def)
      ultimately show ?thesis using f(1,2) idx by (simp add: publishes_safely_def)
    next
      case True
      have it: "poll_iteration drv env L = L\<lparr>lp := idle_work drv (lp L)\<rparr>" using none True by (simp add: poll_iteration_def)
      have no_ev: "tile_events_inflight (lp L) = 0" using o(2) by (simp add: ce_mode_def)
      show ?thesis
      proof (cases "has_async_dma (lp L)")
        case False
        then show ?thesis using it no_ev ok by (simp add: idle_work_def publishes_safely_def)
      next
        case asy: True
        note fa = finish_async_ok [OF drv o(1,2) refl]
        have "poll_iteration drv env L = L\<lparr>lp := finish_async drv (lp L)\<rparr>" using it no_ev asy by (simp add: idle_work_def)
        then show ?thesis using fa o(3,4) as [OF asy] True by (simp add: loop_ok_def publishes_safely_def)
      qed
    qed
  qed
  then show "loop_ok (poll_iteration drv env L)" "publishes_safely L (poll_iteration drv env L)" by simp_all
qed

section \<open>Runs\<close>

lemma queue_env_ok: "env_ok (\<lambda>_. arrive) \<Longrightarrow> loop_ok L \<Longrightarrow> loop_ok (queue_env arrive L)"
  by (simp add: env_ok_def loop_ok_def queue_env_def)

lemma poll_turn_ok: "all_succeed drv \<Longrightarrow> producers_ok t \<Longrightarrow> loop_ok L \<Longrightarrow> loop_ok (poll_turn drv t L)"
  by (auto simp: producers_ok_def poll_turn_def intro: poll_iteration_ok(1) queue_env_ok)

lemma poll_run_ok:
  assumes "all_succeed drv" "\<And>t. t \<in> set turns \<Longrightarrow> producers_ok t" "loop_ok L"
  shows "loop_ok (fold (poll_turn drv) turns L)"
  using assms(2,3) by (induction turns arbitrary: L) (auto intro: poll_turn_ok [OF assms(1)])

text \<open>When the producers are silent and nothing is ready, two iterations publish everything.\<close>

lemma poll_quiesces:
  assumes drv: "all_succeed drv" and ok: "loop_ok L" and none: "poll_entry (p_queue (lp L)) = None"
    and work: "loop_batch L \<noteq> [] \<or> has_async_dma (lp L)"
  shows "let L' = poll_iteration drv (\<lambda>_ q. q) (poll_iteration drv (\<lambda>_ q. q) L)
         in loop_batch L' = [] \<and> done_idx (p_queue (lp L')) = read_idx (p_queue (lp L')) \<and> all_settled (lp L') \<and> \<not> has_async_dma (lp L')"
proof -
  let ?e = "\<lambda>(_::nat) (q::DescriptorQueue). q"
  have env: "env_ok ?e" by (simp add: env_ok_def)
  have finish: "let L' = poll_iteration drv ?e M
      in loop_batch L' = [] \<and> done_idx (p_queue (lp L')) = read_idx (p_queue (lp L')) \<and> all_settled (lp L') \<and> \<not> has_async_dma (lp L')"
    if M: "loop_ok M" "poll_entry (p_queue (lp M)) = None" "loop_batch M = []" "has_async_dma (lp M)" for M
  proof -
    have o: "poller_ok (lp M)" "ce_mode (lp M)" "latest_async_read (lp M) = read_idx (p_queue (lp M))" using M by (simp_all add: loop_ok_def)
    have "poll_iteration drv ?e M = M\<lparr>lp := finish_async drv (lp M)\<rparr>"
      using M o(2) by (simp add: poll_iteration_def idle_work_def ce_mode_def)
    then show ?thesis using finish_async_ok [OF drv o(1,2) refl] o(3) M(3) by simp
  qed
  have rest: "let L' = poll_iteration drv ?e M
      in loop_batch L' = [] \<and> done_idx (p_queue (lp L')) = read_idx (p_queue (lp L')) \<and> all_settled (lp L') \<and> \<not> has_async_dma (lp L')"
    if M: "loop_ok M" "poll_entry (p_queue (lp M)) = None" "loop_batch M = []" "\<not> has_async_dma (lp M)"
      "done_idx (p_queue (lp M)) = read_idx (p_queue (lp M))" "all_settled (lp M)" for M
  proof -
    have "tile_events_inflight (lp M) = 0" using M(1) by (simp add: loop_ok_def ce_mode_def)
    then have "poll_iteration drv ?e M = M" using M by (simp add: poll_iteration_def idle_work_def)
    then show ?thesis using M by simp
  qed
  show ?thesis
  proof (cases "loop_batch L = []")
    case True
    note f = finish [OF ok none True]
    have asy: "has_async_dma (lp L)" using work True by simp
    let ?M = "poll_iteration drv ?e L"
    have "poll_entry (p_queue (lp ?M)) = None"
    proof -
      have "?M = L\<lparr>lp := finish_async drv (lp L)\<rparr>" using ok none True asy by (simp add: poll_iteration_def idle_work_def loop_ok_def ce_mode_def)
      moreover have "p_queue (finish_async drv (lp L)) = (p_queue (lp L))\<lparr>done_idx := latest_async_read (lp L)\<rparr>"
        using ok finish_async_ok(5) [OF drv, of "lp L"] by (simp add: loop_ok_def)
      ultimately show ?thesis using none by (auto simp: poll_entry_def entry_at_def Let_def split: if_splits)
    qed
    with rest [OF poll_iteration_ok(1) [OF drv env ok]] f [OF asy] show ?thesis by (simp add: Let_def)
  next
    case False
    have spin: "gap_spin ?e n q = (False, q)" if "poll_entry q = None" for n q using that by (induction n) simp_all
    have it: "poll_iteration drv ?e L = flush drv L" using none False spin [OF none] by (simp add: poll_iteration_def)
    have pre: "poller_ok (lp L)" "ce_mode (lp L)" "loop_threshold L \<le> BATCH_THRESHOLD"
      "has_async_dma (lp L) \<longrightarrow> latest_async_read (lp L) + of_nat (length (loop_batch L)) = read_idx (p_queue (lp L))"
      using ok by (simp_all add: loop_ok_def)
    note f = flush_ok [OF drv pre]
    from finish [of "flush drv L"] f none False show ?thesis unfolding it by simp
  qed
qed

section \<open>The drain after \<open>stop\<close>\<close>

text \<open>Draining never collects flags, so it never takes the per-list path it was not already on.\<close>

lemma drain_flags: "loop_flags L = 0 \<Longrightarrow> loop_flags (drain drv n L) = 0"
  by (induction drv n L rule: drain.induct) (auto simp: Let_def flush_def split: option.splits)

lemma drain_batch_bound:
  "length (loop_batch L) < MAX_BATCH_SIZE \<Longrightarrow> length (loop_batch (drain drv n L)) < MAX_BATCH_SIZE"
proof (induction drv n L rule: drain.induct)
  case (2 drv n L)
  show ?case
  proof (cases "poll_entry (p_queue (lp L))")
    case (Some x)
    then obtain d q where e: "poll_entry (p_queue (lp L)) = Some (d, q)" by (cases x) auto
    let ?L = "L\<lparr>lp := (lp L)\<lparr>p_queue := q\<rparr>, loop_batch := loop_batch L @ [d]\<rparr>"
    have "length (loop_batch (if MAX_BATCH_SIZE \<le> length (loop_batch ?L) then flush drv ?L else ?L)) < MAX_BATCH_SIZE"
      by (simp add: flush_def MAX_BATCH_SIZE_def)
    from "2.IH" [OF e refl refl this] show ?thesis by (simp add: e Let_def)
  qed (use "2.prems" in simp)
qed simp

end
