(* ===== verification/Polling_Properties.thy ===== *)
theory Polling_Properties
  imports Poll_Safety Batch_Properties
begin

text \<open>
  The properties of the polling thread: the invariant of its loop under every producer, what \<open>done_idx\<close> promises when
  it moves, that the loop quiesces, that batches fit their array, and what the drain after \<open>stop\<close> loses.
\<close>

section \<open>Example loop\<close>

definition example_loop :: PollLoop where
  "example_loop = \<lparr>lp = example_poller, loop_batch = [example_descriptor], loop_flags = 0, loop_threshold = BATCH_THRESHOLD\<rparr>"

lemma example_poller_ok: "poller_ok example_poller" "ce_mode example_poller"
proof -
  have "events_apart example_poller"
    by (auto simp: events_apart_def example_engine_def new_manager_def MAX_CE_CHANNELS_def) (simp add: example_poller_def)
  then show "poller_ok example_poller"
    using example_poller_wf by (simp add: poller_ok_def) (simp add: example_poller_def)
  show "ce_mode example_poller" by (simp add: ce_mode_def) (simp add: example_poller_def)
qed

lemma example_loop_ok: "loop_ok example_loop"
  using example_poller_ok by (simp add: loop_ok_def example_loop_def BATCH_THRESHOLD_def) (simp add: example_poller_def)

lemma example_queue_empty: "poll_entry empty_queue = None"
  by (simp add: poll_entry_def empty_queue_def entry_at_def)

section \<open>The loop\<close>

text \<open>C17: The invariant of the polling loop (in the modes of \<open>ce_mode\<close>: with a copy engine and without deferred tile events, that
  is, a tiled queue has its signal buffer): for every behaviour of the producers, during an iteration and while the poller is
  idle, every iteration keeps the engine well-formed and its copies tracked, the signal stream and the staging events apart
  from the engine's, the bucket maps clear, the threshold at most 4096 and the batch below it, so the batch array never overflows.\<close>

theorem poll_loop_invariant:
  assumes "all_succeed drv" "\<forall>t\<in>set turns. producers_ok t" "loop_ok L"
  shows "let L' = fold (poll_turn drv) turns L
    in ce_wf (p_ce (lp L')) \<and> p_tracks (lp L') \<and> bucket_map_storage (lp L') = (\<lambda>_. -1) \<and> sg_bucket_map (lp L') = (\<lambda>_. -1)
      \<and> length (loop_batch L') < MAX_BATCH_SIZE \<and> loop_ok L'"
  using poll_run_ok [OF assms(1) _ assms(3), of turns] assms(2)
  by (auto simp: Let_def loop_ok_def poller_ok_def BATCH_THRESHOLD_def MAX_BATCH_SIZE_def)

text \<open>An entry that arrives while the poller is idle, and then silence.\<close>

definition late_entry :: "DescriptorQueue \<Rightarrow> DescriptorQueue" where
  "late_entry q = set_entry (read_idx q) (\<lambda>_. example_descriptor\<lparr>sequence := read_idx q + 1\<rparr>) q"

theorem poll_loop_invariant_witness:
  "loop_ok (fold (poll_turn example_driver) [(\<lambda>q. q, \<lambda>_ q. q), (late_entry, \<lambda>_ q. q), (\<lambda>q. q, \<lambda>_. late_entry)] example_loop)"
proof -
  have "producers_ok (f, \<lambda>_. g)" if "f \<in> {\<lambda>q. q, late_entry}" "g \<in> {\<lambda>q. q, late_entry}" for f g
    using that by (auto simp: producers_ok_def env_ok_def late_entry_def set_entry_def)
  then have "\<forall>t\<in>set [(\<lambda>q. q, \<lambda>_ q. q), (late_entry, \<lambda>_ q. q), (\<lambda>q. q, \<lambda>_. late_entry)]. producers_ok t" by simp
  from poll_loop_invariant [OF example_driver_ok this example_loop_ok] show ?thesis by (simp only: Let_def)
qed

text \<open>C3: What \<open>done_idx\<close> promises in the copy-engine modes without deferred tile events (a tiled queue has its signal
  buffer; in the deferred mode, which \<open>retire_event\<close> models, it is published after an event on one channel only, and this
  theorem does not speak of it): whenever an iteration of the loop, in a state that satisfies its invariant, moves it, everything read so far has been submitted, it equals the read index, and
  every copy on the copy-engine streams is settled by a synchronisation of the host. Under the documented order all those
  copies have completed.\<close>

theorem done_idx_after_completion:
  assumes "all_succeed drv" "env_ok env" "loop_ok L" "L' = poll_iteration drv env L"
    and "done_idx (p_queue (lp L')) \<noteq> done_idx (p_queue (lp L))" "cuda_order (p_trace (lp L')) before"
  shows "loop_batch L' = [] \<and> done_idx (p_queue (lp L')) = read_idx (p_queue (lp L'))
    \<and> (\<forall>ch i. ce_copy (p_ce (lp L')) (p_trace (lp L')) ch i \<longrightarrow> host_knows (p_trace (lp L')) before i)"
  using poll_iteration_ok(2) [OF assms(1-3)] assms(4-6) settled_host_knows
  unfolding publishes_safely_def all_settled_def by blast

text \<open>A batch that was flushed, with one entry read and nothing more to read.\<close>

definition async_loop :: PollLoop where
  "async_loop = \<lparr>lp = example_poller\<lparr>p_queue := empty_queue\<lparr>read_idx := 1\<rparr>, has_async_dma := True, latest_async_read := 1\<rparr>,
     loop_batch = [], loop_flags = 0, loop_threshold = BATCH_THRESHOLD\<rparr>"

lemma async_loop_ok: "loop_ok async_loop"
  using example_poller_ok by (simp add: loop_ok_def async_loop_def BATCH_THRESHOLD_def poller_ok_def events_apart_def ce_mode_def)

theorem done_idx_after_completion_witness:
  "loop_batch (poll_iteration example_driver (\<lambda>_ q. q) async_loop) = []
   \<and> done_idx (p_queue (lp (poll_iteration example_driver (\<lambda>_ q. q) async_loop)))
     = read_idx (p_queue (lp (poll_iteration example_driver (\<lambda>_ q. q) async_loop)))"
proof -
  let ?L = "poll_iteration example_driver (\<lambda>_ q. q) async_loop"
  have it: "?L = async_loop\<lparr>lp := finish_async example_driver (lp async_loop)\<rparr>"
    by (simp add: poll_iteration_def idle_work_def async_loop_def poll_entry_def entry_at_def empty_queue_def) (simp add: example_poller_def)
  have ok: "poller_ok (lp async_loop)" "ce_mode (lp async_loop)" using async_loop_ok by (simp_all add: loop_ok_def)
  from it finish_async_ok(5) [OF example_driver_ok ok refl] have "done_idx (p_queue (lp ?L)) = 1" by (simp add: async_loop_def)
  then have "done_idx (p_queue (lp ?L)) \<noteq> done_idx (p_queue (lp async_loop))" by (simp add: async_loop_def empty_queue_def)
  with done_idx_after_completion [OF example_driver_ok _ async_loop_ok refl _ cuda_order_issue, of "\<lambda>_ q. q"]
  show ?thesis by (simp add: env_ok_def)
qed

text \<open>C30: In the copy-engine modes without deferred tile events (a tiled queue has its signal buffer; with deferred events retirement
  also waits for the event queries) the loop quiesces: when the producers are silent, nothing is ready and there is unfinished work, two iterations submit the open batch,
  wait for the copies and publish everything read.\<close>

theorem poll_loop_quiesces:
  assumes "all_succeed drv" "loop_ok L" "poll_entry (p_queue (lp L)) = None" "loop_batch L \<noteq> [] \<or> has_async_dma (lp L)"
  shows "let L' = poll_iteration drv (\<lambda>_ q. q) (poll_iteration drv (\<lambda>_ q. q) L)
    in loop_batch L' = [] \<and> done_idx (p_queue (lp L')) = read_idx (p_queue (lp L')) \<and> all_settled (lp L') \<and> \<not> has_async_dma (lp L')"
  using assms by (rule poll_quiesces)

theorem poll_loop_quiesces_witness:
  "let L' = poll_iteration example_driver (\<lambda>_ q. q) (poll_iteration example_driver (\<lambda>_ q. q) example_loop)
   in loop_batch L' = [] \<and> done_idx (p_queue (lp L')) = read_idx (p_queue (lp L'))"
proof -
  have "poll_entry (p_queue (lp example_loop)) = None"
    using example_queue_empty by (simp add: example_loop_def example_poller_def)
  from poll_loop_quiesces [OF example_driver_ok example_loop_ok this] show ?thesis by (simp add: Let_def example_loop_def)
qed

section \<open>The drain after \<open>stop\<close>\<close>

named_theorems lists_frame \<open>operations that leave the count of completed lists alone\<close>

lemma lists_basic [lists_frame]: "lists_completed (ce_do f p) = lists_completed p" "lists_completed (call c p) = lists_completed p"
  "lists_completed (add_stats a b k p) = lists_completed p" "lists_completed (add_bytes es p) = lists_completed p"
  "lists_completed (gather_into es s d p) = lists_completed p" "lists_completed (set_async v p) = lists_completed p"
  "lists_completed (set_done v p) = lists_completed p"
  by (simp_all add: ce_do_def call_def add_stats_def add_bytes_def gather_into_def set_async_def set_done_def split: prod.split)

lemma lists_staging [lists_frame]: "lists_completed (staging_wait p) = lists_completed p" "lists_completed (staging_submit drv rs p) = lists_completed p"
  by (simp_all add: staging_wait_def staging_submit_def Let_def lists_frame)

lemma lists_process_batch [lists_frame]: "lists_completed (snd (process_batch drv ds p)) = lists_completed p"
  "lists_completed (process_batch_no_ce ds p) = lists_completed p"
  by (simp_all add: process_batch_def generic_path_def process_batch_no_ce_def Let_def lists_frame split: prod.split)

lemma lists_fold: "(\<And>x p. lists_completed (f x p) = lists_completed p) \<Longrightarrow> lists_completed (fold f xs p) = lists_completed p"
  by (induction xs arbitrary: p) simp_all

lemma lists_device [lists_frame]: "lists_completed (device_signals d s ids p) = lists_completed p"
proof -
  have "lists_completed (fold (\<lambda>t. if t < MAX_TILES then call (f t) else (\<lambda>p. p)) ts q) = lists_completed q" for f ts q
    by (rule lists_fold) (simp add: lists_frame)
  then show ?thesis by (simp add: device_signals_def Let_def lists_frame)
qed

lemma lists_tiles [lists_frame]: "lists_completed (tile_signals drv ids p) = lists_completed p" "lists_completed (submit_groups drv gs p) = lists_completed p"
  "lists_completed (update_progress ids ns p) = lists_completed p"
proof -
  show "lists_completed (tile_signals drv ids p) = lists_completed p"
    by (simp add: tile_signals_def host_signals_def Let_def lists_frame split: option.split)
  show "lists_completed (submit_groups drv gs p) = lists_completed p" unfolding submit_groups_def by (rule lists_fold) (rule lists_basic)
  show "lists_completed (update_progress ids ns p) = lists_completed p"
    unfolding update_progress_def by (auto simp: tile_step_def Let_def intro!: lists_fold)
qed

lemma lists_tiled [lists_frame]: "lists_completed (process_batch_tiled drv ds p) = lists_completed p"
  by (simp add: process_batch_tiled_def Let_def lists_frame split: prod.split)

lemma lists_marks [lists_frame]: "lists_completed (mark_tiles ds p) = lists_completed p" "lists_completed (defer_tiles drv ds r p) = lists_completed p"
proof -
  show "lists_completed (mark_tiles ds p) = lists_completed p"
    unfolding mark_tiles_def by (rule lists_fold) (simp add: mark_one_def write_tile_signal_def Let_def lists_frame split: option.split)
  show "lists_completed (defer_tiles drv ds r p) = lists_completed p"
    by (simp add: defer_tiles_def Let_def lists_frame split: prod.split)
qed

lemma lists_flush_no_flags: "lists_completed (flush_batch drv ds 0 p) = lists_completed p"
proof -
  obtain b q where pb: "process_batch drv ds p = (b, q)" by (cases "process_batch drv ds p") auto
  then have "lists_completed q = lists_completed p" using lists_process_batch(1) [of drv ds p] by simp
  then show ?thesis by (simp add: flush_batch_def has_flag_def Let_def lists_frame pb)
qed

text \<open>The drain after \<open>stop\<close> does not collect the flags of the entries it takes, so no list is ever completed by it, however many
  whole lists with their last-in-tile marker were still in the queue.\<close>

theorem drain_completes_no_list:
  assumes "loop_batch L = []" "loop_flags L = 0"
  shows "lists_completed (lp (flush drv (drain drv n L))) = lists_completed (lp L)"
proof -
  have "lists_completed (lp (flush drv L)) = lists_completed (lp L)" if "loop_flags L = 0" for L
    using that by (simp add: flush_def lists_flush_no_flags)
  moreover have "loop_flags (drain drv n L) = 0 \<and> lists_completed (lp (drain drv n L)) = lists_completed (lp L)"
    using assms(2)
  proof (induction drv n L rule: drain.induct)
    case (2 drv n L)
    show ?case
    proof (cases "poll_entry (p_queue (lp L))")
      case (Some x)
      then obtain d q where e: "poll_entry (p_queue (lp L)) = Some (d, q)" by (cases x) auto
      let ?L1 = "L\<lparr>lp := (lp L)\<lparr>p_queue := q\<rparr>, loop_batch := loop_batch L @ [d]\<rparr>"
      let ?L2 = "if MAX_BATCH_SIZE \<le> length (loop_batch ?L1) then flush drv ?L1 else ?L1"
      have "loop_flags ?L2 = 0" "lists_completed (lp ?L2) = lists_completed (lp L)"
        using "2.prems" by (auto simp: flush_def lists_flush_no_flags)
      with "2.IH" [OF e refl refl] show ?thesis by (simp add: e Let_def)
    qed (use "2.prems" in simp)
  qed simp
  ultimately show ?thesis by simp
qed

definition list_waiting :: PollLoop where
  "list_waiting = \<lparr>lp = example_list_poller\<lparr>p_queue := set_entry 0 (\<lambda>_. example_descriptor\<lparr>flags := FLAG_LAST_IN_TILE, sequence := 1\<rparr>) empty_queue\<rparr>,
     loop_batch = [], loop_flags = 0, loop_threshold = BATCH_THRESHOLD\<rparr>"

theorem drain_completes_no_list_witness:
  "poll_entry (p_queue (lp list_waiting)) \<noteq> None \<and> lists_completed (lp (flush example_driver (drain example_driver 16385 list_waiting))) = 0"
proof -
  have "poll_entry (p_queue (lp list_waiting)) \<noteq> None"
    by (simp add: list_waiting_def poll_entry_def entry_at_def set_entry_def empty_queue_def)
  moreover have "lists_completed (lp list_waiting) = 0" by (simp add: list_waiting_def)
  ultimately show ?thesis using drain_completes_no_list [of list_waiting example_driver 16385] by (simp add: list_waiting_def)
qed

end
