(* ===== verification/Host_Memory.thy ===== *)
theory Host_Memory
  imports Prelude
begin

text \<open>
  Allocation calls to the operating system and the CUDA runtime. Neither is part of the repository: a parameter
  \<open>drv\<close> answers each call (success and a pointer) from the log of the calls so far, so it ranges over all outcomes.
  \<open>held\<close> accounts for what the log has acquired and not released; a release of something that is not held, as
  \<open>munmap\<close> of memory that \<open>cudaMallocHost\<close> gave, spoils the log for good.
\<close>

section \<open>Calls\<close>

datatype host_call =
    Mmap u64
  | Munmap u64 u64
  | Mbind u64 u64
  | Madvise u64 u64
  | HostRegister u64 u64
  | HostUnregister u64
  | MallocHost u64
  | FreeHost u64
  | HostAlloc u64
  | Malloc u64
  | Free u64
  | Memset u64 u64
  | DeviceGetAttribute
  | DeviceSynchronize

type_synonym host_log = "(host_call \<times> bool \<times> u64) list"
type_synonym host_driver = "host_log \<Rightarrow> host_call \<Rightarrow> bool \<times> u64"

definition host :: "host_driver \<Rightarrow> host_call \<Rightarrow> host_log \<Rightarrow> bool \<times> u64 \<times> host_log" where
  "host drv c lg = (fst (drv lg c), snd (drv lg c), lg @ [(c, fst (drv lg c), snd (drv lg c))])"

definition host_do :: "host_driver \<Rightarrow> host_call \<Rightarrow> host_log \<Rightarrow> host_log" where
  "host_do drv c lg = snd (snd (host drv c lg))"

text \<open>Documented: a successful allocation does not return the null pointer.\<close>

definition nonnull :: "host_driver \<Rightarrow> bool" where
  "nonnull drv \<longleftrightarrow> (\<forall>lg c. fst (drv lg c) \<longrightarrow> (case c of Mmap _ \<Rightarrow> True | MallocHost _ \<Rightarrow> True | HostAlloc _ \<Rightarrow> True | Malloc _ \<Rightarrow> True | _ \<Rightarrow> False)
     \<longrightarrow> snd (drv lg c) \<noteq> 0)"

lemma nonnullD:
  assumes "nonnull drv"
  shows "drv lg (Mmap n) = (True, p) \<Longrightarrow> p \<noteq> 0" "drv lg (MallocHost n) = (True, p) \<Longrightarrow> p \<noteq> 0"
    "drv lg (HostAlloc n) = (True, p) \<Longrightarrow> p \<noteq> 0" "drv lg (Malloc n) = (True, p) \<Longrightarrow> p \<noteq> 0"
  using assms [unfolded nonnull_def, rule_format, of lg "Mmap n"] assms [unfolded nonnull_def, rule_format, of lg "MallocHost n"]
    assms [unfolded nonnull_def, rule_format, of lg "HostAlloc n"] assms [unfolded nonnull_def, rule_format, of lg "Malloc n"]
  by simp_all

section \<open>Resources\<close>

datatype resource = Mapping u64 | Registration u64 | Pinned u64 | DeviceMem u64

fun acquired :: "host_call \<times> bool \<times> u64 \<Rightarrow> resource multiset" where
  "acquired (Mmap n, True, p) = {#Mapping p#}"
| "acquired (HostRegister p n, True, _) = {#Registration p#}"
| "acquired (MallocHost n, True, p) = {#Pinned p#}"
| "acquired (HostAlloc n, True, p) = {#Pinned p#}"
| "acquired (Malloc n, True, p) = {#DeviceMem p#}"
| "acquired _ = {#}"

fun released :: "host_call \<Rightarrow> resource multiset" where
  "released (Munmap p n) = {#Mapping p#}"
| "released (HostUnregister p) = {#Registration p#}"
| "released (FreeHost p) = {#Pinned p#}"
| "released (Free p) = {#DeviceMem p#}"
| "released _ = {#}"

text \<open>What is held after a log; \<open>None\<close> once something was released that was not held.\<close>

fun account :: "host_call \<times> bool \<times> u64 \<Rightarrow> resource multiset \<Rightarrow> resource multiset option" where
  "account (c, r) h = (if released c \<subseteq># h then Some (h - released c + acquired (c, r)) else None)"

definition held :: "host_log \<Rightarrow> resource multiset option" where
  "held lg = fold (\<lambda>e h. Option.bind h (account e)) lg (Some {#})"

lemma held_Nil [simp]: "held [] = Some {#}"
  by (simp add: held_def)

lemma held_host: "held (host_do drv c lg) = Option.bind (held lg) (account (c, drv lg c))"
  by (simp add: held_def host_do_def host_def)

lemma host_eq: "host drv c lg = (fst (drv lg c), snd (drv lg c), host_do drv c lg)"
  by (simp add: host_do_def host_def)

section \<open>One staging buffer\<close>

definition MB2 :: u64 where "MB2 = 2 * 1024 * 1024"

definition huge_round :: "u64 \<Rightarrow> u64" where
  "huge_round n = (n + (MB2 - 1)) AND NOT (MB2 - 1)"

text \<open>
  The buffer loops of \<open>StagingPool::init\<close> and \<open>CpuPollingThread::init_copy_engine\<close>: huge pages registered with CUDA, or pinned
  memory. The result is the pointer and whether it is a huge-page mapping.
\<close>

definition alloc_staging :: "host_driver \<Rightarrow> u64 \<Rightarrow> u64 \<Rightarrow> host_log \<Rightarrow> (u64 \<times> bool) option \<times> host_log" where
  "alloc_staging drv hp_size buf_size lg =
     (let fallback = (\<lambda>lg. let (ok, p, lg) = host drv (MallocHost buf_size) lg
            in if ok then (Some (p, False), host_do drv (Mbind p buf_size) (host_do drv (Madvise p buf_size) lg)) else (None, lg));
          (ok, p, lg) = host drv (Mmap hp_size) lg
      in if ok then
           (let lg = host_do drv (Mbind p hp_size) lg; (reg, _, lg) = host drv (HostRegister p hp_size) lg
            in if reg then (Some (p, True), lg) else fallback (host_do drv (Munmap p hp_size) lg))
         else fallback lg)"

definition free_staging :: "host_driver \<Rightarrow> u64 \<Rightarrow> u64 \<Rightarrow> bool \<Rightarrow> host_log \<Rightarrow> host_log" where
  "free_staging drv p hp_size huge lg =
     (if huge then host_do drv (Munmap p hp_size) (host_do drv (HostUnregister p) lg) else host_do drv (FreeHost p) lg)"

definition buffer_of :: "u64 \<Rightarrow> bool \<Rightarrow> resource multiset" where
  "buffer_of p huge = (if huge then {#Mapping p, Registration p#} else {#Pinned p#})"

lemma alloc_staging_held:
  assumes "alloc_staging drv hp sz lg = (r, lg')" "held lg = Some h"
  shows "held lg' = Some (h + (case r of Some (p, huge) \<Rightarrow> buffer_of p huge | None \<Rightarrow> {#}))"
proof -
  have acc: "held (host_do drv c l) = Some (x + acquired (c, drv l c))" if "released c = {#}" "held l = Some x" for c l x
    using that by (cases "drv l c") (simp add: held_host)
  have unmap: "held (host_do drv (Munmap p n) l) = Some x" if "held l = Some (x + {#Mapping p#})" for p n l x
    using that by (cases "drv l (Munmap p n)") (simp add: held_host)
  have fb: "held (host_do drv (Mbind p sz) (host_do drv (Madvise p sz) (host_do drv (MallocHost sz) l))) = Some (x + {#Pinned p#})"
    if "held l = Some x" "drv l (MallocHost sz) = (True, p)" for l x p
    using that by (simp add: acc)
  have fb0: "held (host_do drv (MallocHost sz) l) = Some x" if "held l = Some x" "\<not> fst (drv l (MallocHost sz))" for l x
    using that by (cases "drv l (MallocHost sz)") (simp add: acc)
  obtain ok p where m: "drv lg (Mmap hp) = (ok, p)" by fastforce
  let ?l1 = "host_do drv (Mmap hp) lg"
  let ?fb = "\<lambda>lg. let (ok, p, lg) = host drv (MallocHost sz) lg
            in if ok then (Some (p, False), host_do drv (Mbind p sz) (host_do drv (Madvise p sz) lg)) else (None, lg)"
  have fbh: "held lg' = Some (h + (case r of Some (p, huge) \<Rightarrow> buffer_of p huge | None \<Rightarrow> {#}))"
    if "?fb l = (r, lg')" "held l = Some h" for l
    using that fb [OF that(2)] fb0 [OF that(2)] by (cases "drv l (MallocHost sz)") (auto simp: host_eq buffer_of_def split: if_splits)
  show ?thesis
  proof (cases ok)
    case False
    then have "held ?l1 = Some h" using acc [of "Mmap hp" lg h] assms(2) m by simp
    with fbh [of ?l1] assms(1) False m show ?thesis by (simp add: alloc_staging_def host_eq Let_def)
  next
    case True
    let ?l2 = "host_do drv (Mbind p hp) ?l1"
    have h2: "held ?l2 = Some (h + {#Mapping p#})" using acc [of "Mmap hp" lg h] assms(2) m True acc [of "Mbind p hp" ?l1] by simp
    let ?l3 = "host_do drv (HostRegister p hp) ?l2"
    obtain reg q where rg: "drv ?l2 (HostRegister p hp) = (reg, q)" by fastforce
    have h3: "held ?l3 = Some (h + {#Mapping p#} + acquired (HostRegister p hp, reg, q))" using acc [OF _ h2, of "HostRegister p hp"] rg by simp
    show ?thesis
    proof (cases reg)
      case True
      with assms(1) m \<open>ok\<close> rg h3 show ?thesis by (auto simp: alloc_staging_def host_eq Let_def buffer_of_def)
    next
      case False
      then have "held (host_do drv (Munmap p hp) ?l3) = Some h" using h3 by (intro unmap) simp
      with fbh [of "host_do drv (Munmap p hp) ?l3"] assms(1) m \<open>ok\<close> False rg show ?thesis
        by (simp add: alloc_staging_def host_eq Let_def)
    qed
  qed
qed

lemma alloc_staging_nonnull:
  assumes "alloc_staging drv hp sz lg = (Some (p, huge), lg')" "nonnull drv"
  shows "p \<noteq> 0"
proof -
  have "snd (drv l (MallocHost n)) \<noteq> 0" if "fst (drv l (MallocHost n))" for l n using nonnullD(2) [OF assms(2)] that by (metis prod.collapse)
  moreover have "snd (drv l (Mmap n)) \<noteq> 0" if "fst (drv l (Mmap n))" for l n using nonnullD(1) [OF assms(2)] that by (metis prod.collapse)
  ultimately show ?thesis using assms(1) by (auto simp: alloc_staging_def host_eq Let_def split: if_splits)
qed

lemma free_staging_held:
  assumes "held lg = Some (h + buffer_of p huge)"
  shows "held (free_staging drv p hp huge lg) = Some h"
proof -
  have "acquired (Munmap a n, r) = {#}" "acquired (HostUnregister a, r) = {#}" "acquired (FreeHost a, r) = {#}" for a n r by (cases r; simp)+
  then show ?thesis using assms by (simp add: free_staging_def held_host buffer_of_def)
qed

end
