(* ===== verification/Staging_Pool.thy ===== *)
theory Staging_Pool
  imports Host_Memory Transition_Systems
begin

text \<open>
  \<open>include/gfd/staging_pool.h\<close>: the process-wide pool of staging buffers. Each operation runs under the pool's mutex, so
  it is one function on the pool. Users acquire and release sets in any order; \<open>pool_step\<close> interleaves them.
\<close>

section \<open>Data\<close>

definition MAX_BUFFER_SETS :: int where "MAX_BUFFER_SETS = 8"
definition BUFS_PER_SET :: nat where "BUFS_PER_SET = 5"

record BufferSet =
  set_bufs :: "nat \<Rightarrow> u64"
  set_buf_size :: u64
  set_hp_size :: u64
  set_hugepage :: bool
  set_in_use :: bool
  set_numa_node :: int

record StagingPool =
  pool_initialized :: bool
  num_sets :: int
  pool_buf_size :: u64
  buffer_sets :: "nat \<Rightarrow> BufferSet"

definition new_pool :: StagingPool where
  "new_pool = \<lparr>pool_initialized = False, num_sets = 0, pool_buf_size = 0,
     buffer_sets = \<lambda>_. \<lparr>set_bufs = \<lambda>_. 0, set_buf_size = 0, set_hp_size = 0, set_hugepage = False, set_in_use = False, set_numa_node = 0\<rparr>\<rparr>"

section \<open>Operations\<close>

text \<open>The loop over the buffers of one set leaves at the first one that cannot be had.\<close>

fun fill_set :: "host_driver \<Rightarrow> u64 \<Rightarrow> u64 \<Rightarrow> nat list \<Rightarrow> BufferSet \<times> host_log \<Rightarrow> bool \<times> BufferSet \<times> host_log" where
  "fill_set sys hp_size bsz [] (s, lg) = (True, s, lg)"
| "fill_set sys hp_size bsz (b # bs) (s, lg) =
     (case alloc_staging sys hp_size bsz lg of
        (Some (p, huge), lg) \<Rightarrow> fill_set sys hp_size bsz bs (s\<lparr>set_bufs := (set_bufs s)(b := p), set_hugepage := huge\<rparr>, lg)
      | (None, lg) \<Rightarrow> (False, s, lg))"

definition init_set :: "host_driver \<Rightarrow> u64 \<Rightarrow> int \<Rightarrow> BufferSet \<times> host_log \<Rightarrow> bool \<times> BufferSet \<times> host_log" where
  "init_set sys bsz numa = (\<lambda>(s, lg).
     fill_set sys (huge_round bsz) bsz [0..<BUFS_PER_SET]
       (s\<lparr>set_buf_size := bsz, set_hp_size := huge_round bsz, set_in_use := False, set_numa_node := numa\<rparr>, lg))"

fun init_sets :: "host_driver \<Rightarrow> u64 \<Rightarrow> int \<Rightarrow> nat list \<Rightarrow> nat \<times> (nat \<Rightarrow> BufferSet) \<times> host_log \<Rightarrow> nat \<times> (nat \<Rightarrow> BufferSet) \<times> host_log" where
  "init_sets sys bsz numa [] acc = acc"
| "init_sets sys bsz numa (k # ks) (done_sets, ss, lg) =
     (let (set_ok, s, lg) = init_set sys bsz numa (ss k, lg)
      in init_sets sys bsz numa ks (if set_ok then done_sets + 1 else done_sets, ss(k := s), lg))"

definition pool_init :: "host_driver \<Rightarrow> int \<Rightarrow> u64 \<Rightarrow> int \<Rightarrow> StagingPool \<times> host_log \<Rightarrow> bool \<times> StagingPool \<times> host_log" where
  "pool_init sys num_gpus bsz numa = (\<lambda>(pool, lg).
     if pool_initialized pool then (True, pool, lg)
     else let n = (if num_gpus > MAX_BUFFER_SETS then MAX_BUFFER_SETS else num_gpus);
              (done_sets, ss, lg) = init_sets sys bsz numa [0..<nat n] (0, buffer_sets pool, lg)
          in (0 < done_sets, \<lparr>pool_initialized = True, num_sets = n, pool_buf_size = bsz, buffer_sets = ss\<rparr>, lg))"

definition acquire_buffers :: "u64 \<Rightarrow> StagingPool \<Rightarrow> int \<times> StagingPool" where
  "acquire_buffers required_size pool =
     (if pool_initialized pool then
        (case List.find (\<lambda>k. \<not> set_in_use (buffer_sets pool k) \<and> required_size \<le> set_buf_size (buffer_sets pool k)) [0..<nat (num_sets pool)] of
           Some k \<Rightarrow> (int k, pool\<lparr>buffer_sets := (buffer_sets pool)(k := (buffer_sets pool k)\<lparr>set_in_use := True\<rparr>)\<rparr>)
         | None \<Rightarrow> (-1, pool))
      else (-1, pool))"

text \<open>\<open>None\<close> is the early return, which writes none of the outputs.\<close>

definition get_buffers :: "int \<Rightarrow> StagingPool \<Rightarrow> ((nat \<Rightarrow> u64) \<times> u64 \<times> bool) option" where
  "get_buffers k pool =
     (if k < 0 \<or> num_sets pool \<le> k then None
      else let s = buffer_sets pool (nat k) in Some (set_bufs s, set_buf_size s, set_hugepage s))"

definition release_buffers :: "int \<Rightarrow> StagingPool \<Rightarrow> StagingPool" where
  "release_buffers k pool =
     (if 0 \<le> k \<and> k < num_sets pool
      then pool\<lparr>buffer_sets := (buffer_sets pool)(nat k := (buffer_sets pool (nat k))\<lparr>set_in_use := False\<rparr>)\<rparr> else pool)"

fun free_set :: "host_driver \<Rightarrow> nat list \<Rightarrow> BufferSet \<times> host_log \<Rightarrow> BufferSet \<times> host_log" where
  "free_set sys [] acc = acc"
| "free_set sys (b # bs) (s, lg) =
     (if set_bufs s b \<noteq> 0
      then free_set sys bs (s\<lparr>set_bufs := (set_bufs s)(b := 0)\<rparr>, free_staging sys (set_bufs s b) (set_hp_size s) (set_hugepage s) lg)
      else free_set sys bs (s, lg))"

fun free_sets :: "host_driver \<Rightarrow> nat list \<Rightarrow> (nat \<Rightarrow> BufferSet) \<times> host_log \<Rightarrow> (nat \<Rightarrow> BufferSet) \<times> host_log" where
  "free_sets sys [] acc = acc"
| "free_sets sys (k # ks) (ss, lg) = (let (s, lg) = free_set sys [0..<BUFS_PER_SET] (ss k, lg) in free_sets sys ks (ss(k := s), lg))"

definition pool_shutdown :: "host_driver \<Rightarrow> StagingPool \<times> host_log \<Rightarrow> StagingPool \<times> host_log" where
  "pool_shutdown sys = (\<lambda>(pool, lg).
     if pool_initialized pool then
       (let (ss, lg) = free_sets sys [0..<nat (num_sets pool)] (buffer_sets pool, lg)
        in (pool\<lparr>buffer_sets := ss, pool_initialized := False\<rparr>, lg))
     else (pool, lg))"

section \<open>Acquiring\<close>

lemma acquire_buffers_found:
  assumes "acquire_buffers sz pool = (k, pool')" "0 \<le> k"
  shows "k < num_sets pool" "pool_initialized pool" "\<not> set_in_use (buffer_sets pool (nat k))" "sz \<le> set_buf_size (buffer_sets pool (nat k))"
    "pool' = pool\<lparr>buffer_sets := (buffer_sets pool)(nat k := (buffer_sets pool (nat k))\<lparr>set_in_use := True\<rparr>)\<rparr>"
  using assms by (auto simp: acquire_buffers_def find_Some_iff split: if_splits option.splits)

lemma acquire_buffers_none:
  assumes "acquire_buffers sz pool = (k, pool')" "k < 0"
  shows "k = -1" "pool' = pool"
    "pool_initialized pool \<Longrightarrow> int j < num_sets pool \<Longrightarrow> \<not> set_in_use (buffer_sets pool j) \<Longrightarrow> set_buf_size (buffer_sets pool j) < sz"
proof -
  show "k = -1" "pool' = pool" using assms by (auto simp: acquire_buffers_def split: if_splits option.splits)
  assume a: "pool_initialized pool" "int j < num_sets pool" "\<not> set_in_use (buffer_sets pool j)"
  then have "List.find (\<lambda>k. \<not> set_in_use (buffer_sets pool k) \<and> sz \<le> set_buf_size (buffer_sets pool k)) [0..<nat (num_sets pool)] = None"
    using assms by (auto simp: acquire_buffers_def split: if_splits option.splits)
  then show "set_buf_size (buffer_sets pool j) < sz" using a by (auto simp: find_None_iff zless_nat_eq_int_zless not_le)
qed

section \<open>Several users\<close>

text \<open>\<open>owned\<close> lists the sets handed out and not yet given back; a user gives back only what it holds.\<close>

record pool_state =
  the_pool :: StagingPool
  owned :: "int list"

inductive pool_step :: "pool_state \<Rightarrow> pool_state \<Rightarrow> bool" where
  take_set: "acquire_buffers sz (the_pool s) = (k, pool') \<Longrightarrow>
     pool_step s (s\<lparr>the_pool := pool', owned := (if 0 \<le> k then k # owned s else owned s)\<rparr>)"
| give_back: "k \<in> set (owned s) \<Longrightarrow>
     pool_step s (s\<lparr>the_pool := release_buffers k (the_pool s), owned := remove1 k (owned s)\<rparr>)"

definition pool_inv :: "pool_state \<Rightarrow> bool" where
  "pool_inv s \<longleftrightarrow> distinct (owned s)
     \<and> (\<forall>k. k \<in> set (owned s) \<longleftrightarrow> 0 \<le> k \<and> k < num_sets (the_pool s) \<and> set_in_use (buffer_sets (the_pool s) (nat k)))"

lemma pool_inv_step:
  assumes "pool_inv s" "pool_step s s'"
  shows "pool_inv s'"
  using assms(2)
proof cases
  case (take_set sz k pool')
  note inv = assms(1) [unfolded pool_inv_def]
  show ?thesis
  proof (cases "0 \<le> k")
    case True
    note f = acquire_buffers_found [OF take_set(2) True]
    have "k \<notin> set (owned s)" using inv f(3) by auto
    then show ?thesis using inv f(1) True unfolding take_set(1) f(5) pool_inv_def by (auto simp: nat_eq_iff)
  next
    case False
    then show ?thesis using inv acquire_buffers_none(2) [OF take_set(2)] by (simp add: take_set(1) pool_inv_def)
  qed
next
  case (give_back k)
  note inv = assms(1) [unfolded pool_inv_def]
  have k: "0 \<le> k" "k < num_sets (the_pool s)" using inv give_back(2) by auto
  have other: "nat j = nat k \<longleftrightarrow> j = k" if "0 \<le> j" for j using that k(1) by (simp add: eq_nat_nat_iff)
  have "j \<in> set (remove1 k (owned s)) \<longleftrightarrow> 0 \<le> j \<and> j < num_sets (the_pool s')
      \<and> set_in_use (buffer_sets (the_pool s') (nat j))" for j
  proof (cases "0 \<le> j \<and> j \<noteq> k")
    case True
    then show ?thesis using inv k other [of j] by (simp add: give_back(1) release_buffers_def)
  next
    case False
    then show ?thesis using inv k by (auto simp: give_back(1) release_buffers_def)
  qed
  moreover have "distinct (remove1 k (owned s))" using inv by simp
  moreover have "owned s' = remove1 k (owned s)" by (simp add: give_back(1))
  ultimately show ?thesis unfolding pool_inv_def by metis
qed

interpretation pool: step_invariant pool_step
  "\<lambda>s. owned s = [] \<and> (\<forall>k. 0 \<le> k \<and> k < num_sets (the_pool s) \<longrightarrow> \<not> set_in_use (buffer_sets (the_pool s) (nat k)))" pool_inv
proof unfold_locales
  show "pool_inv s" if "owned s = [] \<and> (\<forall>k. 0 \<le> k \<and> k < num_sets (the_pool s) \<longrightarrow> \<not> set_in_use (buffer_sets (the_pool s) (nat k)))" for s
    using that by (auto simp: pool_inv_def)
qed (rule pool_inv_step)

section \<open>Accounting for the buffers\<close>

text \<open>What the first buffers of a set, and the first sets, stand for.\<close>

definition set_resources :: "nat list \<Rightarrow> BufferSet \<Rightarrow> resource multiset" where
  "set_resources bs s = \<Sum>\<^sub># (image_mset (\<lambda>b. if set_bufs s b = 0 then {#} else buffer_of (set_bufs s b) (set_hugepage s)) (mset bs))"

lemma set_resources_simps [simp]:
  "set_resources [] s = {#}"
  "set_resources (b # bs) s = (if set_bufs s b = 0 then {#} else buffer_of (set_bufs s b) (set_hugepage s)) + set_resources bs s"
  by (simp_all add: set_resources_def)

lemma set_resources_cong:
  "(\<And>b. b \<in> set bs \<Longrightarrow> set_bufs s b = set_bufs t b) \<Longrightarrow> set_hugepage s = set_hugepage t \<Longrightarrow> set_resources bs s = set_resources bs t"
  by (induction bs) simp_all

lemma set_resources_empty: "(\<And>b. b \<in> set bs \<Longrightarrow> set_bufs s b = 0) \<Longrightarrow> set_resources bs s = {#}"
  by (induction bs) simp_all

text \<open>The flag \<open>hugepage\<close> is one per set: the accounting needs a system that answers all of a set's requests for huge pages alike.\<close>

definition uniform_pages :: "host_driver \<Rightarrow> bool \<Rightarrow> bool" where
  "uniform_pages sys huge \<longleftrightarrow> (\<forall>hp bsz lg p h lg'. alloc_staging sys hp bsz lg = (Some (p, h), lg') \<longrightarrow> h = huge)"

lemma fill_set_resources:
  assumes "fill_set sys hp bsz bs (s, lg) = (ok, s', lg')" "held lg = Some h" "nonnull sys" "uniform_pages sys huge" "distinct bs"
    and "\<forall>b\<in>set bs. set_bufs s b = 0" "set_hugepage s = huge \<or> (\<forall>b. set_bufs s b = 0)"
  shows "held lg' = Some (h + set_resources bs s') \<and> set_buf_size s' = set_buf_size s \<and> set_in_use s' = set_in_use s
    \<and> (\<forall>b. b \<notin> set bs \<longrightarrow> set_bufs s' b = set_bufs s b) \<and> (ok \<longleftrightarrow> (\<forall>b\<in>set bs. set_bufs s' b \<noteq> 0))
    \<and> (set_hugepage s' = huge \<or> s' = s)"
  using assms
proof (induction bs arbitrary: s lg h)
  case (Cons b bs)
  obtain r l1 where a: "alloc_staging sys hp bsz lg = (r, l1)" by fastforce
  note held1 = alloc_staging_held [OF a Cons.prems(2)]
  show ?case
  proof (cases r)
    case None
    then have "s' = s" "\<not> ok" "lg' = l1" using Cons.prems(1) a by simp_all
    moreover have "set_resources (b # bs) s = {#}" using Cons.prems(6) by (intro set_resources_empty) blast
    moreover have "set_bufs s b = 0" using Cons.prems(6) by simp
    ultimately show ?thesis using held1 None by simp
  next
    case (Some ph)
    obtain p where ph: "ph = (p, huge)" using a Cons.prems(4) Some unfolding uniform_pages_def by (cases ph) blast
    have p: "p \<noteq> 0" using a Some ph alloc_staging_nonnull Cons.prems(3) by blast
    let ?t = "s\<lparr>set_bufs := (set_bufs s)(b := p), set_hugepage := huge\<rparr>"
    have fill: "fill_set sys hp bsz bs (?t, l1) = (ok, s', lg')" using Cons.prems(1) a Some ph by simp
    have ih: "held lg' = Some (h + buffer_of p huge + set_resources bs s') \<and> set_buf_size s' = set_buf_size ?t \<and> set_in_use s' = set_in_use ?t
      \<and> (\<forall>c. c \<notin> set bs \<longrightarrow> set_bufs s' c = set_bufs ?t c) \<and> (ok \<longleftrightarrow> (\<forall>c\<in>set bs. set_bufs s' c \<noteq> 0))
      \<and> (set_hugepage s' = huge \<or> s' = ?t)"
      using Cons.prems(3-6) held1 Some ph by (intro Cons.IH [OF fill]) auto
    then have b: "set_bufs s' b = p" "set_hugepage s' = huge" using Cons.prems(5) by auto
    then show ?thesis using ih p by (auto simp: ac_simps)
  qed
qed simp

lemma free_set_resources:
  assumes "free_set sys bs (s, lg) = (s', lg')" "held lg = Some (h + set_resources bs s)" "distinct bs"
  shows "held lg' = Some h \<and> (\<forall>b\<in>set bs. set_bufs s' b = 0)
    \<and> (\<forall>b. b \<notin> set bs \<longrightarrow> set_bufs s' b = set_bufs s b) \<and> set_hugepage s' = set_hugepage s"
  using assms
proof (induction bs arbitrary: s lg)
  case (Cons b bs)
  show ?case
  proof (cases "set_bufs s b = 0")
    case True
    then have "free_set sys bs (s, lg) = (s', lg')" "held lg = Some (h + set_resources bs s)" "distinct bs" using Cons.prems by simp_all
    from Cons.IH [OF this] True Cons.prems(3) show ?thesis by auto
  next
    case False
    let ?t = "s\<lparr>set_bufs := (set_bufs s)(b := 0)\<rparr>" and ?l = "free_staging sys (set_bufs s b) (set_hp_size s) (set_hugepage s) lg"
    have "set_resources bs ?t = set_resources bs s" using Cons.prems(3) by (intro set_resources_cong) auto
    moreover have "held lg = Some ((h + set_resources bs s) + buffer_of (set_bufs s b) (set_hugepage s))"
      using Cons.prems(2) False by (simp add: ac_simps)
    ultimately have "held ?l = Some (h + set_resources bs ?t)" using free_staging_held by metis
    moreover have "free_set sys bs (?t, ?l) = (s', lg')" using Cons.prems(1) False by simp
    ultimately show ?thesis using Cons.IH [of ?t ?l] Cons.prems(3) by auto
  qed
qed simp

definition pool_resources :: "nat list \<Rightarrow> (nat \<Rightarrow> BufferSet) \<Rightarrow> resource multiset" where
  "pool_resources ks ss = \<Sum>\<^sub># (image_mset (\<lambda>k. set_resources [0..<BUFS_PER_SET] (ss k)) (mset ks))"

lemma pool_resources_simps [simp]:
  "pool_resources [] ss = {#}" "pool_resources (k # ks) ss = set_resources [0..<BUFS_PER_SET] (ss k) + pool_resources ks ss"
  by (simp_all add: pool_resources_def)

lemma pool_resources_cong: "(\<And>k. k \<in> set ks \<Longrightarrow> ss k = ts k) \<Longrightarrow> pool_resources ks ss = pool_resources ks ts"
  by (induction ks) simp_all

definition blank :: "BufferSet \<Rightarrow> bool" where
  "blank s \<longleftrightarrow> (\<forall>b. set_bufs s b = 0)"

text \<open>A set that counts has all its buffers.\<close>

definition whole :: "u64 \<Rightarrow> BufferSet \<Rightarrow> bool" where
  "whole bsz s \<longleftrightarrow> (\<forall>b<BUFS_PER_SET. set_bufs s b \<noteq> 0) \<and> set_buf_size s = bsz \<and> \<not> set_in_use s"

lemma init_sets_resources:
  assumes "init_sets sys bsz numa ks (n, ss, lg) = (n', ss', lg')" "held lg = Some h" "nonnull sys" "uniform_pages sys huge" "distinct ks"
    and "\<forall>k\<in>set ks. blank (ss k)"
  shows "held lg' = Some (h + pool_resources ks ss') \<and> (\<forall>k. k \<notin> set ks \<longrightarrow> ss' k = ss k)
    \<and> (\<forall>k\<in>set ks. \<not> set_in_use (ss' k) \<and> set_buf_size (ss' k) = bsz)
    \<and> n' = n + length (filter (\<lambda>k. whole bsz (ss' k)) ks)"
  using assms
proof (induction ks arbitrary: n ss lg h)
  case (Cons k ks)
  obtain ok s l1 where i: "init_set sys bsz numa (ss k, lg) = (ok, s, l1)" by (cases "init_set sys bsz numa (ss k, lg)") auto
  let ?s0 = "(ss k)\<lparr>set_buf_size := bsz, set_hp_size := huge_round bsz, set_in_use := False, set_numa_node := numa\<rparr>"
  have f: "fill_set sys (huge_round bsz) bsz [0..<BUFS_PER_SET] (?s0, lg) = (ok, s, l1)" using i by (simp add: init_set_def)
  have blank: "\<forall>b. set_bufs (ss k) b = 0" using Cons.prems(6) by (simp add: blank_def)
  note r = fill_set_resources [OF f Cons.prems(2,3,4) distinct_upt]
  have r: "held l1 = Some (h + set_resources [0..<BUFS_PER_SET] s)" "set_buf_size s = bsz" "\<not> set_in_use s"
    "ok \<longleftrightarrow> (\<forall>b<BUFS_PER_SET. set_bufs s b \<noteq> 0)"
    using r blank by (simp_all add: Ball_def)
  let ?n = "if ok then n + 1 else n"
  have rest: "init_sets sys bsz numa ks (?n, ss(k := s), l1) = (n', ss', lg')" using Cons.prems(1) i by simp
  have ih: "held lg' = Some (h + set_resources [0..<BUFS_PER_SET] s + pool_resources ks ss')
    \<and> (\<forall>j. j \<notin> set ks \<longrightarrow> ss' j = (ss(k := s)) j) \<and> (\<forall>j\<in>set ks. \<not> set_in_use (ss' j) \<and> set_buf_size (ss' j) = bsz)
    \<and> n' = ?n + length (filter (\<lambda>k. whole bsz (ss' k)) ks)"
    using Cons.prems(3-6) r(1) by (intro Cons.IH [OF rest]) auto
  then have k: "ss' k = s" using Cons.prems(5) by auto
  moreover have "whole bsz s \<longleftrightarrow> ok" using r by (auto simp: whole_def)
  ultimately show ?case using ih r by (auto simp: ac_simps)
qed simp

lemma free_sets_resources:
  assumes "free_sets sys ks (ss, lg) = (ss', lg')" "held lg = Some (h + pool_resources ks ss)" "distinct ks"
  shows "held lg' = Some h \<and> (\<forall>k\<in>set ks. \<forall>b<BUFS_PER_SET. set_bufs (ss' k) b = 0) \<and> (\<forall>k. k \<notin> set ks \<longrightarrow> ss' k = ss k)"
  using assms
proof (induction ks arbitrary: ss lg)
  case (Cons k ks)
  obtain s l1 where f: "free_set sys [0..<BUFS_PER_SET] (ss k, lg) = (s, l1)" by fastforce
  have "held lg = Some ((h + pool_resources ks ss) + set_resources [0..<BUFS_PER_SET] (ss k))" using Cons.prems(2) by (simp add: ac_simps)
  from free_set_resources [OF f this distinct_upt] have r: "held l1 = Some (h + pool_resources ks ss)" "\<forall>b<BUFS_PER_SET. set_bufs s b = 0"
    by (simp_all add: atLeast0LessThan)
  have "pool_resources ks (ss(k := s)) = pool_resources ks ss" using Cons.prems(3) by (intro pool_resources_cong) auto
  with r(1) have h1: "held l1 = Some (h + pool_resources ks (ss(k := s)))" by (simp only:)
  have rest: "free_sets sys ks (ss(k := s), l1) = (ss', lg')" using Cons.prems(1) f by simp
  have "distinct ks" using Cons.prems(3) by simp
  note ih = Cons.IH [OF rest h1 this]
  then have "ss' k = s" using Cons.prems(3) by auto
  with ih r(2) show ?case by auto
qed simp

text \<open>What a pool holds, and the two operations on it: what \<open>init\<close> acquires \<open>shutdown\<close> gives back, with the function that
  belongs to it.\<close>

definition pool_debt :: "StagingPool \<Rightarrow> resource multiset" where
  "pool_debt pool = (if pool_initialized pool then pool_resources [0..<nat (num_sets pool)] (buffer_sets pool) else {#})"

lemma pool_shutdown_held:
  assumes "pool_shutdown sys (pool, lg) = (pool', lg')" "held lg = Some (h + pool_debt pool)"
  shows "held lg' = Some h" "\<not> pool_initialized pool'"
proof -
  obtain ss l where f: "free_sets sys [0..<nat (num_sets pool)] (buffer_sets pool, lg) = (ss, l)" by fastforce
  show "held lg' = Some h"
  proof (cases "pool_initialized pool")
    case True
    then have "held lg = Some (h + pool_resources [0..<nat (num_sets pool)] (buffer_sets pool))" using assms(2) by (simp add: pool_debt_def)
    from free_sets_resources [OF f this distinct_upt] True f assms(1) show ?thesis by (simp add: pool_shutdown_def)
  qed (use assms in \<open>simp add: pool_shutdown_def pool_debt_def\<close>)
  show "\<not> pool_initialized pool'" using assms(1) f by (auto simp: pool_shutdown_def split: if_splits)
qed

definition blank_pool :: "StagingPool \<Rightarrow> bool" where
  "blank_pool pool \<longleftrightarrow> \<not> pool_initialized pool \<and> (\<forall>k. blank (buffer_sets pool k))"

lemma blank_new_pool: "blank_pool new_pool"
  by (simp add: blank_pool_def new_pool_def blank_def)

lemma pool_init_held:
  assumes "pool_init sys n bsz numa (pool, lg) = (ok, p1, lg1)" "held lg = Some h" "nonnull sys" "uniform_pages sys huge" "blank_pool pool"
  shows "held lg1 = Some (h + pool_debt p1)" "pool_initialized p1" "num_sets p1 = min n 8"
    "\<forall>k<nat (min n 8). \<not> set_in_use (buffer_sets p1 k) \<and> set_buf_size (buffer_sets p1 k) = bsz"
    "ok \<longleftrightarrow> (\<exists>k<nat (min n 8). whole bsz (buffer_sets p1 k))"
proof -
  obtain t ss l1 where i: "init_sets sys bsz numa [0..<nat (min n 8)] (0, buffer_sets pool, lg) = (t, ss, l1)"
    by (cases "init_sets sys bsz numa [0..<nat (min n 8)] (0, buffer_sets pool, lg)") auto
  have n: "(if n > MAX_BUFFER_SETS then MAX_BUFFER_SETS else n) = min n 8" by (simp add: MAX_BUFFER_SETS_def)
  have p1: "ok = (0 < t)" "p1 = \<lparr>pool_initialized = True, num_sets = min n 8, pool_buf_size = bsz, buffer_sets = ss\<rparr>" "lg1 = l1"
    using assms(1,5) i unfolding pool_init_def n by (simp_all add: blank_pool_def Let_def)
  have blank: "\<forall>k\<in>set [0..<nat (min n 8)]. blank (buffer_sets pool k)" using assms(5) by (simp add: blank_pool_def)
  note r = init_sets_resources [OF i assms(2,3,4) distinct_upt blank]
  show "held lg1 = Some (h + pool_debt p1)" "pool_initialized p1" "num_sets p1 = min n 8"
    "\<forall>k<nat (min n 8). \<not> set_in_use (buffer_sets p1 k) \<and> set_buf_size (buffer_sets p1 k) = bsz"
    using r by (simp_all add: p1 pool_debt_def)
  show "ok \<longleftrightarrow> (\<exists>k<nat (min n 8). whole bsz (buffer_sets p1 k))" using r by (auto simp: p1(1,2) filter_empty_conv)
qed

end
