(* ===== verification/Poller_Setup.thy ===== *)
theory Poller_Setup
  imports Poller Staging_Pool
begin

text \<open>
  The life of a \<open>CpuPollingThread\<close> (\<open>src/cpu_polling.cpp\<close>): constructor, \<open>init_copy_engine\<close>, \<open>start\<close>,
  \<open>stop\<close> and destructor. The CUDA driver calls go to the trace of the \<open>Poller\<close>, the allocations to the log of
  \<open>Host_Memory\<close>, and the process-wide staging pool is passed along. A thread is the core it is pinned to; the handshake
  of the gather workers is in \<open>Parallel_Gather\<close>, the polling loop in \<open>Cpu_Polling\<close>.
\<close>

section \<open>State\<close>

definition MAX_GATHER_WORKERS :: int where "MAX_GATHER_WORKERS = 15"
definition NUM_GATHER_WORKERS :: nat where "NUM_GATHER_WORKERS = 7"

record PollerObject =
  po :: Poller
  total_cpu_size :: u64
  po_numa_node :: int
  core_offset :: int
  num_ce_channels :: int
  exclusive_core_base :: int
  exclusive_core_count :: int
  direct_ce :: CopyEngineManager
  staging_hugepage :: "nat \<Rightarrow> bool"
  staging_hp_size :: "nat \<Rightarrow> u64"
  staging_pool_set :: int
  gather_threads :: "int list"
  gather_workers_running :: bool
  poll_running :: bool
  poll_thread :: "int option"

definition new_poller :: "DescriptorQueue \<Rightarrow> bool \<Rightarrow> trace \<Rightarrow> mem \<Rightarrow> Poller" where
  "new_poller queue ce tr m =
     \<lparr>p_queue = queue, p_ce = new_manager, p_trace = tr, p_mem = m, use_ce = ce, num_staging_bufs = 0, staging_bufs = \<lambda>_. 0,
      staging_buffer_size = 0, staging_events = \<lambda>_. 0, staging_event_pending = \<lambda>_. False, staging_cur = 0,
      staging_inflight_count = 0, active_gather_workers = NUM_GATHER_WORKERS, has_async_dma = False, latest_async_read = 0,
      tiled_set = False, host_tile_addr = 0, host_tile_done = \<lambda>_. 0, dev_tile_addr = None, sg_set = False, dev_list_addr = None,
      lists_completed = 0, signal_stream = 0, signal_buf_addr = None, signal_buf = \<lambda>_. 0, tile_progress = \<lambda>_. 0,
      bucket_map_storage = \<lambda>_. -1, sg_bucket_map = \<lambda>_. -1,
      pending_tile_events = \<lambda>_. \<lparr>pe_event = 0, pe_done_value = 0, pe_tile_ids = []\<rparr>, tile_event_head = 0, tile_event_tail = 0,
      tile_events_inflight = 0, descriptors_processed = 0, batches_submitted = 0, coalesced_entries = 0, staging_batches = 0,
      total_bytes_copied = 0\<rparr>"

definition new_polling_thread :: "Poller \<Rightarrow> u64 \<Rightarrow> int \<Rightarrow> int \<Rightarrow> int \<Rightarrow> int \<Rightarrow> int \<Rightarrow> PollerObject" where
  "new_polling_thread p total_size numa offset channels ex_base ex_count =
     \<lparr>po = p, total_cpu_size = total_size, po_numa_node = numa, core_offset = offset, num_ce_channels = channels,
      exclusive_core_base = ex_base, exclusive_core_count = ex_count, direct_ce = new_manager, staging_hugepage = \<lambda>_. False,
      staging_hp_size = \<lambda>_. 0, staging_pool_set = -1, gather_threads = [], gather_workers_running = False, poll_running = False,
      poll_thread = None\<rparr>"

text \<open>What the setup works on: the object, the pool, the log.\<close>

type_synonym poller_setup = "PollerObject \<times> StagingPool \<times> host_log"

section \<open>\<open>init_copy_engine\<close>\<close>

definition set_staging :: "nat \<Rightarrow> u64 \<Rightarrow> u64 \<Rightarrow> bool \<Rightarrow> PollerObject \<Rightarrow> PollerObject" where
  "set_staging b ptr hp huge obj = obj\<lparr>po := (po obj)\<lparr>staging_bufs := (staging_bufs (po obj))(b := ptr)\<rparr>,
     staging_hp_size := (staging_hp_size obj)(b := hp), staging_hugepage := (staging_hugepage obj)(b := huge)\<rparr>"

text \<open>Buffers from the pool: all five, whatever the pool has in them.\<close>

definition staging_from_pool :: "PollerObject \<Rightarrow> StagingPool \<Rightarrow> nat \<times> PollerObject \<times> StagingPool" where
  "staging_from_pool obj pool =
     (if pool_initialized pool \<and> staging_buffer_size (po obj) \<le> pool_buf_size pool then
        (let (k, pool) = acquire_buffers (staging_buffer_size (po obj)) pool
         in if 0 \<le> k
            then (case get_buffers k pool of
                Some (bufs, _, hp) \<Rightarrow>
                  (NUM_STAGING_BUFS, fold (\<lambda>b. set_staging b (bufs b) 0 hp) [0..<NUM_STAGING_BUFS] (obj\<lparr>staging_pool_set := k\<rparr>), pool)
              | None \<Rightarrow> (NUM_STAGING_BUFS, obj\<lparr>staging_pool_set := k\<rparr>, pool))
            else (0, obj, pool))
      else (0, obj, pool))"

text \<open>The poller's own buffers; the loop leaves at the first that cannot be had. A fallback buffer leaves \<open>staging_hp_size\<close> alone.\<close>

fun own_staging :: "host_driver \<Rightarrow> nat list \<Rightarrow> nat \<Rightarrow> PollerObject \<Rightarrow> host_log \<Rightarrow> nat \<times> PollerObject \<times> host_log" where
  "own_staging drv [] n obj lg = (n, obj, lg)"
| "own_staging drv (b # bs) n obj lg =
     (let bsz = staging_buffer_size (po obj); hp = huge_round bsz
      in case alloc_staging drv hp bsz lg of
           (Some (ptr, huge), lg) \<Rightarrow>
             own_staging drv bs (n + 1) (set_staging b ptr (if huge then hp else staging_hp_size obj b) huge obj) lg
         | (None, lg) \<Rightarrow> (n, obj\<lparr>po := (po obj)\<lparr>staging_bufs := (staging_bufs (po obj))(b := 0)\<rparr>\<rparr>, lg))"

definition init_staging :: "host_driver \<Rightarrow> poller_setup \<Rightarrow> poller_setup" where
  "init_staging drv = (\<lambda>(obj, pool, lg).
     (let obj = obj\<lparr>po := (po obj)\<lparr>staging_buffer_size := total_cpu_size obj\<rparr>\<rparr>;
          (n, obj, pool) = staging_from_pool obj pool;
          (n, obj, lg) = (if n = 0 then own_staging drv [0..<NUM_STAGING_BUFS] n obj lg else (n, obj, lg))
      in (obj\<lparr>po := (po obj)\<lparr>num_staging_bufs := n\<rparr>\<rparr>, pool, lg)))"

definition staging_event :: "cu_driver \<Rightarrow> nat \<Rightarrow> Poller \<Rightarrow> Poller" where
  "staging_event drv b p = (case cu drv EventCreate (p_trace p) of (r, ev, tr) \<Rightarrow>
     p\<lparr>p_trace := tr, staging_events := (if r = CUDA_SUCCESS then (staging_events p)(b := ev) else staging_events p),
       staging_event_pending := (staging_event_pending p)(b := False)\<rparr>)"

text \<open>How many gather workers, and the core of each.\<close>

definition worker_plan :: "PollerObject \<Rightarrow> nat \<times> int list" where
  "worker_plan obj =
     (let exclusive = 0 \<le> exclusive_core_base obj \<and> 0 < exclusive_core_count obj;
          base_cpu = (if exclusive then exclusive_core_base obj else po_numa_node obj * 64 + core_offset obj * 16);
          available_cores = (if exclusive then exclusive_core_count obj else 8);
          core_stride = (if exclusive then if 16 \<le> available_cores then 2 else 1 else 2);
          available_slots = available_cores div core_stride;
          max_workers = (if 16 \<le> available_slots then available_slots - 1 else max 1 (available_slots - 1));
          active_workers = nat (min MAX_GATHER_WORKERS max_workers)
      in (active_workers, map (\<lambda>i. base_cpu + (int i + 1) * core_stride) [0..<active_workers]))"

definition start_workers :: "PollerObject \<Rightarrow> PollerObject" where
  "start_workers obj = (case worker_plan obj of (n, cpus) \<Rightarrow>
     obj\<lparr>po := (po obj)\<lparr>active_gather_workers := n\<rparr>, gather_workers_running := True, gather_threads := cpus\<rparr>)"

definition init_signal_buf :: "host_driver \<Rightarrow> poller_setup \<Rightarrow> poller_setup" where
  "init_signal_buf drv = (\<lambda>(obj, pool, lg).
     (if signal_buf_addr (po obj) = None then
        (let (ok, ptr, lg) = host drv (MallocHost (of_nat (MAX_TILES * 8))) lg
         in if ok then (obj\<lparr>po := (po obj)\<lparr>signal_buf_addr := Some ptr, signal_buf := \<lambda>_. 0\<rparr>\<rparr>, pool, lg) else (obj, pool, lg))
      else (obj, pool, lg)))"

definition init_signal_stream :: "cu_driver \<Rightarrow> Poller \<Rightarrow> Poller" where
  "init_signal_stream drv p =
     (if signal_stream p = 0
      then (case cu drv StreamCreate (p_trace p) of (r, s, tr) \<Rightarrow>
              p\<lparr>p_trace := tr, signal_stream := (if r = CUDA_SUCCESS then s else 0)\<rparr>)
      else p)"

definition init_copy_engine :: "cu_driver \<Rightarrow> host_driver \<Rightarrow> poller_setup \<Rightarrow> bool \<times> poller_setup" where
  "init_copy_engine drv sys = (\<lambda>(obj, pool, lg).
     (if \<not> use_ce (po obj) then (True, obj, pool, lg)
      else case cu drv CtxGetCurrent (p_trace (po obj)) of (r, ctx, tr) \<Rightarrow>
        if r \<noteq> CUDA_SUCCESS \<or> ctx = 0 then (False, obj\<lparr>po := (po obj)\<lparr>p_trace := tr\<rparr>\<rparr>, pool, lg)
        else case ce_init drv ctx (num_ce_channels obj) (p_ce (po obj)) tr of (r, ce, tr) \<Rightarrow>
          let obj = obj\<lparr>po := (po obj)\<lparr>p_ce := ce, p_trace := tr\<rparr>\<rparr>
          in if r \<noteq> CUDA_SUCCESS then (False, obj, pool, lg)
             else let (obj, pool, lg) = init_staging sys (obj, pool, lg);
                      obj = obj\<lparr>po := fold (staging_event drv) [0..<num_staging_bufs (po obj)] (po obj)\<rparr>;
                      (obj, pool, lg) = init_signal_buf sys (start_workers obj, pool, lg)
                  in (True, obj\<lparr>po := init_signal_stream drv (po obj)\<rparr>, pool, lg)))"

section \<open>\<open>start\<close>, \<open>stop\<close>, destructor\<close>

definition poller_start :: "PollerObject \<Rightarrow> PollerObject" where
  "poller_start obj = obj\<lparr>poll_running := True,
     poll_thread := Some (if 0 \<le> exclusive_core_base obj then exclusive_core_base obj else po_numa_node obj * 64 + core_offset obj * 16)\<rparr>"

definition poller_stop :: "PollerObject \<Rightarrow> PollerObject" where
  "poller_stop obj = obj\<lparr>poll_running := False, poll_thread := None\<rparr>"

definition destroy_staging_event :: "nat \<Rightarrow> Poller \<Rightarrow> Poller" where
  "destroy_staging_event b p =
     (if staging_events p b \<noteq> 0 then (call (EventDestroy (staging_events p b)) p)\<lparr>staging_events := (staging_events p)(b := 0)\<rparr> else p)"

definition destroy_tile_event :: "nat \<Rightarrow> Poller \<Rightarrow> Poller" where
  "destroy_tile_event i p =
     (let ev = pe_event (pending_tile_events p i)
      in if ev \<noteq> 0 then (call (EventDestroy ev) p)
           \<lparr>pending_tile_events := (pending_tile_events p)(i := (pending_tile_events p i)\<lparr>pe_event := 0\<rparr>)\<rparr>
         else p)"

definition destroy_signal_stream :: "Poller \<Rightarrow> Poller" where
  "destroy_signal_stream p =
     (if signal_stream p \<noteq> 0
      then (call (StreamDestroy (signal_stream p)) (call (StreamSynchronize (signal_stream p)) p))\<lparr>signal_stream := 0\<rparr> else p)"

fun free_own_staging :: "host_driver \<Rightarrow> nat list \<Rightarrow> PollerObject \<Rightarrow> host_log \<Rightarrow> PollerObject \<times> host_log" where
  "free_own_staging drv [] obj lg = (obj, lg)"
| "free_own_staging drv (b # bs) obj lg =
     (let ptr = staging_bufs (po obj) b
      in if ptr \<noteq> 0
         then free_own_staging drv bs (obj\<lparr>po := (po obj)\<lparr>staging_bufs := (staging_bufs (po obj))(b := 0)\<rparr>\<rparr>)
                (free_staging drv ptr (staging_hp_size obj b) (staging_hugepage obj b) lg)
         else free_own_staging drv bs obj lg)"

definition release_staging :: "host_driver \<Rightarrow> poller_setup \<Rightarrow> poller_setup" where
  "release_staging drv = (\<lambda>(obj, pool, lg).
     (if 0 \<le> staging_pool_set obj
      then (obj\<lparr>staging_pool_set := -1, po := (po obj)\<lparr>staging_bufs := fold (\<lambda>b f. f(b := 0)) [0..<NUM_STAGING_BUFS] (staging_bufs (po obj))\<rparr>\<rparr>,
            release_buffers (staging_pool_set obj) pool, lg)
      else case free_own_staging drv [0..<NUM_STAGING_BUFS] obj lg of (obj, lg) \<Rightarrow> (obj, pool, lg)))"

definition free_signal_buf :: "host_driver \<Rightarrow> poller_setup \<Rightarrow> poller_setup" where
  "free_signal_buf drv = (\<lambda>(obj, pool, lg).
     (case signal_buf_addr (po obj) of
        Some ptr \<Rightarrow> (obj\<lparr>po := (po obj)\<lparr>signal_buf_addr := None\<rparr>\<rparr>, pool, host_do drv (FreeHost ptr) lg)
      | None \<Rightarrow> (obj, pool, lg)))"

text \<open>The members \<open>direct_ce_manager_\<close> and \<open>ce_manager_\<close> shut down after the body, in this order.\<close>

definition delete_poller :: "cu_driver \<Rightarrow> host_driver \<Rightarrow> poller_setup \<Rightarrow> poller_setup" where
  "delete_poller drv sys = (\<lambda>(obj, pool, lg).
     (let obj = poller_stop obj;
          obj = obj\<lparr>gather_workers_running := False, gather_threads := drop (active_gather_workers (po obj)) (gather_threads obj)\<rparr>;
          p = destroy_signal_stream (fold destroy_tile_event [0..<MAX_PENDING_TILE_EVENTS] (fold destroy_staging_event [0..<NUM_STAGING_BUFS] (po obj)));
          (obj, pool, lg) = release_staging sys (free_signal_buf sys (obj\<lparr>po := p\<rparr>, pool, lg));
          (dce, tr) = ce_shutdown drv (direct_ce obj) (p_trace (po obj));
          (ce, tr) = ce_shutdown drv (p_ce (po obj)) tr
      in (obj\<lparr>direct_ce := dce, po := (po obj)\<lparr>p_ce := ce, p_trace := tr\<rparr>\<rparr>, pool, lg)))"

section \<open>The gather workers\<close>

lemma worker_plan_cases:
  fixes obj :: PollerObject
  defines "ex \<equiv> 0 \<le> exclusive_core_base obj \<and> 0 < exclusive_core_count obj"
  defines "base0 \<equiv> (if ex then exclusive_core_base obj else po_numa_node obj * 64 + core_offset obj * 16)"
    and "avail \<equiv> (if ex then exclusive_core_count obj else 8)"
  defines "stride \<equiv> (if ex then if 16 \<le> avail then 2 else 1 else 2)"
  defines "slots \<equiv> avail div stride"
  defines "m \<equiv> (if 16 \<le> slots then slots - 1 else max 1 (slots - 1))"
  defines "n \<equiv> nat (min 15 m)"
  shows "worker_plan obj = (n, map (\<lambda>i. base0 + (int i + 1) * stride) [0..<n])" and "1 \<le> m" and "0 < stride" and "1 \<le> n" and "n \<le> 15"
proof -
  show "worker_plan obj = (n, map (\<lambda>i. base0 + (int i + 1) * stride) [0..<n])"
    unfolding worker_plan_def Let_def MAX_GATHER_WORKERS_def n_def m_def slots_def stride_def avail_def base0_def ex_def by (rule refl)
  show "1 \<le> m" by (simp add: m_def)
  then show "1 \<le> n" "n \<le> 15" unfolding n_def by linarith+
  show "0 < stride" by (simp add: stride_def)
qed

lemma worker_plan_bounds:
  assumes "worker_plan obj = (n, cpus)"
  shows "1 \<le> n \<and> n \<le> 15 \<and> length cpus = n \<and> distinct cpus"
proof -
  note w = worker_plan_cases [of obj]
  obtain b t where t: "0 < t" "cpus = map (\<lambda>i. b + (int i + 1) * t) [0..<n]" "1 \<le> n" "n \<le> 15"
    using w(3-5) w(1) [unfolded assms] by (metis prod.inject)
  from t(1) have "inj_on (\<lambda>i. b + (int i + 1) * t) (set [0..<n])" by (intro inj_onI) simp
  with t show ?thesis by (simp add: distinct_map)
qed

lemma worker_plan_exclusive:
  assumes "worker_plan obj = (n, cpus)" "0 \<le> exclusive_core_base obj" "2 \<le> exclusive_core_count obj" "c \<in> set cpus"
  shows "exclusive_core_base obj < c \<and> c < exclusive_core_base obj + exclusive_core_count obj"
proof -
  define k where "k = exclusive_core_count obj"
  define stride where "stride = (if 16 \<le> k then 2 else 1 :: int)"
  define slots where "slots = k div stride"
  have s: "0 < stride" by (simp add: stride_def)
  have k: "2 \<le> slots" using assms(3) zdiv_mono1 [of 16 k 2] by (cases "16 \<le> k") (simp_all add: stride_def slots_def k_def)
  have fit: "slots * stride \<le> k" using mult_div_mod_eq [of stride k] pos_mod_sign [OF s, of k] unfolding slots_def mult.commute [of _ stride] by linarith
  have ex: "(0 \<le> exclusive_core_base obj \<and> 0 < exclusive_core_count obj) = True" using assms(2,3) by simp
  note w = worker_plan_cases(1) [of obj, unfolded ex if_True, folded k_def, folded stride_def, folded slots_def]
  have n: "n = nat (min 15 (if 16 \<le> slots then slots - 1 else max 1 (slots - 1)))"
    and cpus: "cpus = map (\<lambda>i. exclusive_core_base obj + (int i + 1) * stride) [0..<n]"
    using w unfolding assms(1) by simp_all
  have "int n \<le> slots - 1" using n k by (auto split: if_splits)
  moreover obtain i where i: "i < n" "c = exclusive_core_base obj + (int i + 1) * stride" using assms(4) cpus by auto
  ultimately have "(int i + 1) * stride \<le> (slots - 1) * stride" using s by (intro mult_right_mono) simp_all
  moreover have "0 < (int i + 1) * stride" using s by simp
  ultimately show ?thesis using s fit i(2) by (simp add: algebra_simps k_def)
qed

text \<open>With a single exclusive core the one worker runs beside it, on a core that belongs to another GPU.\<close>

lemma worker_plan_single:
  "0 \<le> exclusive_core_base obj \<Longrightarrow> exclusive_core_count obj = 1 \<Longrightarrow> worker_plan obj = (1, [exclusive_core_base obj + 1])"
  by (simp add: worker_plan_def MAX_GATHER_WORKERS_def Let_def)

section \<open>What the object owns\<close>

definition own_resources :: "nat list \<Rightarrow> PollerObject \<Rightarrow> resource multiset" where
  "own_resources bs obj = \<Sum>\<^sub># (image_mset (\<lambda>b. if staging_bufs (po obj) b = 0 then {#} else buffer_of (staging_bufs (po obj) b) (staging_hugepage obj b)) (mset bs))"

lemma own_resources_simps [simp]:
  "own_resources [] obj = {#}"
  "own_resources (b # bs) obj = (if staging_bufs (po obj) b = 0 then {#} else buffer_of (staging_bufs (po obj) b) (staging_hugepage obj b)) + own_resources bs obj"
  by (simp_all add: own_resources_def)

lemma own_resources_cong:
  "(\<And>b. b \<in> set bs \<Longrightarrow> staging_bufs (po obj) b = staging_bufs (po obj') b \<and> staging_hugepage obj b = staging_hugepage obj' b)
     \<Longrightarrow> own_resources bs obj = own_resources bs obj'"
  by (induction bs) simp_all

lemma own_resources_empty: "(\<And>b. b \<in> set bs \<Longrightarrow> staging_bufs (po obj) b = 0) \<Longrightarrow> own_resources bs obj = {#}"
  by (induction bs) simp_all

text \<open>Two objects with the same buffers; a running poller keeps them.\<close>

definition same_buffers :: "PollerObject \<Rightarrow> PollerObject \<Rightarrow> bool" where
  "same_buffers obj obj' \<longleftrightarrow> staging_bufs (po obj) = staging_bufs (po obj') \<and> staging_hugepage obj = staging_hugepage obj'
     \<and> staging_pool_set obj = staging_pool_set obj' \<and> signal_buf_addr (po obj) = signal_buf_addr (po obj')"

lemma set_staging_fields [simp]:
  "staging_bufs (po (set_staging b ptr hp huge obj)) = (staging_bufs (po obj))(b := ptr)"
  "staging_hugepage (set_staging b ptr hp huge obj) = (staging_hugepage obj)(b := huge)"
  "staging_pool_set (set_staging b ptr hp huge obj) = staging_pool_set obj"
  "signal_buf_addr (po (set_staging b ptr hp huge obj)) = signal_buf_addr (po obj)"
  by (simp_all add: set_staging_def)

lemma own_staging_resources:
  assumes "own_staging sys bs n obj lg = (n', obj', lg')" "held lg = Some h" "nonnull sys" "distinct bs"
    and "\<forall>b\<in>set bs. staging_bufs (po obj) b = 0"
  shows "held lg' = Some (h + own_resources bs obj') \<and> staging_pool_set obj' = staging_pool_set obj
    \<and> signal_buf_addr (po obj') = signal_buf_addr (po obj)
    \<and> (\<forall>b. b \<notin> set bs \<longrightarrow> staging_bufs (po obj') b = staging_bufs (po obj) b \<and> staging_hugepage obj' b = staging_hugepage obj b)
    \<and> n \<le> n' \<and> n' \<le> n + length bs \<and> (\<forall>i<n' - n. staging_bufs (po obj') (bs ! i) \<noteq> 0)"
  using assms
proof (induction bs arbitrary: n obj lg h)
  case (Cons b bs)
  define bsz where "bsz = staging_buffer_size (po obj)"
  obtain r l1 where a: "alloc_staging sys (huge_round bsz) bsz lg = (r, l1)" by fastforce
  note held1 = alloc_staging_held [OF a Cons.prems(2)]
  show ?case
  proof (cases r)
    case None
    then have o: "obj' = obj\<lparr>po := (po obj)\<lparr>staging_bufs := (staging_bufs (po obj))(b := 0)\<rparr>\<rparr>" "lg' = l1" "n' = n"
      using Cons.prems(1) a by (simp_all add: bsz_def Let_def)
    have "own_resources (b # bs) obj' = {#}" using Cons.prems(5) by (intro own_resources_empty) (auto simp: o)
    then show ?thesis using held1 None Cons.prems(5) by (auto simp: o)
  next
    case (Some ph)
    obtain p huge where ph: "ph = (p, huge)" by (cases ph)
    have p: "p \<noteq> 0" using a Some ph alloc_staging_nonnull Cons.prems(3) by blast
    let ?o = "set_staging b p (if huge then huge_round bsz else staging_hp_size obj b) huge obj"
    have rec: "own_staging sys bs (n + 1) ?o l1 = (n', obj', lg')" using Cons.prems(1) a Some ph by (cases huge) (simp_all add: bsz_def Let_def)
    have ih: "held lg' = Some (h + buffer_of p huge + own_resources bs obj') \<and> staging_pool_set obj' = staging_pool_set ?o
      \<and> signal_buf_addr (po obj') = signal_buf_addr (po ?o)
      \<and> (\<forall>c. c \<notin> set bs \<longrightarrow> staging_bufs (po obj') c = staging_bufs (po ?o) c \<and> staging_hugepage obj' c = staging_hugepage ?o c)
      \<and> n + 1 \<le> n' \<and> n' \<le> n + 1 + length bs \<and> (\<forall>i<n' - (n + 1). staging_bufs (po obj') (bs ! i) \<noteq> 0)"
      using Cons.prems(3-5) held1 Some ph by (intro Cons.IH [OF rec]) auto
    then have b: "staging_bufs (po obj') b = p" "staging_hugepage obj' b = huge" using Cons.prems(4) by auto
    have "staging_bufs (po obj') ((b # bs) ! i) \<noteq> 0" if "i < n' - n" for i
      using ih that b(1) p by (cases i) (auto simp: less_diff_conv)
    then show ?thesis using ih p b by (auto simp: ac_simps)
  qed
qed simp

lemma free_own_staging_held:
  assumes "free_own_staging sys bs obj lg = (obj', lg')" "held lg = Some (h + own_resources bs obj)" "distinct bs"
  shows "held lg' = Some h"
  using assms
proof (induction bs arbitrary: obj lg)
  case (Cons b bs)
  define p where "p = staging_bufs (po obj) b"
  show ?case
  proof (cases "p = 0")
    case True
    then show ?thesis using Cons.IH [of obj lg] Cons.prems by (simp add: p_def)
  next
    case False
    let ?o = "obj\<lparr>po := (po obj)\<lparr>staging_bufs := (staging_bufs (po obj))(b := 0)\<rparr>\<rparr>"
      and ?l = "free_staging sys p (staging_hp_size obj b) (staging_hugepage obj b) lg"
    have "own_resources bs ?o = own_resources bs obj" using Cons.prems(3) by (intro own_resources_cong) auto
    moreover have "held lg = Some ((h + own_resources bs obj) + buffer_of p (staging_hugepage obj b))"
      using Cons.prems(2) False by (simp add: ac_simps p_def)
    ultimately have "held ?l = Some (h + own_resources bs ?o)" using free_staging_held by metis
    moreover have "free_own_staging sys bs ?o ?l = (obj', lg')" using Cons.prems(1) False by (simp add: p_def Let_def)
    ultimately show ?thesis using Cons.IH [of ?o ?l] Cons.prems(3) by simp
  qed
qed simp

section \<open>A whole life\<close>

lemma staging_event_frame [simp]:
  "staging_bufs (fold (staging_event drv) bs p) = staging_bufs p" "signal_buf_addr (fold (staging_event drv) bs p) = signal_buf_addr p"
  "num_staging_bufs (fold (staging_event drv) bs p) = num_staging_bufs p"
proof -
  have one: "staging_bufs (staging_event drv b p) = staging_bufs p" "signal_buf_addr (staging_event drv b p) = signal_buf_addr p"
    "num_staging_bufs (staging_event drv b p) = num_staging_bufs p" for b p
    by (simp_all add: staging_event_def split: prod.splits)
  show "staging_bufs (fold (staging_event drv) bs p) = staging_bufs p" "signal_buf_addr (fold (staging_event drv) bs p) = signal_buf_addr p"
    "num_staging_bufs (fold (staging_event drv) bs p) = num_staging_bufs p"
    by (induction bs arbitrary: p) (simp_all add: one)
qed

lemma destroy_frame [simp]:
  "staging_bufs (destroy_signal_stream p) = staging_bufs p" "signal_buf_addr (destroy_signal_stream p) = signal_buf_addr p"
  "staging_bufs (fold destroy_tile_event is p) = staging_bufs p" "signal_buf_addr (fold destroy_tile_event is p) = signal_buf_addr p"
  "staging_bufs (fold destroy_staging_event is p) = staging_bufs p" "signal_buf_addr (fold destroy_staging_event is p) = signal_buf_addr p"
proof -
  show "staging_bufs (destroy_signal_stream p) = staging_bufs p" "signal_buf_addr (destroy_signal_stream p) = signal_buf_addr p"
    by (simp_all add: destroy_signal_stream_def call_def)
  have "staging_bufs (destroy_tile_event i p) = staging_bufs p" "signal_buf_addr (destroy_tile_event i p) = signal_buf_addr p"
    "staging_bufs (destroy_staging_event i p) = staging_bufs p" "signal_buf_addr (destroy_staging_event i p) = signal_buf_addr p" for i p
    by (simp_all add: destroy_tile_event_def destroy_staging_event_def call_def Let_def)
  then show "staging_bufs (fold destroy_tile_event is p) = staging_bufs p" "signal_buf_addr (fold destroy_tile_event is p) = signal_buf_addr p"
    "staging_bufs (fold destroy_staging_event is p) = staging_bufs p" "signal_buf_addr (fold destroy_staging_event is p) = signal_buf_addr p"
    by (induction "is" arbitrary: p) simp_all
qed

text \<open>What the object owes: buffers of its own or a set of the pool, and the signal buffer.\<close>

definition signal_debt :: "PollerObject \<Rightarrow> resource multiset" where
  "signal_debt obj = (case signal_buf_addr (po obj) of Some ptr \<Rightarrow> {#Pinned ptr#} | None \<Rightarrow> {#})"

definition staging_debt :: "PollerObject \<Rightarrow> resource multiset" where
  "staging_debt obj = (if 0 \<le> staging_pool_set obj then {#} else own_resources [0..<NUM_STAGING_BUFS] obj)"

definition pool_after :: "PollerObject \<Rightarrow> StagingPool \<Rightarrow> StagingPool" where
  "pool_after obj pool = (if 0 \<le> staging_pool_set obj then release_buffers (staging_pool_set obj) pool else pool)"

lemma debt_same:
  assumes "same_buffers obj obj'"
  shows "signal_debt obj' = signal_debt obj" "staging_debt obj' = staging_debt obj" "pool_after obj' = pool_after obj"
  using assms own_resources_cong [of "[0..<NUM_STAGING_BUFS]" obj obj']
  by (auto simp: same_buffers_def signal_debt_def staging_debt_def pool_after_def fun_eq_iff)

lemma acquire_release:
  assumes "acquire_buffers sz pool = (k, pool')" "0 \<le> k"
  shows "release_buffers k pool' = pool"
proof -
  note f = acquire_buffers_found [OF assms]
  have "(buffer_sets pool)(nat k := buffer_sets pool (nat k)\<lparr>set_in_use := False\<rparr>) = buffer_sets pool" using f(3) by auto
  then show ?thesis using f(1) assms(2) by (simp add: f(5) release_buffers_def)
qed

lemma fold_set_staging [simp]:
  "staging_pool_set (fold (\<lambda>b. set_staging b (f b) hp huge) bs obj) = staging_pool_set obj"
  "signal_buf_addr (po (fold (\<lambda>b. set_staging b (f b) hp huge) bs obj)) = signal_buf_addr (po obj)"
  by (induction bs arbitrary: obj) simp_all

lemma staging_from_pool_cases:
  assumes "staging_from_pool obj pool = (n, obj', pool')" "staging_pool_set obj = -1"
  shows "signal_buf_addr (po obj') = signal_buf_addr (po obj) \<and> pool_after obj' pool' = pool
    \<and> (n = NUM_STAGING_BUFS \<and> 0 \<le> staging_pool_set obj' \<or> n = 0 \<and> obj' = obj)"
proof -
  obtain k q where a: "acquire_buffers (staging_buffer_size (po obj)) pool = (k, q)" by fastforce
  show ?thesis
  proof (cases "pool_initialized pool \<and> staging_buffer_size (po obj) \<le> pool_buf_size pool \<and> 0 \<le> k")
    case True
    then have "pool' = q" "staging_pool_set obj' = k" "signal_buf_addr (po obj') = signal_buf_addr (po obj)" "n = NUM_STAGING_BUFS"
      using assms(1) a by (auto simp: staging_from_pool_def split: option.splits)
    with True acquire_release [OF a] show ?thesis by (simp add: pool_after_def)
  next
    case False
    then have "n = 0" "obj' = obj" "pool' = pool"
      using assms(1) a acquire_buffers_none(2) [OF a] by (auto simp: staging_from_pool_def split: if_splits)
    with assms(2) show ?thesis by (simp add: pool_after_def)
  qed
qed

lemma init_staging_debt:
  assumes "init_staging sys (obj, pool, lg) = (obj', pool', lg')" "held lg = Some h" "nonnull sys"
    and "staging_pool_set obj = -1" "\<forall>b. staging_bufs (po obj) b = 0"
  shows "held lg' = Some (h + staging_debt obj')" and "pool_after obj' pool' = pool"
    and "signal_buf_addr (po obj') = signal_buf_addr (po obj)" and "num_staging_bufs (po obj') \<le> NUM_STAGING_BUFS"
    and "staging_pool_set obj' < 0 \<longrightarrow> (\<forall>b<num_staging_bufs (po obj'). staging_bufs (po obj') b \<noteq> 0)"
proof -
  let ?o = "obj\<lparr>po := (po obj)\<lparr>staging_buffer_size := total_cpu_size obj\<rparr>\<rparr>"
  obtain n o1 q where f: "staging_from_pool ?o pool = (n, o1, q)" by (cases "staging_from_pool ?o pool") auto
  have "staging_pool_set ?o = -1" using assms(4) by simp
  note c = staging_from_pool_cases [OF f this]
  have "held lg' = Some (h + staging_debt obj') \<and> pool_after obj' pool' = pool \<and> signal_buf_addr (po obj') = signal_buf_addr (po obj)
    \<and> num_staging_bufs (po obj') \<le> NUM_STAGING_BUFS
    \<and> (staging_pool_set obj' < 0 \<longrightarrow> (\<forall>b<num_staging_bufs (po obj'). staging_bufs (po obj') b \<noteq> 0))"
  proof (cases "n = 0")
    case False
    then have o: "obj' = o1\<lparr>po := (po o1)\<lparr>num_staging_bufs := n\<rparr>\<rparr>" "pool' = q" "lg' = lg" using assms(1) f by (simp_all add: init_staging_def Let_def)
    have s: "n = NUM_STAGING_BUFS" "0 \<le> staging_pool_set o1" using c False by auto
    show ?thesis using c s assms(2) by (simp add: o staging_debt_def pool_after_def)
  next
    case True
    then have o1: "o1 = ?o" using c by (simp add: NUM_STAGING_BUFS_def)
    obtain n2 o2 l2 where own: "own_staging sys [0..<NUM_STAGING_BUFS] 0 ?o lg = (n2, o2, l2)"
      by (cases "own_staging sys [0..<NUM_STAGING_BUFS] 0 ?o lg") auto
    have o: "obj' = o2\<lparr>po := (po o2)\<lparr>num_staging_bufs := n2\<rparr>\<rparr>" "pool' = q" "lg' = l2"
      using assms(1) f own by (simp_all add: init_staging_def Let_def True o1)
    have "\<forall>b\<in>set [0..<NUM_STAGING_BUFS]. staging_bufs (po ?o) b = 0" using assms(5) by simp
    note r = own_staging_resources [OF own assms(2,3) distinct_upt this]
    have set: "staging_pool_set o2 = -1" using r assms(4) by simp
    have q: "q = pool" using c assms(4) by (simp add: o1 pool_after_def)
    have "own_resources [0..<NUM_STAGING_BUFS] obj' = own_resources [0..<NUM_STAGING_BUFS] o2" by (rule own_resources_cong) (simp add: o)
    moreover have "\<forall>b<n2. staging_bufs (po o2) b \<noteq> 0"
    proof (intro allI impI)
      fix b assume "b < n2"
      with r show "staging_bufs (po o2) b \<noteq> 0" by (metis add_0 diff_zero length_upt nth_upt order_less_le_trans)
    qed
    ultimately show ?thesis using r set q by (simp add: o staging_debt_def pool_after_def)
  qed
  then show "held lg' = Some (h + staging_debt obj')" "pool_after obj' pool' = pool" "signal_buf_addr (po obj') = signal_buf_addr (po obj)"
    "num_staging_bufs (po obj') \<le> NUM_STAGING_BUFS"
    "staging_pool_set obj' < 0 \<longrightarrow> (\<forall>b<num_staging_bufs (po obj'). staging_bufs (po obj') b \<noteq> 0)"
    by blast+
qed

text \<open>Nothing of this changes what the worker plan is made from.\<close>

definition cores_of :: "PollerObject \<Rightarrow> int \<times> int \<times> int \<times> int" where
  "cores_of obj = (exclusive_core_base obj, exclusive_core_count obj, po_numa_node obj, core_offset obj)"

lemma worker_plan_cores: "cores_of obj = cores_of obj' \<Longrightarrow> worker_plan obj = worker_plan obj'"
  unfolding worker_plan_def cores_of_def prod.inject by (elim conjE) (simp only:)

lemma cores_of_po [simp]: "cores_of (obj\<lparr>po := p\<rparr>) = cores_of obj"
  by (simp add: cores_of_def)

lemma cores_of_set_staging [simp]: "cores_of (set_staging b ptr hp huge obj) = cores_of obj"
  by (simp add: cores_of_def set_staging_def)

lemma cores_of_pool [simp]: "cores_of (fold (\<lambda>b. set_staging b (f b) hp huge) bs obj) = cores_of obj"
  by (induction bs arbitrary: obj) simp_all

lemma cores_of_own: "own_staging sys bs n obj lg = (n', obj', lg') \<Longrightarrow> cores_of obj' = cores_of obj"
proof (induction bs arbitrary: n obj lg)
  case (Cons b bs)
  obtain r l1 where a: "alloc_staging sys (huge_round (staging_buffer_size (po obj))) (staging_buffer_size (po obj)) lg = (r, l1)" by fastforce
  show ?case
  proof (cases r)
    case None
    then show ?thesis using Cons.prems a by (auto simp: Let_def cores_of_def)
  next
    case (Some ph)
    then show ?thesis using Cons.prems a Cons.IH by (cases ph) (auto simp: Let_def)
  qed
qed simp

lemma init_staging_cores: "init_staging sys (obj, pool, lg) = (obj', pool', lg') \<Longrightarrow> cores_of obj' = cores_of obj"
proof -
  assume i: "init_staging sys (obj, pool, lg) = (obj', pool', lg')"
  let ?o = "obj\<lparr>po := (po obj)\<lparr>staging_buffer_size := total_cpu_size obj\<rparr>\<rparr>"
  obtain n o1 q where f: "staging_from_pool ?o pool = (n, o1, q)" by (cases "staging_from_pool ?o pool") auto
  have keep: "cores_of (ob\<lparr>po := p\<rparr>) = cores_of ob" "cores_of (ob\<lparr>staging_pool_set := k\<rparr>) = cores_of ob" for ob p k
    by (simp_all add: cores_of_def)
  have c1: "cores_of o1 = cores_of obj" using f by (auto simp: staging_from_pool_def keep split: if_splits prod.splits option.splits)
  obtain n2 o2 l2 where own: "own_staging sys [0..<NUM_STAGING_BUFS] n o1 lg = (n2, o2, l2)"
    by (cases "own_staging sys [0..<NUM_STAGING_BUFS] n o1 lg") auto
  show "cores_of obj' = cores_of obj"
    using i f own c1 cores_of_own [OF own] by (auto simp: init_staging_def Let_def keep split: if_splits)
qed

text \<open>Nor the device addresses that completions are signalled at.\<close>

definition addrs_of :: "PollerObject \<Rightarrow> u64 option \<times> u64 option" where
  "addrs_of obj = (dev_tile_addr (po obj), dev_list_addr (po obj))"

lemma addrs_of_set_staging [simp]:
  "addrs_of (set_staging b ptr hp huge obj) = addrs_of obj" "addrs_of (fold (\<lambda>b. set_staging b (f b) hp huge) bs obj) = addrs_of obj"
proof -
  have one: "addrs_of (set_staging b ptr hp huge obj) = addrs_of obj" for b ptr hp huge obj by (simp add: addrs_of_def set_staging_def)
  show "addrs_of (set_staging b ptr hp huge obj) = addrs_of obj" by (rule one)
  show "addrs_of (fold (\<lambda>b. set_staging b (f b) hp huge) bs obj) = addrs_of obj" by (induction bs arbitrary: obj) (simp_all add: one)
qed

lemma addrs_of_own: "own_staging sys bs n obj lg = (n', obj', lg') \<Longrightarrow> addrs_of obj' = addrs_of obj"
proof (induction bs arbitrary: n obj lg)
  case (Cons b bs)
  obtain r l1 where a: "alloc_staging sys (huge_round (staging_buffer_size (po obj))) (staging_buffer_size (po obj)) lg = (r, l1)" by fastforce
  show ?case
  proof (cases r)
    case None
    then show ?thesis using Cons.prems a by (auto simp: Let_def addrs_of_def)
  next
    case (Some ph)
    then show ?thesis using Cons.prems a Cons.IH by (cases ph) (auto simp: Let_def)
  qed
qed simp

lemma init_staging_addrs: "init_staging sys (obj, pool, lg) = (obj', pool', lg') \<Longrightarrow> addrs_of obj' = addrs_of obj"
proof -
  assume i: "init_staging sys (obj, pool, lg) = (obj', pool', lg')"
  let ?o = "obj\<lparr>po := (po obj)\<lparr>staging_buffer_size := total_cpu_size obj\<rparr>\<rparr>"
  obtain n o1 q where f: "staging_from_pool ?o pool = (n, o1, q)" by (cases "staging_from_pool ?o pool") auto
  have keep: "addrs_of ?o = addrs_of obj" "addrs_of (ob\<lparr>staging_pool_set := k\<rparr>) = addrs_of ob"
    "addrs_of (ob\<lparr>po := (po ob)\<lparr>num_staging_bufs := n\<rparr>\<rparr>) = addrs_of ob" for ob k n
    by (simp_all add: addrs_of_def)
  have c1: "addrs_of o1 = addrs_of obj" using f keep(1) by (auto simp: staging_from_pool_def keep(2) split: if_splits prod.splits option.splits)
  obtain n2 o2 l2 where own: "own_staging sys [0..<NUM_STAGING_BUFS] n o1 lg = (n2, o2, l2)"
    by (cases "own_staging sys [0..<NUM_STAGING_BUFS] n o1 lg") auto
  show "addrs_of obj' = addrs_of obj"
    using i f own c1 addrs_of_own [OF own] by (auto simp: init_staging_def Let_def keep(3) split: if_splits)
qed

lemma init_copy_engine_addrs:
  assumes "init_copy_engine drv sys (obj, pool, lg) = (ok, obj', pool', lg')"
  shows "addrs_of obj' = addrs_of obj"
proof -
  obtain r ctx tr where g: "cu drv CtxGetCurrent (p_trace (po obj)) = (r, ctx, tr)" by (cases "cu drv CtxGetCurrent (p_trace (po obj))") auto
  obtain r2 ce tr2 where c: "ce_init drv ctx (num_ce_channels obj) (p_ce (po obj)) tr = (r2, ce, tr2)"
    by (cases "ce_init drv ctx (num_ce_channels obj) (p_ce (po obj)) tr") auto
  show ?thesis
  proof (cases "use_ce (po obj) \<and> r = CUDA_SUCCESS \<and> ctx \<noteq> 0 \<and> r2 = CUDA_SUCCESS")
    case False
    then show ?thesis using assms g c by (auto simp: init_copy_engine_def addrs_of_def Let_def split: if_splits)
  next
    case True
    let ?o = "obj\<lparr>po := (po obj)\<lparr>p_ce := ce, p_trace := tr2\<rparr>\<rparr>"
    obtain o1 q1 l1 where s: "init_staging sys (?o, pool, lg) = (o1, q1, l1)" by (cases "init_staging sys (?o, pool, lg)") auto
    let ?o2 = "o1\<lparr>po := fold (staging_event drv) [0..<num_staging_bufs (po o1)] (po o1)\<rparr>"
    obtain o3 q3 l3 where b: "init_signal_buf sys (start_workers ?o2, q1, l1) = (o3, q3, l3)"
      by (cases "init_signal_buf sys (start_workers ?o2, q1, l1)") auto
    have "dev_tile_addr (staging_event drv b p) = dev_tile_addr p" "dev_list_addr (staging_event drv b p) = dev_list_addr p" for b p
      by (simp_all add: staging_event_def split: prod.splits)
    then have "dev_tile_addr (fold (staging_event drv) bs p) = dev_tile_addr p" "dev_list_addr (fold (staging_event drv) bs p) = dev_list_addr p" for bs p
      by (induction bs arbitrary: p) simp_all
    then have "addrs_of (start_workers ?o2) = addrs_of o1" by (simp add: start_workers_def addrs_of_def split: prod.splits)
    moreover have "addrs_of o3 = addrs_of (start_workers ?o2)" using b
      by (auto simp: init_signal_buf_def addrs_of_def split: if_splits prod.splits)
    moreover have "addrs_of obj' = addrs_of o3" using assms True g c s b
      by (auto simp: init_copy_engine_def Let_def init_signal_stream_def addrs_of_def split: prod.splits)
    moreover have "addrs_of ?o = addrs_of obj" by (simp add: addrs_of_def)
    ultimately show ?thesis using init_staging_addrs [OF s] by (simp only:)
  qed
qed

lemma init_signal_buf_debt:
  assumes "init_signal_buf sys (obj, pool, lg) = (obj', pool', lg')" "held lg = Some h" "signal_buf_addr (po obj) = None"
  shows "held lg' = Some (h + signal_debt obj')" "pool' = pool" "staging_debt obj' = staging_debt obj" "pool_after obj' = pool_after obj"
    "num_staging_bufs (po obj') = num_staging_bufs (po obj)" "staging_bufs (po obj') = staging_bufs (po obj)"
    "staging_pool_set obj' = staging_pool_set obj" "gather_threads obj' = gather_threads obj"
    "active_gather_workers (po obj') = active_gather_workers (po obj)"
proof -
  let ?c = "MallocHost (of_nat (MAX_TILES * 8))"
  have h: "held (host_do sys ?c lg) = Some (h + acquired (?c, sys lg ?c))" using assms(2) by (cases "sys lg ?c") (simp add: held_host)
  show "held lg' = Some (h + signal_debt obj')"
    using assms(1,3) h by (cases "sys lg ?c") (auto simp: init_signal_buf_def host_eq signal_debt_def split: if_splits)
  have o: "pool' = pool" "obj' = obj \<or> (\<exists>a f. obj' = obj\<lparr>po := (po obj)\<lparr>signal_buf_addr := a, signal_buf := f\<rparr>\<rparr>)"
    using assms(1,3) by (auto simp: init_signal_buf_def host_eq split: if_splits)
  then show "pool' = pool" "pool_after obj' = pool_after obj"
    "num_staging_bufs (po obj') = num_staging_bufs (po obj)" "staging_bufs (po obj') = staging_bufs (po obj)"
    "staging_pool_set obj' = staging_pool_set obj" "gather_threads obj' = gather_threads obj"
    "active_gather_workers (po obj') = active_gather_workers (po obj)" by (auto simp: pool_after_def fun_eq_iff)
  from o(2) show "staging_debt obj' = staging_debt obj"
    using own_resources_cong [of "[0..<NUM_STAGING_BUFS]" obj' obj] by (auto simp: staging_debt_def)
qed

text \<open>A fresh object, initialised, owes exactly what the log holds.\<close>

definition fresh_object :: "PollerObject \<Rightarrow> bool" where
  "fresh_object obj \<longleftrightarrow> staging_pool_set obj = -1 \<and> (\<forall>b. staging_bufs (po obj) b = 0) \<and> signal_buf_addr (po obj) = None
     \<and> num_staging_bufs (po obj) = 0"

lemma fresh_debt: "fresh_object obj \<Longrightarrow> signal_debt obj = {#} \<and> staging_debt obj = {#} \<and> pool_after obj pool = pool"
  by (auto simp: fresh_object_def signal_debt_def staging_debt_def pool_after_def intro: own_resources_empty)

lemma debt_po:
  assumes "staging_bufs p = staging_bufs (po obj)" "signal_buf_addr p = signal_buf_addr (po obj)"
  shows "signal_debt (obj\<lparr>po := p\<rparr>) = signal_debt obj" "staging_debt (obj\<lparr>po := p\<rparr>) = staging_debt obj"
    "pool_after (obj\<lparr>po := p\<rparr>) = pool_after obj"
  using debt_same [of obj "obj\<lparr>po := p\<rparr>"] assms by (simp_all add: same_buffers_def)

lemma init_copy_engine_debt:
  assumes "init_copy_engine drv sys (obj, pool, lg) = (ok, obj', pool', lg')" "held lg = Some h" "nonnull sys" "fresh_object obj"
  shows "held lg' = Some (h + signal_debt obj' + staging_debt obj')" and "pool_after obj' pool' = pool"
    and "num_staging_bufs (po obj') \<le> NUM_STAGING_BUFS"
    and "staging_pool_set obj' < 0 \<longrightarrow> (\<forall>b<num_staging_bufs (po obj'). staging_bufs (po obj') b \<noteq> 0)"
    and "ok \<Longrightarrow> use_ce (po obj) \<Longrightarrow> (active_gather_workers (po obj'), gather_threads obj') = worker_plan obj"
proof -
  obtain r ctx tr where g: "cu drv CtxGetCurrent (p_trace (po obj)) = (r, ctx, tr)" by (cases "cu drv CtxGetCurrent (p_trace (po obj))") auto
  obtain r2 ce tr2 where c: "ce_init drv ctx (num_ce_channels obj) (p_ce (po obj)) tr = (r2, ce, tr2)"
    by (cases "ce_init drv ctx (num_ce_channels obj) (p_ce (po obj)) tr") auto
  let ?done = "held lg' = Some (h + signal_debt obj' + staging_debt obj') \<and> pool_after obj' pool' = pool
    \<and> num_staging_bufs (po obj') \<le> NUM_STAGING_BUFS
    \<and> (staging_pool_set obj' < 0 \<longrightarrow> (\<forall>b<num_staging_bufs (po obj'). staging_bufs (po obj') b \<noteq> 0))
    \<and> (ok \<longrightarrow> use_ce (po obj) \<longrightarrow> (active_gather_workers (po obj'), gather_threads obj') = worker_plan obj)"
  have unchanged: ?done if "fresh_object obj'" "pool' = pool" "lg' = lg" "\<not> ok \<or> \<not> use_ce (po obj)"
    using that assms(2) fresh_debt [of obj'] by (auto simp: fresh_object_def)
  have ?done
  proof (cases "use_ce (po obj) \<and> r = CUDA_SUCCESS \<and> ctx \<noteq> 0 \<and> r2 = CUDA_SUCCESS")
    case False
    then show ?thesis using assms(1,4) g c
      by (intro unchanged) (auto simp: init_copy_engine_def fresh_object_def Let_def split: if_splits)
  next
    case True
    let ?o = "obj\<lparr>po := (po obj)\<lparr>p_ce := ce, p_trace := tr2\<rparr>\<rparr>"
    obtain o1 q1 l1 where s: "init_staging sys (?o, pool, lg) = (o1, q1, l1)" by (cases "init_staging sys (?o, pool, lg)") auto
    let ?o2 = "o1\<lparr>po := fold (staging_event drv) [0..<num_staging_bufs (po o1)] (po o1)\<rparr>"
    obtain o3 q3 l3 where b: "init_signal_buf sys (start_workers ?o2, q1, l1) = (o3, q3, l3)"
      by (cases "init_signal_buf sys (start_workers ?o2, q1, l1)") auto
    have res: "ok" "obj' = o3\<lparr>po := init_signal_stream drv (po o3)\<rparr>" "pool' = q3" "lg' = l3"
      using assms(1) True g c s b by (simp_all add: init_copy_engine_def Let_def)
    have fresh: "staging_pool_set ?o = -1" "\<forall>b. staging_bufs (po ?o) b = 0" "signal_buf_addr (po ?o) = None"
      using assms(4) by (simp_all add: fresh_object_def)
    note st = init_staging_debt [OF s assms(2,3) fresh(1,2)]
    have sw: "start_workers ?o2 = o1\<lparr>po := (fold (staging_event drv) [0..<num_staging_bufs (po o1)] (po o1))\<lparr>active_gather_workers := fst (worker_plan ?o2)\<rparr>,
       gather_workers_running := True, gather_threads := snd (worker_plan ?o2)\<rparr>"
      by (simp add: start_workers_def split: prod.splits)
    have same: "same_buffers o1 (start_workers ?o2)" by (simp add: same_buffers_def sw)
    note deb = debt_same [OF same]
    have "signal_buf_addr (po (start_workers ?o2)) = None" using st(3) fresh(3) by (simp add: sw)
    note sb = init_signal_buf_debt [OF b st(1) this]
    have fin: "same_buffers o3 obj'" "num_staging_bufs (po obj') = num_staging_bufs (po o3)"
      "active_gather_workers (po obj') = active_gather_workers (po o3)" "gather_threads obj' = gather_threads o3"
      by (auto simp: res(2) same_buffers_def init_signal_stream_def split: prod.splits)
    note deb2 = debt_same [OF fin(1)]
    have "worker_plan ?o2 = worker_plan obj" by (rule worker_plan_cores) (use init_staging_cores [OF s] in simp)
    then show ?thesis using st sb deb deb2 fin res same by (simp add: sw same_buffers_def ac_simps)
  qed
  then show "held lg' = Some (h + signal_debt obj' + staging_debt obj')" "pool_after obj' pool' = pool"
    "num_staging_bufs (po obj') \<le> NUM_STAGING_BUFS"
    "staging_pool_set obj' < 0 \<longrightarrow> (\<forall>b<num_staging_bufs (po obj'). staging_bufs (po obj') b \<noteq> 0)"
    "ok \<Longrightarrow> use_ce (po obj) \<Longrightarrow> (active_gather_workers (po obj'), gather_threads obj') = worker_plan obj"
    by blast+
qed

lemma delete_poller_debt:
  assumes "delete_poller drv sys (obj, pool, lg) = (obj', pool', lg')" "held lg = Some (h + signal_debt obj + staging_debt obj)"
  shows "held lg' = Some h" and "pool' = pool_after obj pool"
proof -
  let ?p = "destroy_signal_stream (fold destroy_tile_event [0..<MAX_PENDING_TILE_EVENTS] (fold destroy_staging_event [0..<NUM_STAGING_BUFS] (po obj)))"
  let ?o = "(poller_stop obj)\<lparr>gather_workers_running := False, gather_threads := drop (active_gather_workers (po obj)) (gather_threads obj), po := ?p\<rparr>"
  obtain o1 q1 l1 where f: "free_signal_buf sys (?o, pool, lg) = (o1, q1, l1)" by (cases "free_signal_buf sys (?o, pool, lg)") auto
  obtain o2 q2 l2 where r: "release_staging sys (o1, q1, l1) = (o2, q2, l2)" by (cases "release_staging sys (o1, q1, l1)") auto
  have res: "pool' = q2" "lg' = l2" using assms(1) f r by (auto simp: delete_poller_def poller_stop_def Let_def split: prod.splits)
  have same: "same_buffers obj ?o" by (simp add: same_buffers_def poller_stop_def)
  note deb = debt_same [OF same]
  have one: "q1 = pool" "held l1 = Some (h + staging_debt obj)" "staging_debt o1 = staging_debt obj" "pool_after o1 = pool_after obj"
  proof -
    have o1: "o1 = ?o \<or> o1 = ?o\<lparr>po := ?p\<lparr>signal_buf_addr := None\<rparr>\<rparr>" using f by (auto simp: free_signal_buf_def split: option.splits)
    then show "staging_debt o1 = staging_debt obj" "pool_after o1 = pool_after obj"
      using own_resources_cong [of "[0..<NUM_STAGING_BUFS]" o1 ?o] deb by (auto simp: staging_debt_def pool_after_def fun_eq_iff)
    show "q1 = pool" using f by (auto simp: free_signal_buf_def split: option.splits)
    have "acquired (FreeHost a, x) = {#}" for a x by (cases x) simp
    then show "held l1 = Some (h + staging_debt obj)" using f assms(2)
      by (auto simp: free_signal_buf_def signal_debt_def held_host poller_stop_def split: option.splits)
  qed
  show "held lg' = Some h" "pool' = pool_after obj pool"
  proof -
    obtain o3 l3 where fr: "free_own_staging sys [0..<NUM_STAGING_BUFS] o1 l1 = (o3, l3)" by fastforce
    have "held l2 = Some h \<and> q2 = pool_after o1 pool"
    proof (cases "0 \<le> staging_pool_set o1")
      case True
      then show ?thesis using r one(1-3) by (auto simp: release_staging_def staging_debt_def pool_after_def [of o1])
    next
      case False
      then have "held l1 = Some (h + own_resources [0..<NUM_STAGING_BUFS] o1)" using one(2,3) by (simp add: staging_debt_def)
      from free_own_staging_held [OF fr this distinct_upt] False r fr one(1) show ?thesis
        by (simp add: release_staging_def pool_after_def)
    qed
    then show "held lg' = Some h" "pool' = pool_after obj pool" using one(4) res by simp_all
  qed
qed

end
