(* ===== verification/Direct_Submit.thy ===== *)
theory Direct_Submit
  imports Poller_Setup
begin

text \<open>
  The direct path (\<open>src/direct_submit.cpp\<close>): a caller's transfer on a copy engine of its own, without the descriptor ring.
  It shares the staging buffers, their events and the gather workers with the polling thread; the model is of one call with
  the polling thread at rest. Elapsed time is left out: the result is whether the call got past its early returns.
\<close>

section \<open>Initialisation\<close>

definition init_direct_ce :: "cu_driver \<Rightarrow> PollerObject \<Rightarrow> bool \<times> PollerObject" where
  "init_direct_ce drv obj =
     (if \<not> use_ce (po obj) then (False, obj)
      else case cu drv CtxGetCurrent (p_trace (po obj)) of (r, ctx, tr) \<Rightarrow>
        if r \<noteq> CUDA_SUCCESS \<or> ctx = 0 then (False, obj\<lparr>po := (po obj)\<lparr>p_trace := tr\<rparr>\<rparr>)
        else case ce_init drv ctx (num_ce_channels obj) (direct_ce obj) tr of (r, ce, tr) \<Rightarrow>
          (r = CUDA_SUCCESS, obj\<lparr>direct_ce := ce, po := (po obj)\<lparr>p_trace := tr\<rparr>\<rparr>))"

section \<open>Submission\<close>

text \<open>An operation of the direct engine whose result is dropped, and a change of the poller's part.\<close>

definition dce_do :: "(CopyEngineManager \<Rightarrow> trace \<Rightarrow> ce_result) \<Rightarrow> PollerObject \<Rightarrow> PollerObject" where
  "dce_do f obj = (case f (direct_ce obj) (p_trace (po obj)) of (_, ce, tr) \<Rightarrow> obj\<lparr>direct_ce := ce, po := (po obj)\<lparr>p_trace := tr\<rparr>\<rparr>)"

definition on_po :: "(Poller \<Rightarrow> Poller) \<Rightarrow> PollerObject \<Rightarrow> PollerObject" where
  "on_po f obj = obj\<lparr>po := f (po obj)\<rparr>"

fun dst_chained :: "SGEntry list \<Rightarrow> bool" where
  "dst_chained (e # f # es) \<longleftrightarrow> sg_dst f = sg_dst e + sg_size e \<and> dst_chained (f # es)"
| "dst_chained _ \<longleftrightarrow> True"

definition PIPELINE_MIN_ENTRIES :: nat where "PIPELINE_MIN_ENTRIES = 512"
definition PIPELINE_CHUNKS :: nat where "PIPELINE_CHUNKS = 3"

text \<open>The chunks of the pipeline, each through the next staging buffer.\<close>

fun direct_chunks :: "cu_driver \<Rightarrow> SGEntry list \<Rightarrow> nat \<Rightarrow> nat \<Rightarrow> nat list \<Rightarrow> PollerObject \<Rightarrow> PollerObject" where
  "direct_chunks drv es num_chunks per [] obj = obj"
| "direct_chunks drv es num_chunks per (c # cs) obj =
     (if length es \<le> c * per then obj
      else let chunk = piece es per c; cur = c mod num_staging_bufs (po obj); staging = staging_bufs (po obj) cur;
               chunk_dst = sg_dst (hd chunk);
               obj = (if num_staging_bufs (po obj) \<le> c \<and> staging_event_pending (po obj) cur
                 then on_po (\<lambda>p. (call (EventSynchronize (staging_events p cur)) p)
                        \<lparr>staging_event_pending := (staging_event_pending p)(cur := False)\<rparr>) obj else obj);
               obj = on_po (gather_into chunk staging chunk_dst) obj;
               obj = dce_do (submit_scatter_gather drv [\<lparr>sg_dst = chunk_dst, sg_src = staging, sg_size = size_sum chunk\<rparr>]) obj;
               obj = (if c + 1 < num_chunks
                 then on_po (\<lambda>p. p\<lparr>staging_event_pending := (staging_event_pending p)(cur := True)\<rparr>)
                        (dce_do (record_event_on_last_stream drv (staging_events (po obj) cur)) obj) else obj)
           in direct_chunks drv es num_chunks per cs obj)"

definition direct_staged :: "cu_driver \<Rightarrow> SGEntry list \<Rightarrow> PollerObject \<Rightarrow> PollerObject" where
  "direct_staged drv es obj =
     (let min_dst = sg_dst (hd es); staging = staging_bufs (po obj) 0;
          single = \<lparr>sg_dst = min_dst, sg_src = staging, sg_size = size_sum es\<rparr>
      in if PIPELINE_MIN_ENTRIES \<le> length es \<and> 2 \<le> num_staging_bufs (po obj) \<and> 0 < active_gather_workers (po obj) then
           (let num_chunks = min PIPELINE_CHUNKS (num_staging_bufs (po obj))
            in direct_chunks drv es num_chunks ((length es + num_chunks - 1) div num_chunks) [0..<num_chunks] obj)
         else if 64 \<le> length es \<and> 0 < active_gather_workers (po obj) then
           dce_do (submit_scatter_gather drv [single]) (on_po (gather_into es staging min_dst) obj)
         else dce_do (submit_scatter_gather drv [single])
                (on_po (\<lambda>p. p\<lparr>p_mem := fold (\<lambda>e. memcpy (staging + (sg_dst e - min_dst)) (sg_src e) (unat (sg_size e))) es (p_mem p)\<rparr>) obj))"

definition direct_transfer_path :: "cu_driver \<Rightarrow> SGEntry list \<Rightarrow> PollerObject \<Rightarrow> PollerObject" where
  "direct_transfer_path drv es obj =
     (if dst_chained es \<and> src_contiguous es \<and> 1 < length es
      then dce_do (submit_scatter_gather drv [\<lparr>sg_dst = sg_dst (hd es), sg_src = sg_src (hd es), sg_size = size_sum es\<rparr>]) obj
      else if dst_chained es \<and> \<not> src_contiguous es \<and> 0 < num_staging_bufs (po obj) \<and> size_sum es \<le> staging_buffer_size (po obj)
      then direct_staged drv es obj
      else dce_do (submit_scatter_gather drv es) obj)"

definition submit_direct :: "cu_driver \<Rightarrow> SGEntry list \<Rightarrow> PollerObject \<Rightarrow> bool \<times> PollerObject" where
  "submit_direct drv es obj =
     (if \<not> ce_initialized (direct_ce obj) \<or> es = [] then (False, obj)
      else case pin_context drv (direct_ce obj) (p_trace (po obj)) of (r, ce, tr) \<Rightarrow>
        let obj = obj\<lparr>direct_ce := ce, po := (po obj)\<lparr>p_trace := tr\<rparr>\<rparr>
        in if r \<noteq> CUDA_SUCCESS then (False, obj)
           else let obj = dce_do (wait_completion drv) (direct_transfer_path drv es obj);
                    obj = on_po (\<lambda>p. p\<lparr>staging_event_pending := fold (\<lambda>b f. f(b := False)) [0..<num_staging_bufs p] (staging_event_pending p)\<rparr>) obj;
                    obj = dce_do (\<lambda>ce tr. case unpin_context drv ce tr of (ce, tr) \<Rightarrow> ce_return ce tr) obj
                in (True, on_po (\<lambda>p. add_stats (length es) 0 1 (add_bytes es p)) obj))"

section \<open>Chunks through buffers\<close>

text \<open>A chunk whose destinations follow one another is one run of its image in the buffer.\<close>

lemma chained_run:
  "dst_chained (e # es) \<Longrightarrow> sg_dst e + sg_size e = rs + sz \<Longrightarrow>
     dst_runs_from b d rs sz es = [\<lparr>sg_dst = rs, sg_src = b + (rs - d), sg_size = sz + size_sum es\<rparr>]"
proof (induction es arbitrary: e sz)
  case (Cons f es)
  have f: "sg_dst f = rs + sz" using Cons.prems by simp
  have "dst_runs_from b d rs (sz + sg_size f) es = [\<lparr>sg_dst = rs, sg_src = b + (rs - d), sg_size = sz + sg_size f + size_sum es\<rparr>]"
    using Cons.prems f by (intro Cons.IH [of f]) simp_all
  with f show ?case by (simp add: add.assoc)
qed simp

lemma chained_runs: "dst_chained (e # es) \<Longrightarrow> dst_runs b (sg_dst e) (e # es) = [\<lparr>sg_dst = sg_dst e, sg_src = b, sg_size = size_sum (e # es)\<rparr>]"
  using chained_run [of e es "sg_dst e" "sg_size e" b "sg_dst e"] by simp

lemma chained_regions:
  assumes "dst_chained (f # es)" "sg_dst f = d + of_nat k" "e \<in> set (f # es)" "k + bytes (f # es) < 2 ^ 64"
  shows "dst_region e \<subseteq> region d (k + bytes (f # es))"
  using assms
proof (induction es arbitrary: f k)
  case Nil
  then show ?case using region_add [of k "unat (sg_size f)" d] by auto
next
  case (Cons g es)
  have split: "region d (k + unat (sg_size f)) = region d k \<union> region (d + of_nat k) (unat (sg_size f))"
    using Cons.prems(4) by (intro region_add) simp
  show ?case
  proof (cases "e = f")
    case True
    then have "dst_region e \<subseteq> region d (k + unat (sg_size f))" using split Cons.prems(2) by auto
    also have "\<dots> \<subseteq> region d (k + bytes (f # g # es))" by (rule region_mono) simp
    finally show ?thesis .
  next
    case False
    have "(of_nat (unat (sg_size f)) :: u64) = sg_size f" by simp
    then have "sg_dst g = d + of_nat (k + unat (sg_size f))" using Cons.prems(1,2) by (simp add: add.assoc)
    then have "dst_region e \<subseteq> region d (k + unat (sg_size f) + bytes (g # es))"
      using Cons.prems(1,3,4) False by (intro Cons.IH) simp_all
    then show ?thesis by (simp add: add.assoc)
  qed
qed

text \<open>
  A list of chunks, each with a buffer: the entries through their buffers, and the image of the buffer at the destinations.
\<close>

type_synonym buffered = "SGEntry list \<times> u64"

definition via :: "(u64 \<Rightarrow> u64 \<Rightarrow> SGEntry \<Rightarrow> SGEntry) \<Rightarrow> buffered list \<Rightarrow> SGEntry list" where
  "via f bs = concat (map (\<lambda>(c, b). map (f b (sg_dst (hd c))) c) bs)"

lemma via_simps [simp]: "via f [] = []" "via f ((c, b) # bs) = map (f b (sg_dst (hd c))) c @ via f bs"
  by (simp_all add: via_def)

definition run_of :: "buffered \<Rightarrow> SGEntry" where
  "run_of = (\<lambda>(c, b). \<lparr>sg_dst = sg_dst (hd c), sg_src = b, sg_size = size_sum c\<rparr>)"

definition chunk_ok :: "nat \<Rightarrow> SGEntry list \<Rightarrow> buffered \<Rightarrow> bool" where
  "chunk_ok n es = (\<lambda>(c, b). c \<noteq> [] \<and> dst_chained c \<and> bytes c \<le> n \<and>
     (\<forall>e\<in>set es. disjnt (src_region e) (region b n) \<and> disjnt (dst_region e) (region b n)))"

lemma chunk_fits:
  assumes "chunk_ok n es (c, b)" "set c \<subseteq> set es" "bytes c < 2 ^ 64"
  shows "staging_fits b (sg_dst (hd c)) n c"
proof -
  obtain f fs where c: "c = f # fs" using assms(1) by (cases c) (auto simp: chunk_ok_def)
  have "dst_region e \<subseteq> region (sg_dst f) n" if "e \<in> set c" for e
  proof -
    have "dst_region e \<subseteq> region (sg_dst f) (0 + bytes (f # fs))"
      using assms(1,3) that by (intro chained_regions) (simp_all add: chunk_ok_def c)
    also have "\<dots> \<subseteq> region (sg_dst f) n" using assms(1) by (intro region_mono) (simp add: chunk_ok_def c)
    finally show ?thesis .
  qed
  then show ?thesis using assms(1,2) by (auto simp: staging_fits_def chunk_ok_def c)
qed

lemma via_dsts: "e \<in> set (via mirrored bs) \<Longrightarrow> \<exists>f\<in>set (concat (map fst bs)). dst_region e = dst_region f"
  by (induction bs) (auto simp: via_def)

text \<open>Every image comes from its own buffer.\<close>

definition via_ok :: "nat \<Rightarrow> SGEntry list \<Rightarrow> buffered list \<Rightarrow> bool" where
  "via_ok n es bs \<longleftrightarrow> dst_disjoint (via staged bs) \<and> (\<forall>e\<in>set (via staged bs). \<exists>b\<in>snd ` set bs. dst_region e \<subseteq> region b n)
     \<and> dst_disjoint (via mirrored bs) \<and> (\<forall>e\<in>set (via mirrored bs). \<exists>b\<in>snd ` set bs. src_region e \<subseteq> region b n)
     \<and> (\<forall>e\<in>set (via staged bs). \<exists>f\<in>set es. src_region e = src_region f)"

lemma via_separate:
  assumes "separate (concat (map fst bs))" "bytes (concat (map fst bs)) < 2 ^ 64" "\<forall>cb\<in>set bs. chunk_ok n es cb"
    and "set (concat (map fst bs)) \<subseteq> set es" "sorted_wrt (\<lambda>b b'. disjnt (region b n) (region b' n)) (map snd bs)"
  shows "via_ok n es bs"
  using assms
proof (induction bs)
  case (Cons cb bs)
  obtain c b where cb: "cb = (c, b)" by (cases cb)
  have fits: "staging_fits b (sg_dst (hd c)) n c" using Cons.prems by (intro chunk_fits [of n es]) (auto simp: cb)
  have "separate (c @ concat (map fst bs))" using Cons.prems(1) by (simp add: cb)
  then have sc: "separate c" "separate (concat (map fst bs))" by (rule separate_appendD1, rule separate_appendD2)
  note IH = Cons.IH [OF sc(2)]
  have ih: "dst_disjoint (via staged bs)" "\<forall>e\<in>set (via staged bs). \<exists>b\<in>snd ` set bs. dst_region e \<subseteq> region b n"
    "dst_disjoint (via mirrored bs)" "\<forall>e\<in>set (via mirrored bs). \<exists>b\<in>snd ` set bs. src_region e \<subseteq> region b n"
    "\<forall>e\<in>set (via staged bs). \<exists>f\<in>set es. src_region e = src_region f"
    using IH Cons.prems by (simp_all add: cb via_ok_def)
  have inb: "\<forall>e\<in>set c. dst_region (staged b (sg_dst (hd c)) e) \<subseteq> region b n" using staged_in_buffer [OF fits] by simp
  have apart: "\<forall>b'\<in>snd ` set bs. disjnt (region b n) (region b' n)" using Cons.prems(5) by (auto simp: cb)
  have 1: "dst_disjoint (via staged (cb # bs))"
  proof -
    have "dst_disjoint (map (staged b (sg_dst (hd c))) c)" using separate_staged [OF sc(1) fits] by (simp add: separate_def)
    moreover have "disjnt (dst_region (staged b (sg_dst (hd c)) e)) (dst_region f)" if "e \<in> set c" "f \<in> set (via staged bs)" for e f
      using inb apart ih(2) that by (meson disjnt_subset1 disjnt_subset2)
    ultimately show ?thesis using ih(1) by (simp add: cb)
  qed
  have 2: "\<forall>e\<in>set (via staged (cb # bs)). \<exists>b\<in>snd ` set (cb # bs). dst_region e \<subseteq> region b n" using inb ih(2) by (simp add: cb ball_Un)
  have 3: "\<forall>e\<in>set (via mirrored (cb # bs)). \<exists>b\<in>snd ` set (cb # bs). src_region e \<subseteq> region b n"
    using staged_in_buffer [OF fits] ih(4) by (simp add: cb ball_Un)
  have 4: "\<forall>e\<in>set (via staged (cb # bs)). \<exists>f\<in>set es. src_region e = src_region f" using ih(5) Cons.prems(4) by (auto simp: cb)
  have 5: "dst_disjoint (via mirrored (cb # bs))"
  proof -
    have "dst_disjoint (map (mirrored b (sg_dst (hd c))) c)" using sc(1) by (simp add: separate_def dst_disjoint_def sorted_wrt_map)
    moreover have "disjnt (dst_region (mirrored b (sg_dst (hd c)) e)) (dst_region f)" if e: "e \<in> set c" and f: "f \<in> set (via mirrored bs)" for e f
    proof -
      obtain g where "g \<in> set (concat (map fst bs))" "dst_region f = dst_region g" using via_dsts [OF f] by blast
      then show ?thesis using Cons.prems(1) e by (auto simp: cb separate_def)
    qed
    ultimately show ?thesis using ih(3) by (simp add: cb)
  qed
  from 1 2 3 4 5 show ?case by (simp only: via_ok_def)
qed (simp add: via_ok_def)

lemma via_in:
  assumes "(c, b) \<in> set bs" "e \<in> set c"
  shows "f b (sg_dst (hd c)) e \<in> set (via f bs)"
  using assms by (auto simp: via_def)

text \<open>Gathering all chunks and then copying all images is copying the entries, outside the buffers.\<close>

lemma through_buffers:
  assumes "separate (concat (map fst bs))" "bytes (concat (map fst bs)) < 2 ^ 64" "\<forall>cb\<in>set bs. chunk_ok n es cb"
    and "set (concat (map fst bs)) = set es" "sorted_wrt (\<lambda>b b'. disjnt (region b n) (region b' n)) (map snd bs)"
    and a: "\<forall>b\<in>snd ` set bs. a \<notin> region b n"
  shows "dmas (via mirrored bs) (dmas (via staged bs) m) a = dmas (concat (map fst bs)) m a"
proof -
  let ?m = "dmas (via staged bs) m" and ?es = "concat (map fst bs)"
  have v: "via_ok n es bs" by (rule via_separate [OF assms(1-3) equalityD1 [OF assms(4)] assms(5)])
  have bufs: "\<forall>e\<in>set es. disjnt (src_region e) (region b n) \<and> disjnt (dst_region e) (region b n)" if "b \<in> snd ` set bs" for b
    using assms(3) that by (fastforce simp: chunk_ok_def)
  have "disjnt (src_region e) (dst_region f)" if e: "e \<in> set (via staged bs)" and f: "f \<in> set (via staged bs)" for e f
  proof -
    obtain b where b: "b \<in> snd ` set bs" "dst_region f \<subseteq> region b n" using v f unfolding via_ok_def by blast
    obtain g where g: "g \<in> set es" "src_region e = src_region g" using v e unfolding via_ok_def by blast
    have "disjnt (src_region g) (region b n)" using bufs [OF b(1)] g(1) by simp
    then show ?thesis unfolding g(2) using b(2) by (rule disjnt_subset2)
  qed
  then have ss: "separate (via staged bs)" using v by (auto simp: separate_def src_dst_disjoint_def via_ok_def)
  have "disjnt (src_region e) (dst_region f)" if e: "e \<in> set (via mirrored bs)" and f: "f \<in> set (via mirrored bs)" for e f
  proof -
    obtain b where b: "b \<in> snd ` set bs" "src_region e \<subseteq> region b n" using v e unfolding via_ok_def by blast
    obtain g where g: "g \<in> set es" "dst_region f = dst_region g" using via_dsts [OF f] assms(4) by blast
    have "disjnt (region b n) (dst_region g)" using bufs [OF b(1)] g(1) by (simp add: disjnt_sym)
    then show ?thesis unfolding g(2) using b(2) by (rule disjnt_subset1)
  qed
  then have sm: "separate (via mirrored bs)" using v by (auto simp: separate_def src_dst_disjoint_def via_ok_def)
  show ?thesis
  proof (cases "\<exists>e\<in>set ?es. a \<in> dst_region e")
    case True
    then obtain c b e where e: "(c, b) \<in> set bs" "e \<in> set c" "a \<in> dst_region e" by auto
    let ?d = "sg_dst (hd c)"
    have "dmas (via mirrored bs) ?m a = ?m (b + (a - ?d))"
      using dmas_in [OF sm via_in [OF e(1,2)], of a ?m] e(3) by (simp add: algebra_simps)
    also have "\<dots> = m (sg_src e + (a - sg_dst e))"
      using dmas_in [OF ss via_in [OF e(1,2)], of "b + (a - ?d)" m] mirror_of_dst [OF e(3), of b ?d] by (simp add: algebra_simps)
    also have "\<dots> = dmas ?es m a" using e by (intro dmas_in [OF assms(1), symmetric]) (auto intro: bexI [of _ "(c, b)"])
    finally show ?thesis .
  next
    case False
    have "?m a = m a" using v a unfolding via_ok_def by (intro dmas_out) blast
    moreover have "dmas (via mirrored bs) ?m a = ?m a" using via_dsts [of _ bs] False by (intro dmas_out) metis
    moreover have "dmas ?es m a = m a" using False by (intro dmas_out) blast
    ultimately show ?thesis by simp
  qed
qed

lemma run_of_chunk:
  assumes "chunk_ok n es (c, b)" "set c \<subseteq> set es" "bytes c < 2 ^ 64" "separate c"
  shows "dma (run_of (c, b)) m = dmas (map (mirrored b (sg_dst (hd c))) c) m"
proof -
  obtain f fs where c: "c = f # fs" using assms(1) by (cases c) (auto simp: chunk_ok_def)
  have "dmas [run_of (c, b)] m = dmas (dst_runs b (sg_dst (hd c)) c) m"
    using assms(1) chained_runs [of f fs b] by (simp add: run_of_def c chunk_ok_def)
  also have "\<dots> = dmas (map (mirrored b (sg_dst (hd c))) c) m"
    unfolding dst_runs_mirrored using assms(3)
    by (intro coalesce_correct separate_mirrored [OF assms(4) chunk_fits [OF assms(1-3)]]) simp
  finally show ?thesis by simp
qed

lemma runs_of_chunks:
  assumes "separate (concat (map fst bs))" "bytes (concat (map fst bs)) < 2 ^ 64" "\<forall>cb\<in>set bs. chunk_ok n es cb"
    and "set (concat (map fst bs)) \<subseteq> set es"
  shows "dmas (map run_of bs) m = dmas (via mirrored bs) m"
  using assms
proof (induction bs arbitrary: m)
  case (Cons cb bs)
  obtain c b where cb: "cb = (c, b)" by (cases cb)
  have "separate (c @ concat (map fst bs))" using Cons.prems(1) by (simp add: cb)
  then have sc: "separate c" "separate (concat (map fst bs))" by (rule separate_appendD1, rule separate_appendD2)
  have "dma (run_of cb) m = dmas (map (mirrored b (sg_dst (hd c))) c) m"
    unfolding cb using Cons.prems sc(1) by (intro run_of_chunk [of n es]) (simp_all add: cb)
  then show ?case using Cons.IH [OF sc(2)] Cons.prems by (simp add: cb)
qed simp

section \<open>What the call issues\<close>

text \<open>The state as the lemmas about the polling thread see it, with the direct engine in the engine's place.\<close>

definition direct_view :: "PollerObject \<Rightarrow> Poller" where
  "direct_view obj = (po obj)\<lparr>p_ce := direct_ce obj\<rparr>"

lemma direct_view_fields [simp]:
  "p_ce (direct_view obj) = direct_ce obj" "p_trace (direct_view obj) = p_trace (po obj)" "p_mem (direct_view obj) = p_mem (po obj)"
  by (simp_all add: direct_view_def)

lemma direct_view_dce: "direct_view (dce_do f obj) = ce_do f (direct_view obj)"
  by (simp add: direct_view_def dce_do_def ce_do_def split: prod.split)

lemma on_po_frame [simp]: "direct_ce (on_po f obj) = direct_ce obj" "po (on_po f obj) = f (po obj)"
  by (simp_all add: on_po_def)

lemma dce_frame [simp]: "p_mem (po (dce_do f obj)) = p_mem (po obj)" "staging_bufs (po (dce_do f obj)) = staging_bufs (po obj)"
  "num_staging_bufs (po (dce_do f obj)) = num_staging_bufs (po obj)" "staging_buffer_size (po (dce_do f obj)) = staging_buffer_size (po obj)"
  by (simp_all add: dce_do_def split: prod.split)

lemma gather_frame [simp]: "staging_bufs (gather_into es b d p) = staging_bufs p" "num_staging_bufs (gather_into es b d p) = num_staging_bufs p"
  "staging_buffer_size (gather_into es b d p) = staging_buffer_size p"
  by (simp_all add: gather_into_def)

definition sends :: "PollerObject \<Rightarrow> PollerObject \<Rightarrow> SGEntry list \<Rightarrow> bool" where
  "sends obj obj' cs \<longleftrightarrow> ce_wf (direct_ce obj') \<and> issues (po obj) (po obj') cs \<and> staging_bufs (po obj') = staging_bufs (po obj)
     \<and> num_staging_bufs (po obj') = num_staging_bufs (po obj) \<and> staging_buffer_size (po obj') = staging_buffer_size (po obj)"

lemma sends_trans: "sends a b es \<Longrightarrow> sends b c fs \<Longrightarrow> sends a c (es @ fs)"
  using issues_trans by (auto simp: sends_def)

lemma sends_submit:
  assumes "all_succeed drv" "ce_wf (direct_ce obj)"
  shows "sends obj (dce_do (submit_scatter_gather drv es) obj) es"
proof -
  note s = submit_issues [OF assms(1), of "direct_view obj" es, simplified, OF assms(2)]
  then show ?thesis using direct_view_dce [of "submit_scatter_gather drv es" obj, symmetric]
    by (simp add: sends_def issues_def)
qed

lemma sends_record:
  assumes "all_succeed drv" "ce_wf (direct_ce obj)"
  shows "sends obj (dce_do (record_event_on_last_stream drv ev) obj) []"
proof -
  note r = record_issues [OF assms(1), of "direct_view obj" ev, simplified, OF assms(2)]
  then show ?thesis using assms(2) direct_view_dce [of "record_event_on_last_stream drv ev" obj, symmetric]
    by (simp add: sends_def issues_def)
qed

lemma sends_gather: "ce_wf (direct_ce obj) \<Longrightarrow> sends obj (on_po (gather_into es b d) obj) []"
  by (simp add: sends_def issues_refl)

text \<open>The chunks of the pipeline, each with its buffer; no buffer is used twice.\<close>

definition chunks_in :: "SGEntry list \<Rightarrow> nat \<Rightarrow> (nat \<Rightarrow> u64) \<Rightarrow> nat list \<Rightarrow> buffered list" where
  "chunks_in es per bufs cs = map (\<lambda>c. (piece es per c, bufs c)) (takeWhile (\<lambda>c. c * per < length es) cs)"

lemma direct_chunks_sends:
  assumes "all_succeed drv" "ce_wf (direct_ce obj)" "\<forall>c\<in>set cs. c < num_staging_bufs (po obj)"
    and "\<forall>cb\<in>set (chunks_in es per (staging_bufs (po obj)) cs). case cb of (c, b) \<Rightarrow> src_dst_disjoint (map (staged b (sg_dst (hd c))) c)"
  shows "sends obj (direct_chunks drv es nc per cs obj) (map run_of (chunks_in es per (staging_bufs (po obj)) cs))
    \<and> p_mem (po (direct_chunks drv es nc per cs obj)) = dmas (via staged (chunks_in es per (staging_bufs (po obj)) cs)) (p_mem (po obj))"
  using assms(2-4)
proof (induction cs arbitrary: obj)
  case Nil
  then show ?case by (simp add: chunks_in_def sends_def issues_refl)
next
  case (Cons c cs)
  show ?case
  proof (cases "length es \<le> c * per")
    case True
    then show ?thesis using Cons.prems(1) by (simp add: chunks_in_def sends_def issues_refl)
  next
    case False
    let ?k = "piece es per c" and ?b = "staging_bufs (po obj) c"
    let ?d = "sg_dst (hd ?k)"
    let ?o1 = "on_po (gather_into ?k ?b ?d) obj"
    let ?o2 = "dce_do (submit_scatter_gather drv [run_of (?k, ?b)]) ?o1"
    let ?o3 = "if c + 1 < nc then on_po (\<lambda>p. p\<lparr>staging_event_pending := (staging_event_pending p)(c := True)\<rparr>)
      (dce_do (record_event_on_last_stream drv (staging_events (po ?o2) c)) ?o2) else ?o2"
    have c: "c < num_staging_bufs (po obj)" using Cons.prems(2) by simp
    have step: "direct_chunks drv es nc per (c # cs) obj = direct_chunks drv es nc per cs ?o3"
      using False c by (simp add: Let_def run_of_def)
    have s1: "sends obj ?o1 []" using Cons.prems(1) by (rule sends_gather)
    then have s2: "sends obj ?o2 [run_of (?k, ?b)]" using sends_trans [OF s1 sends_submit [OF assms(1)]] by (simp add: sends_def)
    have s3: "sends obj ?o3 [run_of (?k, ?b)]"
    proof (cases "c + 1 < nc")
      case True
      have "sends obj (dce_do (record_event_on_last_stream drv (staging_events (po ?o2) c)) ?o2) ([run_of (?k, ?b)] @ [])"
        using s2 by (intro sends_trans [OF s2 sends_record [OF assms(1)]]) (simp add: sends_def)
      then show ?thesis using True by (simp add: sends_def issues_def)
    next
      case False
      then show ?thesis using s2 by simp
    qed
    have chunks: "chunks_in es per (staging_bufs (po obj)) (c # cs) = (?k, ?b) # chunks_in es per (staging_bufs (po ?o3)) cs"
      using False s3 by (simp add: chunks_in_def sends_def)
    have mem: "p_mem (po ?o3) = dmas (map (staged ?b ?d) ?k) (p_mem (po obj))"
      using Cons.prems(3) chunks by (simp add: gather_into_mem)
    obtain o3 where o3: "direct_chunks drv es nc per (c # cs) obj = direct_chunks drv es nc per cs o3" "sends obj o3 [run_of (?k, ?b)]"
      "chunks_in es per (staging_bufs (po obj)) (c # cs) = (?k, ?b) # chunks_in es per (staging_bufs (po o3)) cs"
      "p_mem (po o3) = dmas (map (staged ?b ?d) ?k) (p_mem (po obj))"
      using that [OF step s3 chunks mem] .
    have "sends o3 (direct_chunks drv es nc per cs o3) (map run_of (chunks_in es per (staging_bufs (po o3)) cs))
      \<and> p_mem (po (direct_chunks drv es nc per cs o3)) = dmas (via staged (chunks_in es per (staging_bufs (po o3)) cs)) (p_mem (po o3))"
      using o3(2,3) Cons.prems(2,3) by (intro Cons.IH) (simp_all add: sends_def)
    then show ?thesis using sends_trans [OF o3(2)] unfolding o3(1,3) by (fastforce simp: o3(4))
  qed
qed

lemma dst_chained_tl: "dst_chained es \<Longrightarrow> dst_chained (tl es)"
  by (cases es rule: dst_chained.cases) simp_all

lemma dst_chained_drop: "dst_chained es \<Longrightarrow> dst_chained (drop k es)"
  by (induction k arbitrary: es) (simp_all add: drop_Suc dst_chained_tl)

lemma dst_chained_take: "dst_chained es \<Longrightarrow> dst_chained (take k es)"
proof (induction k arbitrary: es)
  case (Suc k)
  show ?case
  proof (cases es rule: dst_chained.cases)
    case (1 e f fs)
    then have "dst_chained (take k (f # fs))" "sg_dst f = sg_dst e + sg_size e" using Suc by simp_all
    then show ?thesis using 1 by (cases k) simp_all
  qed simp_all
qed simp

lemma chained_contiguous: "dst_chained es \<Longrightarrow> src_contiguous es \<Longrightarrow> fully_contiguous es"
  by (induction es rule: dst_chained.induct) (auto simp: contig_def)

lemma piece_subset: "set (piece es per c) \<subseteq> set es" "bytes (piece es per c) \<le> bytes es"
proof -
  show "set (piece es per c) \<subseteq> set es" unfolding piece_def by (meson order_trans set_take_subset set_drop_subset)
  have "bytes (take k xs) \<le> bytes xs" "bytes (drop k xs) \<le> bytes xs" for k xs
    by (metis append_take_drop_id bytes_simps(3) le_add1, metis append_take_drop_id bytes_simps(3) le_add2)
  then show "bytes (piece es per c) \<le> bytes es" unfolding piece_def by (meson order_trans)
qed

lemma takeWhile_upt: "\<exists>k\<le>n. takeWhile P [0..<n] = [0..<k]"
proof -
  have "takeWhile P [0..<n] = take (length (takeWhile P [0..<n])) [0..<n]" by (rule takeWhile_eq_take)
  moreover have "length (takeWhile P [0..<n]) \<le> n" using length_takeWhile_le [of P "[0..<n]"] by simp
  ultimately show ?thesis by (metis take_upt add_0)
qed

lemma pieces_until_empty: "concat (map (piece es per) (takeWhile (\<lambda>c. c * per < length es) [a..<n])) = concat (map (piece es per) [a..<n])"
proof (induction "n - a" arbitrary: a)
  case (Suc m)
  then have up: "[a..<n] = a # [Suc a..<n]" by (intro upt_conv_Cons) simp
  show ?case
  proof (cases "a * per < length es")
    case True
    then show ?thesis using Suc.hyps(1) [of "Suc a"] Suc.hyps(2) by (simp add: up)
  next
    case False
    have "piece es per c = []" if "c \<in> set [a..<n]" for c
    proof (rule piece_Nil)
      have "a * per \<le> c * per" using that by (intro mult_le_mono1) simp
      with False show "length es \<le> c * per" by linarith
    qed
    then have "concat (map (piece es per) [a..<n]) = []" by (subst concat_eq_Nil_conv) auto
    then show ?thesis using False by (simp add: up)
  qed
qed simp

text \<open>The caller's entries are apart from one another and from every staging buffer, and the buffers from one another.\<close>

definition direct_ok :: "PollerObject \<Rightarrow> SGEntry list \<Rightarrow> bool" where
  "direct_ok obj es \<longleftrightarrow> separate es \<and> bytes es < 2 ^ 64 \<and>
     (let buffer = \<lambda>b. region (staging_bufs (po obj) b) (unat (staging_buffer_size (po obj))) in
      (\<forall>b<num_staging_bufs (po obj). \<forall>e\<in>set es. disjnt (src_region e) (buffer b) \<and> disjnt (dst_region e) (buffer b))
      \<and> (\<forall>c<num_staging_bufs (po obj). \<forall>b<c. disjnt (buffer b) (buffer c)))"

definition in_buffers :: "PollerObject \<Rightarrow> u64 \<Rightarrow> bool" where
  "in_buffers obj a \<longleftrightarrow> (\<exists>b<num_staging_bufs (po obj). a \<in> region (staging_bufs (po obj) b) (unat (staging_buffer_size (po obj))))"

definition delivers :: "PollerObject \<Rightarrow> PollerObject \<Rightarrow> SGEntry list \<Rightarrow> bool" where
  "delivers obj obj' es \<longleftrightarrow> (\<exists>cs. sends obj obj' cs \<and>
     (\<forall>a. \<not> in_buffers obj a \<longrightarrow> dmas cs (p_mem (po obj')) a = dmas es (p_mem (po obj)) a))"

lemma delivers_chunks:
  assumes "direct_ok obj es" "concat (map fst bs) = es" "map snd bs = map (staging_bufs (po obj)) [0..<k]" "k \<le> num_staging_bufs (po obj)"
    and "\<forall>(c, b)\<in>set bs. c \<noteq> [] \<and> dst_chained c" "bytes es \<le> unat (staging_buffer_size (po obj))"
  shows "\<forall>cb\<in>set bs. case cb of (c, b) \<Rightarrow> src_dst_disjoint (map (staged b (sg_dst (hd c))) c)"
    and "sends obj obj' (map run_of bs) \<Longrightarrow> p_mem (po obj') = dmas (via staged bs) (p_mem (po obj)) \<Longrightarrow> delivers obj obj' es"
proof -
  let ?n = "unat (staging_buffer_size (po obj))"
  have bufs: "snd ` set bs = staging_bufs (po obj) ` {..<k}" using arg_cong [OF assms(3), of set] by (simp add: atLeast0LessThan)
  have sub: "set c \<subseteq> set es \<and> bytes c \<le> bytes es" if cb: "(c, b) \<in> set bs" for c b
  proof -
    obtain xs ys where "bs = xs @ (c, b) # ys" using split_list [OF cb] by blast
    then have "es = concat (map fst xs) @ c @ concat (map fst ys)" using assms(2) by simp
    then show ?thesis by auto
  qed
  have ok: "chunk_ok ?n es (c, b)" if cb: "(c, b) \<in> set bs" for c b
  proof -
    have "b \<in> staging_bufs (po obj) ` {..<k}" using bufs cb by force
    then obtain j where "b = staging_bufs (po obj) j" "j < num_staging_bufs (po obj)" using assms(4) by auto
    then show ?thesis using cb assms(1,5,6) sub [OF cb] by (auto simp: chunk_ok_def direct_ok_def Let_def)
  qed
  have sorted: "sorted_wrt (\<lambda>b b'. disjnt (region b ?n) (region b' ?n)) (map snd bs)"
    unfolding assms(3) sorted_wrt_iff_nth_less using assms(1,4) by (simp add: direct_ok_def Let_def)
  have es: "separate (concat (map fst bs))" "bytes (concat (map fst bs)) < 2 ^ 64" using assms(1,2) by (simp_all add: direct_ok_def)
  have oks: "\<forall>cb\<in>set bs. chunk_ok ?n es cb" using ok by (auto simp: split_paired_all)
  have seteq: "set (concat (map fst bs)) = set es" by (simp only: assms(2))
  show "\<forall>cb\<in>set bs. case cb of (c, b) \<Rightarrow> src_dst_disjoint (map (staged b (sg_dst (hd c))) c)"
  proof clarify
    fix c b assume cb: "(c, b) \<in> set bs"
    obtain xs ys where "bs = xs @ (c, b) # ys" using split_list [OF cb] by blast
    then have "es = concat (map fst xs) @ c @ concat (map fst ys)" using assms(2) by simp
    then have "separate c" using es(1) assms(2) separate_appendD1 separate_appendD2 by metis
    moreover have "staging_fits b (sg_dst (hd c)) ?n c"
      using ok [OF cb] sub [OF cb] es(2) assms(2) by (intro chunk_fits [of _ es]) simp_all
    ultimately show "src_dst_disjoint (map (staged b (sg_dst (hd c))) c)" using separate_staged by (simp add: separate_def)
  qed
  assume s: "sends obj obj' (map run_of bs)" and m: "p_mem (po obj') = dmas (via staged bs) (p_mem (po obj))"
  have "dmas (map run_of bs) (p_mem (po obj')) a = dmas es (p_mem (po obj)) a" if a: "\<not> in_buffers obj a" for a
  proof -
    have "\<forall>b\<in>snd ` set bs. a \<notin> region b ?n" using a assms(4) unfolding bufs by (auto simp: in_buffers_def)
    from through_buffers [OF es oks seteq sorted this] show ?thesis
      unfolding m runs_of_chunks [OF es oks equalityD1 [OF seteq]] by (simp add: assms(2))
  qed
  with s show "delivers obj obj' es" unfolding delivers_def by blast
qed

lemma delivers_staged:
  assumes "all_succeed drv" "ce_wf (direct_ce obj)" "direct_ok obj es" "es \<noteq> []" "dst_chained es"
    and "0 < num_staging_bufs (po obj)" "size_sum es \<le> staging_buffer_size (po obj)"
  shows "delivers obj (direct_staged drv es obj) es"
proof -
  have room: "bytes es \<le> unat (staging_buffer_size (po obj))"
    using assms(3,7) unat_size_sum [of es] by (simp add: direct_ok_def word_le_nat_alt)
  show ?thesis
  proof (cases "PIPELINE_MIN_ENTRIES \<le> length es \<and> 2 \<le> num_staging_bufs (po obj) \<and> 0 < active_gather_workers (po obj)")
    case True
    define nc where "nc = min PIPELINE_CHUNKS (num_staging_bufs (po obj))"
    define per where "per = (length es + nc - 1) div nc"
    define bs where "bs = chunks_in es per (staging_bufs (po obj)) [0..<nc]"
    have nc: "0 < nc" "nc \<le> num_staging_bufs (po obj)" using assms(6) by (simp_all add: nc_def PIPELINE_CHUNKS_def)
    have q: "direct_staged drv es obj = direct_chunks drv es nc per [0..<nc] obj"
      using True by (simp add: direct_staged_def Let_def nc_def per_def)
    obtain k where k: "k \<le> nc" "takeWhile (\<lambda>c. c * per < length es) [0..<nc] = [0..<k]" using takeWhile_upt by blast
    have "concat (map (piece es per) [0..<nc]) = es" unfolding per_def by (rule pieces_all [OF ceil_div_covers [OF nc(1)]])
    then have "concat (map (piece es per) [0..<k]) = es" using pieces_until_empty [of es per 0 nc] k(2) by simp
    then have es: "concat (map fst bs) = es" by (simp add: bs_def chunks_in_def k(2) comp_def)
    have snd: "map snd bs = map (staging_bufs (po obj)) [0..<k]" by (simp add: bs_def chunks_in_def k(2))
    have kn: "k \<le> num_staging_bufs (po obj)" using k(1) nc(2) by simp
    have len: "c * per < length es" if "c < k" for c
    proof -
      have "c \<in> set (takeWhile (\<lambda>c. c * per < length es) [0..<nc])" using that by (simp add: k(2))
      then show ?thesis by (drule_tac set_takeWhileD) simp
    qed
    have per: "0 < per" using assms(4) nc(1) by (cases es) (simp_all add: per_def div_greater_zero_iff)
    have chained: "\<forall>(c, b)\<in>set bs. c \<noteq> [] \<and> dst_chained c"
    proof (clarsimp simp: bs_def chunks_in_def k(2))
      fix c assume "c < k"
      then show "piece es per c \<noteq> [] \<and> dst_chained (piece es per c)"
        using len [of c] per assms(5) by (simp add: piece_def dst_chained_take dst_chained_drop)
    qed
    note d = delivers_chunks [OF assms(3) es snd kn chained room]
    have small: "\<forall>c\<in>set [0..<nc]. c < num_staging_bufs (po obj)" using nc(2) by simp
    note run = direct_chunks_sends [OF assms(1,2) small d(1) [unfolded bs_def], of nc, folded bs_def q]
    show ?thesis by (rule d(2)) (use run in simp_all)
  next
    case False
    define bs where "bs = [(es, staging_bufs (po obj) 0)]"
    have es: "concat (map fst bs) = es" and snd: "map snd bs = map (staging_bufs (po obj)) [0..<1]"
      and chained: "\<forall>(c, b)\<in>set bs. c \<noteq> [] \<and> dst_chained c" and one: "1 \<le> num_staging_bufs (po obj)"
      using assms(4-6) by (simp_all add: bs_def)
    note d = delivers_chunks [OF assms(3) es snd one chained room]
    have sd: "src_dst_disjoint (map (staged (staging_bufs (po obj) 0) (sg_dst (hd es))) es)" using d(1) by (simp add: bs_def)
    have mem: "fold (\<lambda>e. memcpy (b + (sg_dst e - d)) (sg_src e) (unat (sg_size e))) es m = dmas (map (staged b d) es) m" for b d m
      by (induction es arbitrary: m) (simp_all add: dma_def)
    have "sends obj (direct_staged drv es obj) (map run_of bs) \<and> p_mem (po (direct_staged drv es obj)) = dmas (via staged bs) (p_mem (po obj))"
    proof (cases "64 \<le> length es \<and> 0 < active_gather_workers (po obj)")
      case True
      have s: "sends obj (on_po (gather_into es (staging_bufs (po obj) 0) (sg_dst (hd es))) obj) []" using assms(2) by (rule sends_gather)
      have "sends obj (dce_do (submit_scatter_gather drv (map run_of bs)) (on_po (gather_into es (staging_bufs (po obj) 0) (sg_dst (hd es))) obj))
          ([] @ map run_of bs)"
        by (rule sends_trans [OF s sends_submit [OF assms(1)]]) (simp add: assms(2))
      moreover have "direct_staged drv es obj =
          dce_do (submit_scatter_gather drv (map run_of bs)) (on_po (gather_into es (staging_bufs (po obj) 0) (sg_dst (hd es))) obj)"
        using False True by (auto simp: direct_staged_def Let_def bs_def run_of_def)
      ultimately show ?thesis using gather_into_mem [OF sd] by (simp add: bs_def)
    next
      case small: False
      define f where "f = (\<lambda>p :: Poller. p\<lparr>p_mem := fold (\<lambda>e. memcpy (staging_bufs (po obj) 0 + (sg_dst e - sg_dst (hd es))) (sg_src e) (unat (sg_size e))) es (p_mem p)\<rparr>)"
      have s: "sends obj (on_po f obj) []" using assms(2) by (simp add: sends_def issues_def f_def)
      have "sends obj (dce_do (submit_scatter_gather drv (map run_of bs)) (on_po f obj)) ([] @ map run_of bs)"
        by (rule sends_trans [OF s sends_submit [OF assms(1)]]) (simp add: assms(2))
      moreover have "direct_staged drv es obj = dce_do (submit_scatter_gather drv (map run_of bs)) (on_po f obj)"
        using False small by (auto simp: direct_staged_def Let_def bs_def run_of_def f_def)
      ultimately show ?thesis by (simp add: bs_def f_def mem)
    qed
    then show ?thesis by (intro d(2)) simp_all
  qed
qed

lemma delivers_submit:
  assumes "all_succeed drv" "ce_wf (direct_ce obj)" "\<And>m. dmas cs m = dmas es m"
  shows "delivers obj (dce_do (submit_scatter_gather drv cs) obj) es"
  using sends_submit [OF assms(1,2), of cs] assms(3) by (auto simp: delivers_def)

lemma direct_path_delivers:
  assumes "all_succeed drv" "ce_wf (direct_ce obj)" "direct_ok obj es" "es \<noteq> []"
  shows "delivers obj (direct_transfer_path drv es obj) es"
proof -
  have es: "separate es" "bytes es < 2 ^ 64" using assms(3) by (simp_all add: direct_ok_def)
  show ?thesis
  proof (cases "dst_chained es \<and> src_contiguous es \<and> 1 < length es")
    case one: True
    have "dma (merged es) m = dmas es m" for m
      using one es assms(4) by (intro merged_dma chained_contiguous) simp_all
    then have "delivers obj (dce_do (submit_scatter_gather drv [merged es]) obj) es" by (intro delivers_submit assms(1,2)) simp
    moreover have "merged es = \<lparr>sg_dst = sg_dst (hd es), sg_src = sg_src (hd es), sg_size = size_sum es\<rparr>"
      using assms(4) by (cases es; cases "hd es") (simp_all add: merged_def)
    ultimately show ?thesis using one by (simp add: direct_transfer_path_def)
  next
    case many: False
    show ?thesis
    proof (cases "dst_chained es \<and> \<not> src_contiguous es \<and> 0 < num_staging_bufs (po obj) \<and> size_sum es \<le> staging_buffer_size (po obj)")
      case True
      then show ?thesis using delivers_staged [OF assms] by (simp add: direct_transfer_path_def)
    next
      case False
      then have "direct_transfer_path drv es obj = dce_do (submit_scatter_gather drv es) obj"
        unfolding direct_transfer_path_def using many by (simp only: if_False)
      then show ?thesis using delivers_submit [OF assms(1,2) refl] by simp
    qed
  qed
qed

text \<open>What comes after the transfer issues no copy and changes no memory.\<close>

lemma copies_syncs [simp]: "copies (map (\<lambda>ch. EventSynchronize (f ch)) chs) = []"
  by (induction chs) simp_all

lemma wait_no_copies:
  assumes "all_succeed drv" "ce_wf ce"
  shows "\<exists>new ce'. wait_completion drv ce tr = (CUDA_SUCCESS, ce', tr @ new) \<and> copies new = [] \<and> ce_wf ce'"
proof (cases "dirty_mask ce = 0")
  case True
  then show ?thesis using assms(2) by (simp add: wait_completion_def ce_return_def)
next
  case False
  then have "wait_completion drv ce tr = (CUDA_SUCCESS, ce\<lparr>dirty_mask := 0\<rparr>,
      tr @ push_calls ce @ map (\<lambda>ch. EventSynchronize (ce_events ce ch)) (mask_channels (dirty_mask ce)) @ pop_calls ce)"
    using assms by (simp add: wait_completion_def ce_wf_def sync_events_success ce_return_def pop_calls_def push_calls_def
      push_unless_pinned_def pop_unless_pinned_def)
  moreover have "ce_wf (ce\<lparr>dirty_mask := 0\<rparr>)" using assms(2) by (simp add: ce_wf_def)
  ultimately show ?thesis by simp
qed

lemma sends_wait:
  assumes "all_succeed drv" "ce_wf (direct_ce obj)"
  shows "sends obj (dce_do (wait_completion drv) obj) []"
proof -
  obtain new ce where "wait_completion drv (direct_ce obj) (p_trace (po obj)) = (CUDA_SUCCESS, ce, p_trace (po obj) @ new)" "copies new = []" "ce_wf ce"
    using wait_no_copies [OF assms] by blast
  then show ?thesis by (simp add: sends_def issues_def dce_do_def)
qed

lemma sends_unpin:
  "ce_wf (direct_ce obj) \<Longrightarrow> sends obj (dce_do (\<lambda>ce tr. case unpin_context drv ce tr of (ce, tr) \<Rightarrow> ce_return ce tr) obj) []"
  by (simp add: sends_def issues_def dce_do_def unpin_context_def ce_return_def ce_wf_def)

lemma pin_no_copies:
  assumes "all_succeed drv" "ce_wf ce"
  shows "\<exists>new ce'. pin_context drv ce tr = (CUDA_SUCCESS, ce', tr @ new) \<and> copies new = [] \<and> ce_wf ce'"
  using assms by (simp add: pin_context_def ce_return_def ce_wf_def)

lemma direct_ok_sends: "sends obj obj' cs \<Longrightarrow> direct_ok obj' es = direct_ok obj es" "sends obj obj' cs \<Longrightarrow> in_buffers obj' = in_buffers obj"
  by (simp_all add: sends_def direct_ok_def in_buffers_def fun_eq_iff)

lemma submit_direct_delivers:
  assumes "all_succeed drv" "ce_wf (direct_ce obj)" "direct_ok obj es" "es \<noteq> []" "submit_direct drv es obj = (ok, obj')"
  shows "ok" and "\<not> in_buffers obj a \<Longrightarrow> after_dma (po obj) (po obj') a = dmas es (p_mem (po obj)) a"
proof -
  obtain new ce where pin: "pin_context drv (direct_ce obj) (p_trace (po obj)) = (CUDA_SUCCESS, ce, p_trace (po obj) @ new)" "copies new = []" "ce_wf ce"
    using pin_no_copies [OF assms(1,2)] by blast
  define o1 where "o1 = obj\<lparr>direct_ce := ce, po := (po obj)\<lparr>p_trace := p_trace (po obj) @ new\<rparr>\<rparr>"
  have s1: "sends obj o1 []" and m1: "p_mem (po o1) = p_mem (po obj)" using pin by (simp_all add: sends_def issues_def o1_def)
  have "delivers o1 (direct_transfer_path drv es o1) es"
    using s1 assms(3) direct_ok_sends(1) [OF s1] by (intro direct_path_delivers assms(1,4)) (simp_all add: sends_def)
  then obtain cs where s2: "sends o1 (direct_transfer_path drv es o1) cs"
    and d: "\<And>a. \<not> in_buffers obj a \<Longrightarrow> dmas cs (p_mem (po (direct_transfer_path drv es o1))) a = dmas es (p_mem (po obj)) a"
    using direct_ok_sends(2) [OF s1] m1 by (auto simp: delivers_def)
  define o2 where "o2 = direct_transfer_path drv es o1"
  define o3 where "o3 = dce_do (wait_completion drv) o2"
  define o4 where "o4 = on_po (\<lambda>p. p\<lparr>staging_event_pending := fold (\<lambda>b f. f(b := False)) [0..<num_staging_bufs p] (staging_event_pending p)\<rparr>) o3"
  define o5 where "o5 = dce_do (\<lambda>ce tr. case unpin_context drv ce tr of (ce, tr) \<Rightarrow> ce_return ce tr) o4"
  have "ce_initialized (direct_ce obj)" using assms(2) by (simp add: ce_wf_def)
  then have run: "(ok, obj') = (True, on_po (\<lambda>p. add_stats (length es) 0 1 (add_bytes es p)) o5)"
    unfolding assms(5) [symmetric] o5_def o4_def o3_def o2_def o1_def using assms(4) pin(1) by (simp add: submit_direct_def Let_def)
  then show "ok" by simp
  have s3: "sends o2 o3 []" unfolding o3_def using s2 by (intro sends_wait assms(1)) (simp add: o2_def sends_def)
  have s4: "sends o3 o4 []" using s3 by (simp add: sends_def issues_def o4_def)
  have s5: "sends o4 o5 []" unfolding o5_def using s4 by (intro sends_unpin) (simp add: sends_def)
  have "sends obj o5 cs" using sends_trans [OF sends_trans [OF sends_trans [OF sends_trans [OF s1 s2, folded o2_def] s3] s4] s5] by simp
  then have "issues (po obj) (po obj') cs" using run by (simp add: sends_def issues_def)
  moreover have "p_mem (po obj') = p_mem (po o2)" using run by (simp add: o5_def o4_def o3_def)
  ultimately show "after_dma (po obj) (po obj') a = dmas es (p_mem (po obj)) a" if "\<not> in_buffers obj a"
    using d [OF that, folded o2_def] by (simp add: issues_after)
qed

end
