(* ===== verification/Direct_Properties.thy ===== *)
theory Direct_Properties
  imports Direct_Submit Batch_Properties
begin

text \<open>
  What a caller of \<open>submit_direct\<close> gets: its entries' bytes at their destinations, on every branch of the call.
\<close>

definition direct_caller :: PollerObject where
  "direct_caller = (new_polling_thread example_poller 4096 0 0 2 (-1) 0)\<lparr>direct_ce := example_engine\<rparr>"

lemma direct_caller_fields: "direct_ce direct_caller = example_engine" "po direct_caller = example_poller"
  by (simp_all add: direct_caller_def new_polling_thread_def)

lemma direct_caller_ok: "direct_ok direct_caller [example_entry]"
  by (auto simp: direct_ok_def Let_def direct_caller_fields separate_def dst_disjoint_def src_dst_disjoint_def example_entry_def
    example_poller_def intro!: region_apart_either)

text \<open>C14: Every branch of \<open>submit_direct\<close> (one merged transfer, the pipeline of up to three chunks through as many buffers, one gathered
  buffer, the serial gather, or the entries themselves) reports success and moves exactly the bytes asked for: outside the
  staging buffers, memory after the issued copies is memory after copying the entries one by one.\<close>

theorem direct_submission_copies:
  assumes "all_succeed drv" "ce_wf (direct_ce obj)" "direct_ok obj es" "es \<noteq> []" "submit_direct drv es obj = (ok, obj')"
  shows "ok \<and> (\<forall>a. \<not> in_buffers obj a \<longrightarrow> after_dma (po obj) (po obj') a = dmas es (p_mem (po obj)) a)"
  using submit_direct_delivers [OF assms] by blast

theorem direct_submission_copies_witness:
  "fst (submit_direct example_driver [example_entry] direct_caller)
   \<and> after_dma example_poller (po (snd (submit_direct example_driver [example_entry] direct_caller))) 4096
       = dma example_entry (p_mem example_poller) 4096"
proof -
  obtain ok obj' where s: "submit_direct example_driver [example_entry] direct_caller = (ok, obj')" by fastforce
  have wf: "ce_wf (direct_ce direct_caller)" using example_engine_wf by (simp add: direct_caller_fields)
  have out: "\<not> in_buffers direct_caller 4096" by (simp add: in_buffers_def direct_caller_fields example_poller_def in_region)
  from direct_submission_copies [OF example_driver_ok wf direct_caller_ok _ s] out s show ?thesis by (simp add: direct_caller_fields)
qed

end
