(* ===== verification/Pcie_Topology.thy ===== *)
theory Pcie_Topology
  imports Prelude
begin

text \<open>
  \<open>include/gfd/pcie_topology.h\<close>: which cores each GPU's poller gets. What sysfs and the CUDA runtime answer is the
  parameter \<open>sysfs\<close>, after parsing; the code's defaults are the values for files that cannot be read. Quantities are
  \<open>int\<close>s, far below the width of the C++ type. \<open>None\<close> is a write outside the vector \<open>gpus_per_numa\<close>.
\<close>

section \<open>Data\<close>

record GpuTopology =
  gpu_id :: nat
  numa_node :: int
  pcie_bus :: nat
  cpu_start :: int
  cpu_end :: int
  ht_offset :: int
  num_physical_cores :: int

record TopologyConfig =
  num_gpus :: nat
  total_numa_nodes :: int
  cpus_per_numa :: int
  physical_cores_per_numa :: int
  gpus :: "GpuTopology list"
  gpus_per_numa :: "int list"

record sysfs =
  max_numa :: int
  node0_start :: int
  node0_end :: int
  ht_start :: int
  device_numa :: "nat \<Rightarrow> int"

section \<open>Operations\<close>

definition recommended_ce_channels :: "int \<Rightarrow> int" where
  "recommended_ce_channels active_gpus_on_same_numa =
     (if active_gpus_on_same_numa \<le> 2 then 3 else if active_gpus_on_same_numa \<le> 4 then 2 else 1)"

definition get_exclusive_cores :: "TopologyConfig \<Rightarrow> nat \<Rightarrow> int \<times> int \<times> int" where
  "get_exclusive_cores topo gpu =
     (let g = gpus topo ! gpu;
          numa = numa_node g;
          cores_per_gpu = physical_cores_per_numa topo div (gpus_per_numa topo ! nat numa);
          intra_numa_idx = int (length (filter (\<lambda>i. numa_node (gpus topo ! i) = numa) [0..<gpu]));
          out_base_cpu = cpu_start g + intra_numa_idx * cores_per_gpu;
          out_num_cores = cores_per_gpu
      in (out_base_cpu,
          if out_base_cpu + out_num_cores - 1 > cpu_end g then cpu_end g - out_base_cpu + 1 else out_num_cores,
          1))"

definition gpu_topology :: "sysfs \<Rightarrow> nat \<Rightarrow> nat \<Rightarrow> GpuTopology" where
  "gpu_topology fs n g =
     (let cpus_per_range = node0_end fs - node0_start fs + 1;
          queried = device_numa fs g;
          gpu_numa = (if queried < 0 \<or> max_numa fs + 1 \<le> queried
            then if 1 < n \<and> n div 2 \<le> g then 1 else 0 else queried)
      in \<lparr>gpu_id = g, numa_node = gpu_numa, pcie_bus = g, cpu_start = gpu_numa * cpus_per_range,
          cpu_end = (gpu_numa + 1) * cpus_per_range - 1, ht_offset = ht_start fs - node0_start fs,
          num_physical_cores = cpus_per_range\<rparr>)"

text \<open>Where there is no sysfs (line 132).\<close>

definition gpu_topology_other :: "nat \<Rightarrow> GpuTopology" where
  "gpu_topology_other g = \<lparr>gpu_id = g, numa_node = 0, pcie_bus = g, cpu_start = 0, cpu_end = 15, ht_offset = 0, num_physical_cores = 8\<rparr>"

fun count_gpus :: "GpuTopology list \<Rightarrow> int list \<Rightarrow> int list option" where
  "count_gpus [] per_numa = Some per_numa"
| "count_gpus (g # gs) per_numa =
     (if 0 \<le> numa_node g \<and> numa_node g < int (length per_numa)
      then count_gpus gs (per_numa[nat (numa_node g) := per_numa ! nat (numa_node g) + 1]) else None)"

definition discover_topology :: "sysfs \<Rightarrow> nat \<Rightarrow> TopologyConfig option" where
  "discover_topology fs n =
     (let cpus_per_range = node0_end fs - node0_start fs + 1; gs = map (gpu_topology fs n) [0..<n]
      in map_option (\<lambda>per_numa. \<lparr>num_gpus = n, total_numa_nodes = max_numa fs + 1, cpus_per_numa = cpus_per_range * 2,
           physical_cores_per_numa = cpus_per_range, gpus = gs, gpus_per_numa = per_numa\<rparr>)
         (count_gpus gs (replicate (nat (max_numa fs + 1)) 0)))"

definition discover_topology_other :: "nat \<Rightarrow> TopologyConfig option" where
  "discover_topology_other n =
     (let gs = map gpu_topology_other [0..<n]
      in map_option (\<lambda>per_numa. \<lparr>num_gpus = n, total_numa_nodes = 1, cpus_per_numa = 16, physical_cores_per_numa = 8,
           gpus = gs, gpus_per_numa = per_numa\<rparr>) (count_gpus gs (replicate 1 0)))"

section \<open>The core ranges\<close>

lemma count_gpus_Some:
  "count_gpus gs f = Some f' \<Longrightarrow>
     (\<forall>g\<in>set gs. 0 \<le> numa_node g \<and> numa_node g < int (length f)) \<and> length f' = length f
     \<and> (\<forall>k<length f. f' ! k = f ! k + int (length (filter (\<lambda>g. numa_node g = int k) gs)))"
proof (induction gs f rule: count_gpus.induct)
  case (2 g gs f)
  define x where "x = numa_node g"
  define f1 where "f1 = f[nat x := f ! nat x + 1]"
  from 2(2) have x: "0 \<le> x" "x < int (length f)" and f': "count_gpus gs f1 = Some f'"
    by (simp_all add: x_def f1_def split: if_splits)
  then have ih: "(\<forall>g\<in>set gs. 0 \<le> numa_node g \<and> numa_node g < int (length f)) \<and> length f' = length f
      \<and> (\<forall>k<length f. f' ! k = f1 ! k + int (length (filter (\<lambda>g. numa_node g = int k) gs)))"
    using 2(1) by (simp add: x_def f1_def)
  have "f1 ! k = f ! k + (if x = int k then 1 else 0)" if "k < length f" for k
    using that x by (auto simp: f1_def nth_list_update)
  with ih x show ?case by (simp add: x_def)
qed simp

lemma count_gpus_None:
  "count_gpus gs f = None \<longleftrightarrow> (\<exists>g\<in>set gs. \<not> (0 \<le> numa_node g \<and> numa_node g < int (length f)))"
  by (induction gs f rule: count_gpus.induct) auto

lemma discover_topology_Some:
  assumes "discover_topology fs n = Some topo"
  shows "gpus topo = map (gpu_topology fs n) [0..<n]" and "physical_cores_per_numa topo = node0_end fs - node0_start fs + 1"
    and "g < n \<Longrightarrow> gpus_per_numa topo ! nat (numa_node (gpu_topology fs n g))
      = int (length (filter (\<lambda>i. numa_node (gpu_topology fs n i) = numa_node (gpu_topology fs n g)) [0..<n]))"
proof -
  from assms obtain f' where f: "count_gpus (map (gpu_topology fs n) [0..<n]) (replicate (nat (max_numa fs + 1)) 0) = Some f'"
    and t: "gpus topo = map (gpu_topology fs n) [0..<n]" "physical_cores_per_numa topo = node0_end fs - node0_start fs + 1"
      "gpus_per_numa topo = f'"
    by (auto simp: discover_topology_def Let_def)
  show "gpus topo = map (gpu_topology fs n) [0..<n]" "physical_cores_per_numa topo = node0_end fs - node0_start fs + 1" by fact+
  show "gpus_per_numa topo ! nat (numa_node (gpu_topology fs n g))
      = int (length (filter (\<lambda>i. numa_node (gpu_topology fs n i) = numa_node (gpu_topology fs n g)) [0..<n]))" if "g < n"
  proof -
    define x where "x = numa_node (gpu_topology fs n g)"
    from count_gpus_Some [OF f] that have "0 \<le> x" "x < int (nat (max_numa fs + 1))"
      and "\<And>k. k < nat (max_numa fs + 1) \<Longrightarrow> f' ! k = int (length (filter (\<lambda>i. numa_node (gpu_topology fs n i) = int k) [0..<n]))"
      by (simp_all add: x_def filter_map comp_def)
    from this(3) [of "nat x"] this(1,2) show ?thesis by (simp add: t(3) x_def split: if_splits)
  qed
qed

text \<open>The index of a GPU among those of its node.\<close>

definition intra_index :: "sysfs \<Rightarrow> nat \<Rightarrow> nat \<Rightarrow> nat" where
  "intra_index fs n g = length (filter (\<lambda>i. numa_node (gpu_topology fs n i) = numa_node (gpu_topology fs n g)) [0..<g])"

lemma length_filter_upt_less:
  assumes "a < b" "P a"
  shows "length (filter P [0..<a]) < length (filter P [0..<b])"
proof -
  have "[0..<b] = [0..<a] @ a # [Suc a..<b]" using assms(1) by (metis le_add1 add_0 less_imp_le_nat upt_add_eq_append upt_conv_Cons le_add_diff_inverse)
  then show ?thesis using assms(2) by simp
qed

lemma exclusive_cores_inside:
  assumes "g < n" "node0_start fs \<le> node0_end fs"
    and "discover_topology fs n = Some topo" "get_exclusive_cores topo g = (b, k, s)"
  defines "c \<equiv> physical_cores_per_numa topo div (gpus_per_numa topo ! nat (numa_node (gpus topo ! g)))"
  shows "b = cpu_start (gpus topo ! g) + int (intra_index fs n g) * c" and "k = c" and "0 \<le> c"
    and "cpu_start (gpus topo ! g) \<le> b" and "b + k \<le> cpu_end (gpus topo ! g) + 1"
proof -
  let ?g = "gpu_topology fs n g" and ?same = "\<lambda>i. numa_node (gpu_topology fs n i) = numa_node (gpu_topology fs n g)"
  define r where "r = node0_end fs - node0_start fs + 1"
  define m where "m = gpus_per_numa topo ! nat (numa_node ?g)"
  have at: "i < n \<Longrightarrow> gpus topo ! i = gpu_topology fs n i" for i by (simp add: discover_topology_Some(1) [OF assms(3)])
  have r: "0 < r" "physical_cores_per_numa topo = r" using assms(2) discover_topology_Some(2) [OF assms(3)] by (simp_all add: r_def)
  have m: "m = int (length (filter ?same [0..<n]))"
    by (simp add: m_def discover_topology_Some(3) [OF assms(3,1)])
  have idx: "intra_index fs n g < length (filter ?same [0..<n])"
    unfolding intra_index_def using assms(1) by (intro length_filter_upt_less) simp_all
  have c: "c = r div m" using at [OF assms(1)] r(2) by (simp add: c_def m_def)
  have mpos: "0 < m" using idx m by linarith
  show c0: "0 \<le> c" using c r(1) mpos by (simp add: pos_imp_zdiv_nonneg_iff)
  have filt: "filter (\<lambda>i. numa_node (gpus topo ! i) = numa_node ?g) [0..<g] = filter ?same [0..<g]"
    using at assms(1) by (intro filter_cong) auto
  have fit: "(int (intra_index fs n g) + 1) * c \<le> r"
  proof -
    have "int (intra_index fs n g) + 1 \<le> m" using idx m by simp
    then have "(int (intra_index fs n g) + 1) * c \<le> m * c" using c0 by (rule mult_right_mono)
    also have "m * c \<le> r" unfolding c using mult_div_mod_eq [of m r] pos_mod_sign [OF mpos, of r] by linarith
    finally show ?thesis .
  qed
  have ends: "cpu_end (gpus topo ! g) + 1 = cpu_start (gpus topo ! g) + r"
    using at [OF assms(1)] by (simp add: gpu_topology_def Let_def r_def algebra_simps)
  have "\<not> cpu_start (gpus topo ! g) + int (intra_index fs n g) * c + c - 1 > cpu_end (gpus topo ! g)"
    using fit ends by (simp add: algebra_simps)
  then have out: "b = cpu_start (gpus topo ! g) + int (intra_index fs n g) * c \<and> k = c"
    using assms(4) by (auto simp: get_exclusive_cores_def Let_def c_def intra_index_def at [OF assms(1)] filt)
  then show "b = cpu_start (gpus topo ! g) + int (intra_index fs n g) * c" "k = c" by simp_all
  show "cpu_start (gpus topo ! g) \<le> b" using out c0 by simp
  show "b + k \<le> cpu_end (gpus topo ! g) + 1" using out fit ends by (simp add: algebra_simps)
qed

lemma intra_index_less:
  assumes "g < h" "numa_node (gpu_topology fs n g) = numa_node (gpu_topology fs n h)"
  shows "intra_index fs n g < intra_index fs n h"
  using length_filter_upt_less [OF assms(1), of "\<lambda>i. numa_node (gpu_topology fs n i) = numa_node (gpu_topology fs n h)"] assms(2)
  by (simp add: intra_index_def)

text \<open>Ranges of different nodes do not meet, nor do those of different indices on one node.\<close>

lemma node_ranges_apart:
  fixes a b r :: int
  assumes "a \<noteq> b" "0 < r"
  shows "(a + 1) * r \<le> b * r \<or> (b + 1) * r \<le> a * r"
proof (cases "a < b")
  case True
  then show ?thesis using assms(2) by (intro disjI1 mult_right_mono) auto
next
  case False
  then show ?thesis using assms by (intro disjI2 mult_right_mono) auto
qed

text \<open>\<open>get_exclusive_cores\<close> for every GPU: the ranges lie within the GPU's node and no two of them share a core.\<close>

lemma exclusive_cores_disjoint:
  assumes "g < h" "h < n" "node0_start fs \<le> node0_end fs" and "discover_topology fs n = Some topo"
    and "get_exclusive_cores topo g = (b, k, s)" "get_exclusive_cores topo h = (b', k', s')"
  shows "b + k \<le> b' \<or> b' + k' \<le> b"
proof -
  define r where "r = node0_end fs - node0_start fs + 1"
  have r: "0 < r" using assms(3) by (simp add: r_def)
  let ?g = "gpu_topology fs n g" and ?h = "gpu_topology fs n h"
  have at: "gpus topo ! g = ?g" "gpus topo ! h = ?h" using assms(1,2) by (simp_all add: discover_topology_Some(1) [OF assms(4)])
  have g: "g < n" using assms(1,2) by simp
  note G = exclusive_cores_inside [OF g assms(3) assms(4,5)] and H = exclusive_cores_inside [OF assms(2,3,4,6)]
  have node: "cpu_start t = numa_node t * r \<and> cpu_end t + 1 = (numa_node t + 1) * r" if "t = gpu_topology fs n i" for t i
    by (simp add: that gpu_topology_def Let_def r_def)
  show ?thesis
  proof (cases "numa_node ?g = numa_node ?h")
    case False
    from node_ranges_apart [OF this r] show ?thesis using G(4,5) H(4,5) node [OF at(1)] node [OF at(2)] unfolding at by linarith
  next
    case True
    have kk: "k = k'" using G(2) H(2) at True by simp
    have "int (intra_index fs n g) + 1 \<le> int (intra_index fs n h)" using intra_index_less [OF assms(1) True] by simp
    then have "(int (intra_index fs n g) + 1) * k \<le> int (intra_index fs n h) * k"
      using G(2,3) by (intro mult_right_mono) simp_all
    moreover have "b = cpu_start ?g + int (intra_index fs n g) * k" "b' = cpu_start ?g + int (intra_index fs n h) * k"
      using G(1,2) H(1,2) kk at True node [OF at(1)] node [OF at(2)] by simp_all
    ultimately have "b + k \<le> b'" by (simp add: algebra_simps)
    then show ?thesis ..
  qed
qed

end
