(* ===== verification/Sg_Task_Queue.thy ===== *)
theory Sg_Task_Queue
  imports Descriptor_Queue
begin

text \<open>
  The scatter-gather task queue (\<open>include/gfd/sg_task_queue.h\<close>) and the warp-collective functions that submit
  lists to it (\<open>sg_device_primitives.cuh\<close>). A polling loop is a test of the state that must hold for the call to
  return, and a function that polls before it acts returns an option.
\<close>

section \<open>Data\<close>

definition MAX_SG_POOL_ENTRIES :: nat where "MAX_SG_POOL_ENTRIES = 16384"

definition SG_FLAG_NONE :: u32 where "SG_FLAG_NONE = 0"
definition SG_FLAG_HOST_SUBMITTED :: u32 where "SG_FLAG_HOST_SUBMITTED = 1"

record DeviceSGEntry =
  de_src :: u64
  de_dst :: u64
  de_size :: u32
  de_tag :: u32

record SGList =
  pool_offset :: u32
  list_count :: u32
  list_id :: u32
  list_flags :: u32
  list_sequence :: u64

record SGTaskQueue =
  sg_lists :: "nat \<Rightarrow> SGList"
  sg_entries :: "nat \<Rightarrow> DeviceSGEntry"
  list_alloc_idx :: u64
  entry_alloc_idx :: u64
  list_read_idx :: u64
  entry_consumed_idx :: u64
  sg_lists_completed :: u64
  sg_terminate :: bool
  d_list_done :: "(nat \<Rightarrow> u64) option"

definition linear_to_sg_entries ::
  "u64 \<Rightarrow> u64 \<Rightarrow> u32 \<Rightarrow> u32 \<Rightarrow> u32 \<Rightarrow> u32 \<Rightarrow> (nat \<Rightarrow> DeviceSGEntry) \<Rightarrow> nat \<Rightarrow> DeviceSGEntry" where
  "linear_to_sg_entries cpu_base gpu_base tsize start_idx n tag out =
     fold (\<lambda>i out. let global_idx = start_idx + of_nat i
       in out(i := \<lparr>de_src = cpu_base + ucast global_idx * ucast tsize, de_dst = gpu_base + ucast global_idx * ucast tsize,
                    de_size = tsize, de_tag = tag\<rparr>)) [0..<unat n] out"

section \<open>Backpressure\<close>

text \<open>\<open>MAX_SG_POOL_ENTRIES - needed\<close> is computed in \<open>uint32_t\<close>.\<close>

definition sg_wait_entry_space :: "SGTaskQueue \<Rightarrow> u32 \<Rightarrow> bool" where
  "sg_wait_entry_space sq needed \<longleftrightarrow> entry_alloc_idx sq - entry_consumed_idx sq \<le> ucast (of_nat MAX_SG_POOL_ENTRIES - needed)"

definition sg_wait_list_space :: "SGTaskQueue \<Rightarrow> bool" where
  "sg_wait_list_space sq \<longleftrightarrow> list_alloc_idx sq - list_read_idx sq < of_nat (MAX_SG_LISTS - 1)"

section \<open>Submitting\<close>

definition sg_alloc_entries :: "u32 \<Rightarrow> SGTaskQueue \<Rightarrow> u64 \<times> SGTaskQueue" where
  "sg_alloc_entries n sq = (entry_alloc_idx sq, sq\<lparr>entry_alloc_idx := entry_alloc_idx sq + ucast n\<rparr>)"

definition pool_slot :: "u64 \<Rightarrow> nat" where
  "pool_slot x = unat x mod MAX_SG_POOL_ENTRIES"

definition store_entry :: "u64 \<Rightarrow> DeviceSGEntry \<Rightarrow> SGTaskQueue \<Rightarrow> SGTaskQueue" where
  "store_entry x e sq = sq\<lparr>sg_entries := (sg_entries sq)(pool_slot x := e)\<rparr>"

definition sg_write_entries :: "u64 \<Rightarrow> (nat \<Rightarrow> DeviceSGEntry) \<Rightarrow> u32 \<Rightarrow> SGTaskQueue \<Rightarrow> SGTaskQueue" where
  "sg_write_entries off src_entries n =
     fold (\<lambda>i. store_entry (off + of_nat i) (src_entries i)) (warp_indices (unat n))"

definition sg_write_entries_inline ::
  "u64 \<Rightarrow> (nat \<Rightarrow> u64) \<Rightarrow> (nat \<Rightarrow> u64) \<Rightarrow> (nat \<Rightarrow> u32) \<Rightarrow> u32 \<Rightarrow> u32 \<Rightarrow> SGTaskQueue \<Rightarrow> SGTaskQueue" where
  "sg_write_entries_inline off src_addrs dst_addrs sizes tag n =
     fold (\<lambda>i. store_entry (off + of_nat i) \<lparr>de_src = src_addrs i, de_dst = dst_addrs i, de_size = sizes i, de_tag = tag\<rparr>)
       (warp_indices (unat n))"

definition sg_alloc_list :: "SGTaskQueue \<Rightarrow> u64 \<times> SGTaskQueue" where
  "sg_alloc_list sq = (list_alloc_idx sq, sq\<lparr>list_alloc_idx := list_alloc_idx sq + 1\<rparr>)"

definition list_slot :: "u64 \<Rightarrow> nat" where
  "list_slot slot = unat slot mod MAX_SG_LISTS"

definition set_list :: "u64 \<Rightarrow> (SGList \<Rightarrow> SGList) \<Rightarrow> SGTaskQueue \<Rightarrow> SGTaskQueue" where
  "set_list slot f sq = sq\<lparr>sg_lists := (sg_lists sq)(list_slot slot := f (sg_lists sq (list_slot slot)))\<rparr>"

definition sg_commit_list :: "u64 \<Rightarrow> u32 \<Rightarrow> u32 \<Rightarrow> u32 \<Rightarrow> u32 \<Rightarrow> SGTaskQueue \<Rightarrow> SGTaskQueue" where
  "sg_commit_list slot off n lid flgs sq =
     set_list slot (\<lambda>l. l\<lparr>list_sequence := slot + 1\<rparr>)
       (set_list slot (\<lambda>l. l\<lparr>pool_offset := off mod of_nat MAX_SG_POOL_ENTRIES, list_count := n, list_id := lid,
          list_flags := flgs\<rparr>) sq)"

definition sg_submit_list :: "(nat \<Rightarrow> DeviceSGEntry) \<Rightarrow> u32 \<Rightarrow> u32 \<Rightarrow> u32 \<Rightarrow> SGTaskQueue \<Rightarrow> (u64 \<times> SGTaskQueue) option" where
  "sg_submit_list es n lid flgs sq =
     (if sg_wait_entry_space sq n \<and> sg_wait_list_space sq then
        (let (off, sq) = sg_alloc_entries n sq; sq = sg_write_entries off es n sq; (slot, sq) = sg_alloc_list sq
         in Some (slot, sg_commit_list slot (ucast off) n lid flgs sq))
      else None)"

section \<open>Waiting for completion\<close>

definition sg_wait_list_done :: "u64 \<Rightarrow> SGTaskQueue \<Rightarrow> bool" where
  "sg_wait_list_done expected sq \<longleftrightarrow> expected \<le> sg_lists_completed sq"

definition sg_wait_list_id_done :: "u32 \<Rightarrow> (nat \<Rightarrow> u64) \<Rightarrow> bool" where
  "sg_wait_list_id_done lid done_of \<longleftrightarrow> done_of (unat lid) \<noteq> 0"

section \<open>Reading a list\<close>

text \<open>\<open>SGListView::get_entry\<close> of a list header and the transfer warp read the same slot, computed in \<open>uint32_t\<close>.\<close>

definition list_entry :: "SGTaskQueue \<Rightarrow> u32 \<Rightarrow> u32 \<Rightarrow> DeviceSGEntry" where
  "list_entry sq off idx = sg_entries sq (unat ((off + idx) mod of_nat MAX_SG_POOL_ENTRIES))"

text \<open>The transfer warp takes the list at index \<open>k\<close> when its header says so.\<close>

definition list_committed :: "u64 \<Rightarrow> SGTaskQueue \<Rightarrow> bool" where
  "list_committed k sq \<longleftrightarrow> list_sequence (sg_lists sq (list_slot k)) = k + 1"

section \<open>The lanes of a warp\<close>

definition stored :: "u64 \<Rightarrow> (nat \<Rightarrow> DeviceSGEntry) \<Rightarrow> nat list \<Rightarrow> SGTaskQueue \<Rightarrow> SGTaskQueue" where
  "stored off es is = fold (\<lambda>i. store_entry (off + of_nat i) (es i)) is"

lemma stored_frame [simp]:
  "sg_lists (stored off es is sq) = sg_lists sq" "list_alloc_idx (stored off es is sq) = list_alloc_idx sq"
  "entry_alloc_idx (stored off es is sq) = entry_alloc_idx sq" "entry_consumed_idx (stored off es is sq) = entry_consumed_idx sq"
  "list_read_idx (stored off es is sq) = list_read_idx sq"
  by (induction "is" arbitrary: sq) (simp_all add: stored_def store_entry_def)

lemma pool_slot_add: "pool_slot (s + of_nat i) = (unat s + i) mod MAX_SG_POOL_ENTRIES"
proof -
  have "unat (s + of_nat i) = (unat s + i) mod 2 ^ 64" by (simp add: unat_word_ariths unat_of_nat mod_simps)
  moreover have "MAX_SG_POOL_ENTRIES dvd 2 ^ 64" by (simp add: MAX_SG_POOL_ENTRIES_def)
  ultimately show ?thesis by (simp add: pool_slot_def mod_mod_cancel)
qed

lemma pool_slot_inj:
  "pool_slot (s + of_nat i) = pool_slot (s + of_nat j) \<Longrightarrow> i < MAX_SG_POOL_ENTRIES \<Longrightarrow> j < MAX_SG_POOL_ENTRIES \<Longrightarrow> i = j"
  unfolding pool_slot_add by (rule mod_offset_inj)

lemma stored_other: "(\<And>i. i \<in> set is \<Longrightarrow> k \<noteq> pool_slot (off + of_nat i)) \<Longrightarrow> sg_entries (stored off es is sq) k = sg_entries sq k"
  unfolding stored_def by (induction "is" arbitrary: sq) (simp_all add: store_entry_def)

lemma stored_at:
  assumes "j \<in> set is" "distinct is" "\<And>i. i \<in> set is \<Longrightarrow> i < MAX_SG_POOL_ENTRIES"
  shows "sg_entries (stored off es is sq) (pool_slot (off + of_nat j)) = es j"
  using assms
proof (induction "is" arbitrary: sq)
  case (Cons i xs)
  have step: "stored off es (i # xs) sq = stored off es xs (store_entry (off + of_nat i) (es i) sq)" by (simp add: stored_def)
  show ?case
  proof (cases "j = i")
    case True
    have "pool_slot (off + of_nat j) \<noteq> pool_slot (off + of_nat i')" if "i' \<in> set xs" for i'
      using pool_slot_inj [of off j i'] Cons.prems that True by auto
    then show ?thesis unfolding step by (subst stored_other) (auto simp: store_entry_def True)
  qed (use Cons step in auto)
qed simp

lemma sg_write_entries_stored: "sg_write_entries off es n sq = stored off es (warp_indices (unat n)) sq"
  by (simp add: sg_write_entries_def stored_def)

text \<open>Both ways of writing entries do the same.\<close>

lemma sg_write_entries_inline_eq:
  "sg_write_entries_inline off srcs dsts sizes tag n sq
   = sg_write_entries off (\<lambda>i. \<lparr>de_src = srcs i, de_dst = dsts i, de_size = sizes i, de_tag = tag\<rparr>) n sq"
  by (simp add: sg_write_entries_inline_def sg_write_entries_def)

lemma sg_write_entries_at:
  assumes "unat n \<le> MAX_SG_POOL_ENTRIES"
  shows "i < unat n \<Longrightarrow> sg_entries (sg_write_entries off es n sq) (pool_slot (off + of_nat i)) = es i"
    and "(\<forall>i<unat n. k \<noteq> pool_slot (off + of_nat i)) \<Longrightarrow> sg_entries (sg_write_entries off es n sq) k = sg_entries sq k"
  unfolding sg_write_entries_stored using assms by (auto intro!: stored_at stored_other)

text \<open>The offset is truncated to 32 bits and reduced modulo the pool before it goes into the header; since \<open>2 ^ 14\<close> divides
  \<open>2 ^ 32\<close> the reader finds the writer's slots.\<close>

lemma reader_slot:
  "unat ((ucast off mod of_nat MAX_SG_POOL_ENTRIES + of_nat i :: u32) mod of_nat MAX_SG_POOL_ENTRIES) = pool_slot (off + of_nat i)"
proof -
  let ?M = "MAX_SG_POOL_ENTRIES"
  have m: "unat (of_nat ?M :: u32) = ?M" by (simp add: MAX_SG_POOL_ENTRIES_def)
  have d: "?M dvd 2 ^ 32" by (simp add: MAX_SG_POOL_ENTRIES_def)
  have "unat (ucast off :: u32) = unat off mod 2 ^ 32" by (simp add: unsigned_ucast_eq take_bit_eq_mod)
  then have "unat ((ucast off mod of_nat ?M + of_nat i :: u32)) = (unat off mod 2 ^ 32 mod ?M + i mod 2 ^ 32) mod 2 ^ 32"
    by (simp add: unat_word_ariths m unat_of_nat take_bit_eq_mod mod_simps) (simp add: MAX_SG_POOL_ENTRIES_def)
  then have "unat ((ucast off mod of_nat ?M + of_nat i :: u32) mod of_nat ?M) = (unat off mod ?M + i mod 2 ^ 32) mod ?M"
    by (simp only: unat_mod m mod_mod_cancel [OF d])
  also have "\<dots> = (unat off + i) mod ?M" by (subst mod_add_eq [symmetric], simp only: mod_mod_cancel [OF d] mod_mod_trivial mod_add_eq)
  finally show ?thesis by (simp add: pool_slot_add)
qed

lemma list_entry_written:
  assumes "unat n \<le> MAX_SG_POOL_ENTRIES" "i < unat n"
  shows "list_entry (sg_write_entries off es n sq) (ucast off mod of_nat MAX_SG_POOL_ENTRIES) (of_nat i) = es i"
  unfolding list_entry_def reader_slot by (rule sg_write_entries_at(1) [OF assms])

section \<open>A submitted list\<close>

lemma set_list_at: "sg_lists (set_list slot f sq) k = (if k = list_slot slot then f (sg_lists sq k) else sg_lists sq k)"
  by (simp add: set_list_def)

lemma set_list_frame [simp]:
  "sg_entries (set_list slot f sq) = sg_entries sq" "list_alloc_idx (set_list slot f sq) = list_alloc_idx sq"
  "entry_alloc_idx (set_list slot f sq) = entry_alloc_idx sq" "entry_consumed_idx (set_list slot f sq) = entry_consumed_idx sq"
  "list_read_idx (set_list slot f sq) = list_read_idx sq"
  by (simp_all add: set_list_def)

lemma sg_commit_list_frame [simp]:
  "sg_entries (sg_commit_list slot off n l fl sq) = sg_entries sq" "list_alloc_idx (sg_commit_list slot off n l fl sq) = list_alloc_idx sq"
  "entry_alloc_idx (sg_commit_list slot off n l fl sq) = entry_alloc_idx sq"
  by (simp_all add: sg_commit_list_def)

lemma sg_submit_list_Some:
  assumes "sg_submit_list es n lid fl sq = Some (slot, sq')"
  shows "slot = list_alloc_idx sq"
    and "sq' = sg_commit_list slot (ucast (entry_alloc_idx sq)) n lid fl
      ((sg_write_entries (entry_alloc_idx sq) es n (sq\<lparr>entry_alloc_idx := entry_alloc_idx sq + ucast n\<rparr>))\<lparr>list_alloc_idx := list_alloc_idx sq + 1\<rparr>)"
  using assms by (auto simp: sg_submit_list_def sg_alloc_entries_def sg_alloc_list_def sg_write_entries_stored Let_def split: if_splits)

lemma sg_commit_list_header:
  assumes "sq' = sg_commit_list slot off n lid fl sq"
  shows "list_committed slot sq'" "pool_offset (sg_lists sq' (list_slot slot)) = off mod of_nat MAX_SG_POOL_ENTRIES"
    "list_count (sg_lists sq' (list_slot slot)) = n" "list_id (sg_lists sq' (list_slot slot)) = lid"
    "k \<noteq> list_slot slot \<Longrightarrow> sg_lists sq' k = sg_lists sq k"
  by (simp_all add: assms sg_commit_list_def list_committed_def set_list_at)

text \<open>For a list that fits the pool the guard says that its entries do not reach the unconsumed ones.\<close>

lemma sg_wait_entry_space_fits:
  assumes "unat n \<le> MAX_SG_POOL_ENTRIES"
  shows "sg_wait_entry_space sq n \<longleftrightarrow> unat (entry_alloc_idx sq - entry_consumed_idx sq) + unat n \<le> MAX_SG_POOL_ENTRIES"
proof -
  have "n \<le> of_nat MAX_SG_POOL_ENTRIES" using assms by (simp add: word_le_nat_alt MAX_SG_POOL_ENTRIES_def)
  then have "unat (ucast (of_nat MAX_SG_POOL_ENTRIES - n) :: u64) = MAX_SG_POOL_ENTRIES - unat n"
    by (simp add: unat_ucast_u32_u64 unat_sub MAX_SG_POOL_ENTRIES_def)
  then show ?thesis using assms by (simp add: sg_wait_entry_space_def word_le_nat_alt le_diff_conv2)
qed

text \<open>For a longer one the 32-bit difference wraps around and the guard lets it through.\<close>

lemma sg_wait_entry_space_wraps:
  assumes "MAX_SG_POOL_ENTRIES < unat n" "unat n \<le> 2 ^ 31" "unat (entry_alloc_idx sq - entry_consumed_idx sq) \<le> MAX_SG_POOL_ENTRIES"
  shows "sg_wait_entry_space sq n"
proof -
  have "\<not> n \<le> of_nat MAX_SG_POOL_ENTRIES" using assms(1) by (simp add: word_le_nat_alt MAX_SG_POOL_ENTRIES_def)
  then have "unat (of_nat MAX_SG_POOL_ENTRIES - n) = 2 ^ 32 + MAX_SG_POOL_ENTRIES - unat n"
    using assms(1) by (simp add: unat_sub_if' MAX_SG_POOL_ENTRIES_def word_le_nat_alt)
  then show ?thesis using assms(2,3) by (simp add: sg_wait_entry_space_def word_le_nat_alt MAX_SG_POOL_ENTRIES_def)
qed

end
