(* ===== verification/Session.thy ===== *)
theory Session
  imports Poller_Setup Sg_Task_Queue
begin

text \<open>
  The sessions (\<open>include/gfd/warp_spec_session.h\<close>, \<open>src/warp_spec_session.cpp\<close>,
  \<open>src/sg_warp_spec_session.cpp\<close>): configuration and its derived values, constructor, launch, synchronisation, reset and
  destructor. A session owns its queue, its poller and, through the constructor and the destructor, the process-wide staging
  pool. \<open>None\<close> is a call that does not come back normally: a division by zero, a null pointer dereferenced, or a wait whose
  condition does not hold. The queue's descriptor ring and \<open>tile_chunk_done\<close> are the poller's \<open>p_queue\<close> and
  \<open>host_tile_done\<close>; kernels are in \<open>Warp_Spec\<close> and \<open>Sg_Warp_Spec\<close>.
\<close>

section \<open>Configuration\<close>

record WarpSpecConfig =
  total_tokens :: u32
  cfg_token_size :: u32
  cpu_src :: u64
  gpu_dst :: u64
  cfg_tokens_per_tile :: u32
  cfg_tokens_per_chunk :: u32
  cfg_num_blocks :: int
  cfg_numa_node :: int
  use_copy_engine :: bool
  double_buffer :: bool
  per_tile_mode :: bool

text \<open>\<open>while (p * 2 <= auto_chunk) p *= 2;\<close> in \<open>uint32_t\<close>.\<close>

partial_function (option) round_pow2 :: "u32 \<Rightarrow> u32 \<Rightarrow> u32 option" where
  "round_pow2 auto_chunk p = (if p * 2 \<le> auto_chunk then round_pow2 auto_chunk (p * 2) else Some p)"

definition auto_chunk :: "u32 \<Rightarrow> u32 \<Rightarrow> u32" where
  "auto_chunk tsize T =
     (let target_chunk_bytes = (if tsize \<le> 512 then 64 * 1024 else if 65536 \<le> tsize then 256 * 1024 else 128 * 1024 :: u64);
          a = ucast (target_chunk_bytes div ucast tsize) :: u32;
          a = (if a < 4 then 4 else a);
          a = (if a > T then T else a);
          min_chunk = T div 8
      in if min_chunk > 0 \<and> a < min_chunk then min_chunk else a)"

definition effective_tokens_per_chunk :: "WarpSpecConfig \<Rightarrow> u32 option" where
  "effective_tokens_per_chunk cfg =
     (if per_tile_mode cfg then Some (cfg_tokens_per_tile cfg)
      else if cfg_tokens_per_chunk cfg > 0 then Some (cfg_tokens_per_chunk cfg)
      else if cfg_token_size cfg = 0 then None
      else round_pow2 (auto_chunk (cfg_token_size cfg) (cfg_tokens_per_tile cfg)) 1)"

definition total_tiles_of :: "WarpSpecConfig \<Rightarrow> u32 option" where
  "total_tiles_of cfg = (if cfg_tokens_per_tile cfg = 0 then None else Some (total_tokens cfg div cfg_tokens_per_tile cfg))"

definition chunks_per_tile_of :: "WarpSpecConfig \<Rightarrow> u32 option" where
  "chunks_per_tile_of cfg = Option.bind (effective_tokens_per_chunk cfg)
     (\<lambda>C. if C = 0 then None else Some (cfg_tokens_per_tile cfg div C))"

definition block_size :: "WarpSpecConfig \<Rightarrow> int option" where
  "block_size cfg = map_option (\<lambda>k. let K = sint k in if double_buffer cfg then (1 + 2 * K) * 32 else (1 + K) * 32) (chunks_per_tile_of cfg)"

section \<open>\<open>WarpSpecSession\<close>\<close>

text \<open>\<open>tq_ptr\<close> is 0 and \<open>ws_poller\<close> is \<open>None\<close> while the members are null.\<close>

record WarpSpecSession =
  ws_config :: WarpSpecConfig
  tq_ptr :: u64
  ws_scheduler :: TileScheduler
  ws_poller :: "PollerObject option"
  poller_started :: bool
  num_blocks :: int

type_synonym world = "StagingPool \<times> host_log"

definition null_scheduler :: TileScheduler where
  "null_scheduler = \<lparr>next_tile = 0, total_tiles = 0, tokens_per_tile = 0, tokens_per_chunk = 0, chunks_per_tile = 0, token_size = 0\<rparr>"

definition empty_descriptor_queue :: DescriptorQueue where
  "empty_descriptor_queue = \<lparr>entries = \<lambda>_. \<lparr>src_addr = 0, dst_addr = 0, desc_size = 0, flags = 0, user_data = 0, sequence = 0\<rparr>,
     write_idx = 0, read_idx = 0, done_idx = 0\<rparr>"

definition set_po :: "(Poller \<Rightarrow> Poller) \<Rightarrow> PollerObject \<Rightarrow> PollerObject" where
  "set_po f obj = obj\<lparr>po := f (po obj)\<rparr>"

definition count_blocks :: "host_driver \<Rightarrow> int \<Rightarrow> host_log \<Rightarrow> int \<times> host_log" where
  "count_blocks sys n lg =
     (if n > 0 then (n, lg) else case host sys DeviceGetAttribute lg of (ok, v, lg) \<Rightarrow> (if ok then uint v else 0, lg))"

text \<open>The device-side signal array, zeroed; without it the kernels poll host memory.\<close>

definition alloc_signals :: "host_driver \<Rightarrow> nat \<Rightarrow> host_log \<Rightarrow> u64 option \<times> host_log" where
  "alloc_signals sys n lg = (case host sys (Malloc (of_nat (n * 8))) lg of
     (ok, d, lg) \<Rightarrow> if ok then (Some d, host_do sys (Memset d (of_nat (n * 8))) lg) else (None, lg))"

text \<open>The part of the constructor after validation. The size of \<open>TiledQueue\<close> is left to the compiler.\<close>

definition build_session :: "cu_driver \<Rightarrow> host_driver \<Rightarrow> trace \<Rightarrow> mem \<Rightarrow> u64 \<Rightarrow> u32 \<Rightarrow> WarpSpecSession \<Rightarrow> world \<Rightarrow> (WarpSpecSession \<times> world) option" where
  "build_session drv sys tr m sizeof_tq C s = (\<lambda>(pool, lg).
     (let cfg = ws_config s; (nb, lg) = count_blocks sys (cfg_num_blocks cfg) lg; (ok, tq, lg) = host sys (HostAlloc sizeof_tq) lg
      in if \<not> ok then None
         else let sch = \<lparr>next_tile = 0, total_tiles = total_tokens cfg div cfg_tokens_per_tile cfg, tokens_per_tile = cfg_tokens_per_tile cfg,
                    tokens_per_chunk = C, chunks_per_tile = cfg_tokens_per_tile cfg div C, token_size = cfg_token_size cfg\<rparr>;
                  (d_signal, lg) = alloc_signals sys MAX_TILES lg;
                  total_size = ucast (total_tokens cfg) * ucast (cfg_token_size cfg) :: u64;
                  (_, pool, lg) = pool_init sys 1 total_size 0 (pool, lg);
                  p = (new_poller empty_descriptor_queue (use_copy_engine cfg) tr m)
                    \<lparr>tiled_set := True, host_tile_addr := tq, dev_tile_addr := d_signal\<rparr>;
                  obj = new_polling_thread p total_size (cfg_numa_node cfg) 0 0 (-1) 0;
                  (_, obj, pool, lg) = (if use_copy_engine cfg then init_copy_engine drv sys (obj, pool, lg) else (True, obj, pool, lg))
              in Some (s\<lparr>num_blocks := nb, tq_ptr := tq, ws_scheduler := sch, ws_poller := Some obj\<rparr>, pool, lg)))"

definition new_session :: "cu_driver \<Rightarrow> host_driver \<Rightarrow> trace \<Rightarrow> mem \<Rightarrow> u64 \<Rightarrow> WarpSpecConfig \<Rightarrow> world \<Rightarrow> (WarpSpecSession \<times> world) option" where
  "new_session drv sys tr m sizeof_tq cfg w =
     (let s = \<lparr>ws_config = cfg, tq_ptr = 0, ws_scheduler = null_scheduler, ws_poller = None, poller_started = False, num_blocks = 0\<rparr>
      in if total_tokens cfg = 0 \<or> cfg_token_size cfg = 0 then Some (s, w)
         else if cfg_tokens_per_tile cfg = 0 then Some (s, w)
         else Option.bind (effective_tokens_per_chunk cfg) (\<lambda>C.
           if C = 0 then Some (s, w)
           else if cfg_tokens_per_tile cfg mod C \<noteq> 0 then Some (s, w)
           else build_session drv sys tr m sizeof_tq C s w))"

definition delete_session :: "cu_driver \<Rightarrow> host_driver \<Rightarrow> WarpSpecSession \<Rightarrow> world \<Rightarrow> world" where
  "delete_session drv sys s = (\<lambda>(pool, lg).
     (let signal = (case ws_poller s of Some obj \<Rightarrow> dev_tile_addr (po obj) | None \<Rightarrow> None);
          (pool, lg) = (case ws_poller s of Some obj \<Rightarrow> snd (delete_poller drv sys (poller_stop obj, pool, lg)) | None \<Rightarrow> (pool, lg));
          lg = (if tq_ptr s \<noteq> 0
            then host_do sys (FreeHost (tq_ptr s)) (case signal of Some d \<Rightarrow> host_do sys (Free d) lg | None \<Rightarrow> lg) else lg)
      in pool_shutdown sys (pool, lg)))"

record LaunchParams =
  lp_tq :: u64
  lp_gpu_buffer :: u64
  lp_cpu_base :: u64
  lp_grid :: int
  lp_block :: int

definition get_launch_params :: "WarpSpecSession \<Rightarrow> LaunchParams option" where
  "get_launch_params s = map_option (\<lambda>b. \<lparr>lp_tq = tq_ptr s, lp_gpu_buffer = gpu_dst (ws_config s), lp_cpu_base = cpu_src (ws_config s),
     lp_grid = num_blocks s, lp_block = b\<rparr>) (block_size (ws_config s))"

definition stop_started :: "WarpSpecSession \<Rightarrow> WarpSpecSession" where
  "stop_started s = (if poller_started s then s\<lparr>ws_poller := map_option poller_stop (ws_poller s), poller_started := False\<rparr> else s)"

definition synchronize :: "host_driver \<Rightarrow> WarpSpecSession \<Rightarrow> host_log \<Rightarrow> WarpSpecSession \<times> host_log" where
  "synchronize sys s lg = (stop_started s, host_do sys DeviceSynchronize lg)"

definition session_reset :: "host_driver \<Rightarrow> WarpSpecSession \<Rightarrow> host_log \<Rightarrow> (WarpSpecSession \<times> host_log) option" where
  "session_reset sys s lg =
     (let s = stop_started s in
      case ws_poller s of
        Some obj \<Rightarrow> if tq_ptr s = 0 then None
          else Some (s\<lparr>ws_scheduler := (ws_scheduler s)\<lparr>next_tile := 0\<rparr>,
                       ws_poller := Some (set_po (\<lambda>p. reset_stats (p\<lparr>host_tile_done := \<lambda>_. 0\<rparr>)) obj)\<rparr>,
                     case dev_tile_addr (po obj) of Some d \<Rightarrow> host_do sys (Memset d (of_nat (MAX_TILES * 8))) lg | None \<Rightarrow> lg)
      | None \<Rightarrow> None)"

text \<open>The kernel gets the parameters, and the poller starts after it.\<close>

definition session_launch :: "host_driver \<Rightarrow> WarpSpecSession \<Rightarrow> host_log \<Rightarrow> (LaunchParams \<times> WarpSpecSession \<times> host_log) option" where
  "session_launch sys s lg =
     Option.bind (session_reset sys s lg) (\<lambda>(s, lg).
       map_option (\<lambda>params. (params, s\<lparr>ws_poller := map_option poller_start (ws_poller s), poller_started := True\<rparr>, lg)) (get_launch_params s))"

section \<open>The chunk size\<close>

lemma round_pow2_result:
  assumes "unat p * 2 ^ n \<le> unat a" "unat a < unat p * 2 ^ Suc n" "unat a < 2 ^ 31"
  shows "round_pow2 a p = Some (p * 2 ^ n)"
  using assms
proof (induction n arbitrary: p)
  case 0
  have "unat p * 2 < 2 ^ 32" using 0(1,3) by simp
  then have "unat (p * 2) = unat p * 2" by (simp add: unat_word_ariths)
  then have "\<not> p * 2 \<le> a" using 0(2) by (simp add: word_le_nat_alt)
  then show ?case by (subst round_pow2.simps) simp
next
  case (Suc n)
  have le: "unat p * 2 \<le> unat a"
  proof -
    have "unat p * 2 \<le> unat p * 2 ^ Suc n" by simp
    with Suc.prems(1) show ?thesis by linarith
  qed
  then have u: "unat (p * 2) = unat p * 2" using Suc.prems(3) by (simp add: unat_word_ariths)
  have "round_pow2 a (p * 2) = Some (p * 2 * 2 ^ n)"
    using Suc.prems by (intro Suc.IH) (simp_all add: u mult.assoc)
  moreover have "p * 2 \<le> a" using le u by (simp add: word_le_nat_alt)
  ultimately show ?case by (subst round_pow2.simps) (simp add: mult.assoc)
qed

lemma auto_chunk_bounds:
  assumes "tsize \<noteq> 0" "T \<noteq> 0"
  shows "1 \<le> unat (auto_chunk tsize T)" and "unat (auto_chunk tsize T) \<le> unat T" and "unat T div 8 \<le> unat (auto_chunk tsize T)"
    and "unat (auto_chunk tsize T) < 2 ^ 31"
proof -
  define target where "target = (if tsize \<le> 512 then 64 * 1024 else if 65536 \<le> tsize then 256 * 1024 else 128 * 1024 :: u64)"
  define a where "a = (ucast (target div ucast tsize) :: u32)"
  have "unat (target div ucast tsize) \<le> unat target" by (simp add: unat_div)
  moreover have "unat target \<le> 262144" by (simp add: target_def)
  moreover have "unat a \<le> unat (target div ucast tsize)" by (simp add: a_def unsigned_ucast_eq take_bit_eq_mod)
  ultimately have a: "unat a \<le> 262144" by linarith
  define b where "b = (if a < 4 then 4 else a)"
  have b: "1 \<le> unat b" "unat b \<le> 262144" using a by (auto simp: b_def word_less_nat_alt)
  define c where "c = (if b > T then T else b)"
  have T: "0 < unat T" using assms(2) by (simp add: unat_gt_0)
  have c: "1 \<le> unat c" "unat c \<le> 262144" "unat c \<le> unat T" using b T by (auto simp: c_def word_less_nat_alt)
  have m: "unat (T div 8) = unat T div 8" by (simp add: unat_div)
  have T32: "unat T < 2 ^ 32" by (rule unat_u32_lt)
  have "auto_chunk tsize T = (if T div 8 > 0 \<and> c < T div 8 then T div 8 else c)"
    unfolding auto_chunk_def Let_def c_def b_def a_def target_def by (rule refl)
  then have "unat (auto_chunk tsize T) = max (unat T div 8) (unat c)"
    using c(1) by (auto simp: word_less_nat_alt m max_def)
  then show "1 \<le> unat (auto_chunk tsize T)" "unat (auto_chunk tsize T) \<le> unat T" "unat T div 8 \<le> unat (auto_chunk tsize T)"
    "unat (auto_chunk tsize T) < 2 ^ 31" using c T32 by auto
qed

text \<open>The automatic chunk size is a power of two that gives between 1 and 15 chunks.\<close>

lemma auto_chunk_result:
  assumes "cfg_token_size cfg \<noteq> 0" "cfg_tokens_per_tile cfg \<noteq> 0" "\<not> per_tile_mode cfg" "cfg_tokens_per_chunk cfg = 0"
  obtains n C where "effective_tokens_per_chunk cfg = Some C" "unat C = 2 ^ n" "unat C \<le> unat (cfg_tokens_per_tile cfg)"
    "1 \<le> unat (cfg_tokens_per_tile cfg) div unat C" "unat (cfg_tokens_per_tile cfg) div unat C \<le> 15"
proof -
  let ?T = "cfg_tokens_per_tile cfg"
  define a where "a = auto_chunk (cfg_token_size cfg) ?T"
  note b = auto_chunk_bounds [OF assms(1,2), folded a_def]
  obtain n where n: "2 ^ n \<le> unat a" "unat a < 2 ^ Suc n" using ex_power_ivl1 [of 2 "unat a"] b(1) by auto
  have "(2::nat) ^ n < 2 ^ 31" using n(1) b(4) by simp
  then have "n < 31" by (rule power_less_imp_less_exp [rotated]) simp
  then have "(2::nat) ^ n < 2 ^ 32" by (intro power_strict_increasing) simp_all
  then have "unat (of_nat (2 ^ n) :: u32) = 2 ^ n" by (rule unat_of_nat_u32)
  then have u: "unat (2 ^ n :: u32) = 2 ^ n" by simp
  have "round_pow2 a 1 = Some (1 * 2 ^ n)" using n b(4) by (intro round_pow2_result) simp_all
  then have eff: "effective_tokens_per_chunk cfg = Some (2 ^ n)" using assms by (simp add: effective_tokens_per_chunk_def a_def)
  have le: "2 ^ n \<le> unat ?T" using n(1) b(2) by simp
  have "unat ?T < 16 * 2 ^ n" using b(3) n(2) by simp
  then have "unat ?T div 2 ^ n < 16" by (simp add: less_mult_imp_div_less)
  moreover have "1 \<le> unat ?T div 2 ^ n" using le by (simp add: div_greater_zero_iff Suc_le_eq)
  ultimately show ?thesis using that [OF eff] u le by simp
qed

lemma block_size_auto:
  assumes "cfg_token_size cfg \<noteq> 0" "cfg_tokens_per_tile cfg \<noteq> 0" "\<not> per_tile_mode cfg" "cfg_tokens_per_chunk cfg = 0"
  shows "\<exists>b. block_size cfg = Some b \<and> 64 \<le> b \<and> b \<le> (if double_buffer cfg then 992 else 512)"
proof -
  obtain n C where C: "effective_tokens_per_chunk cfg = Some C" "unat C = 2 ^ n"
    "1 \<le> unat (cfg_tokens_per_tile cfg) div unat C" "unat (cfg_tokens_per_tile cfg) div unat C \<le> 15"
    using auto_chunk_result [OF assms] by metis
  define K where "K = cfg_tokens_per_tile cfg div C"
  have "unat K = unat (cfg_tokens_per_tile cfg) div unat C" by (simp add: K_def unat_div)
  then have u: "1 \<le> unat K" "unat K \<le> 15" using C(3,4) by simp_all
  have small: "- (2 ^ 31) \<le> int n \<and> int n < 2 ^ 31" if "n \<le> 15" for n using that by simp
  have "sint K = signed_take_bit 31 (uint K)" by (simp add: sint_uint)
  also have "uint K = int (unat K)" by (rule uint_nat)
  also have "signed_take_bit 31 (int (unat K)) = int (unat K)" 
    by (intro signed_take_bit_int_eq_self) (use small [OF u(2)] in blast)+
  finally have sK: "sint K = int (unat K)" .
  have "1 \<le> sint K" "sint K \<le> 15" unfolding sK using u by linarith+
  moreover have "C \<noteq> 0" using C(2) by auto
  ultimately show ?thesis using C(1) by (auto simp: block_size_def chunks_per_tile_of_def K_def [symmetric] Let_def)
qed

section \<open>A whole life\<close>

lemma host_do_acquire: "held lg = Some h \<Longrightarrow> released c = {#} \<Longrightarrow> held (host_do sys c lg) = Some (h + acquired (c, sys lg c))"
  by (cases "sys lg c") (simp add: held_host)

lemma host_do_neutral:
  "held (host_do sys DeviceGetAttribute lg) = held lg" "held (host_do sys DeviceSynchronize lg) = held lg" "held (host_do sys (Memset a n) lg) = held lg"
proof -
  have a: "acquired (DeviceGetAttribute, r) = {#}" "acquired (DeviceSynchronize, r) = {#}" "acquired (Memset a n, r) = {#}" for r
    by (cases r; simp)+
  show "held (host_do sys DeviceGetAttribute lg) = held lg" "held (host_do sys DeviceSynchronize lg) = held lg" "held (host_do sys (Memset a n) lg) = held lg"
    by (cases "held lg"; simp add: held_host a)+
qed

text \<open>What a session owns besides its poller.\<close>

definition session_debt :: "WarpSpecSession \<Rightarrow> resource multiset" where
  "session_debt s = (if tq_ptr s = 0 then {#} else {#Pinned (tq_ptr s)#}
     + (case ws_poller s of Some obj \<Rightarrow> signal_debt obj + staging_debt obj
          + (case dev_tile_addr (po obj) of Some d \<Rightarrow> {#DeviceMem d#} | None \<Rightarrow> {#}) | None \<Rightarrow> {#}))"

definition session_pool :: "WarpSpecSession \<Rightarrow> StagingPool \<Rightarrow> StagingPool" where
  "session_pool s = (case ws_poller s of Some obj \<Rightarrow> pool_after obj | None \<Rightarrow> (\<lambda>pool. pool))"

definition null_members :: "WarpSpecSession \<Rightarrow> bool" where
  "null_members s \<longleftrightarrow> tq_ptr s = 0 \<and> ws_poller s = None"

lemma count_blocks_held: "count_blocks sys n lg = (nb, lg') \<Longrightarrow> held lg' = held lg"
  by (auto simp: count_blocks_def host_eq host_do_neutral split: if_splits)

lemma alloc_signals_held:
  assumes "alloc_signals sys n lg = (d, lg')" "held lg = Some h"
  shows "held lg' = Some (h + (case d of Some a \<Rightarrow> {#DeviceMem a#} | None \<Rightarrow> {#}))"
  using assms host_do_acquire [OF assms(2), of "Malloc (of_nat (n * 8))" sys]
  by (cases "sys lg (Malloc (of_nat (n * 8)))") (auto simp: alloc_signals_def host_eq host_do_neutral split: if_splits)

lemma fresh_new_polling_thread:
  "fresh_object (new_polling_thread ((new_poller q ce tr m)\<lparr>tiled_set := a, host_tile_addr := b, dev_tile_addr := c\<rparr>) sz numa off ch eb ec)"
  "fresh_object (new_polling_thread ((new_poller q ce tr m)\<lparr>sg_set := a, dev_list_addr := c\<rparr>) sz numa off ch eb ec)"
  by (simp_all add: fresh_object_def new_polling_thread_def new_poller_def)

lemma build_session_debt:
  assumes "build_session drv sys tr m sz C s0 (pool, lg) = Some (s, pool', lg')" "held lg = Some h" "nonnull sys" "uniform_pages sys huge"
    and "blank_pool pool"
  shows "tq_ptr s \<noteq> 0 \<and> (\<exists>obj. ws_poller s = Some obj)" "ws_config s = ws_config s0" "poller_started s = poller_started s0"
    "held lg' = Some (h + pool_debt (session_pool s pool') + session_debt s)"
proof -
  define cfg where "cfg = ws_config s0"
  obtain nb l0 where cb: "count_blocks sys (cfg_num_blocks cfg) lg = (nb, l0)" by fastforce
  note h0 = count_blocks_held [OF cb, unfolded assms(2)]
  obtain ok tq where al: "sys l0 (HostAlloc sz) = (ok, tq)" by fastforce
  let ?l1 = "host_do sys (HostAlloc sz) l0"
  have ok: ok using assms(1) cb al by (auto simp: build_session_def cfg_def host_eq Let_def split: if_splits)
  have tq: "tq \<noteq> 0" using nonnullD(3) [OF assms(3), of l0 sz tq] al ok by simp
  have h1: "held ?l1 = Some (h + {#Pinned tq#})" using host_do_acquire [OF h0, of "HostAlloc sz" sys] al ok by simp
  obtain d l2 where sg: "alloc_signals sys MAX_TILES ?l1 = (d, l2)" by fastforce
  note h2 = alloc_signals_held [OF sg h1]
  define size where "size = (ucast (total_tokens cfg) * ucast (cfg_token_size cfg) :: u64)"
  obtain iok p1 l3 where pi: "pool_init sys 1 size 0 (pool, l2) = (iok, p1, l3)" by (cases "pool_init sys 1 size 0 (pool, l2)") auto
  note h3 = pool_init_held(1) [OF pi h2 assms(3-5)]
  define p where "p = (new_poller empty_descriptor_queue (use_copy_engine cfg) tr m)\<lparr>tiled_set := True, host_tile_addr := tq, dev_tile_addr := d\<rparr>"
  define obj where "obj = new_polling_thread p size (cfg_numa_node cfg) 0 0 (-1) 0"
  have fresh: "fresh_object obj" by (simp add: obj_def p_def fresh_new_polling_thread)
  obtain r obj' p2 l4 where ic: "(if use_copy_engine cfg then init_copy_engine drv sys (obj, p1, l3) else (True, obj, p1, l3)) = (r, obj', p2, l4)"
    by (cases "if use_copy_engine cfg then init_copy_engine drv sys (obj, p1, l3) else (True, obj, p1, l3)") auto
  have h4: "held l4 = Some (h + {#Pinned tq#} + (case d of Some a \<Rightarrow> {#DeviceMem a#} | None \<Rightarrow> {#}) + pool_debt p1 + signal_debt obj' + staging_debt obj')
      \<and> pool_after obj' p2 = p1 \<and> dev_tile_addr (po obj') = d"
  proof (cases "use_copy_engine cfg")
    case True
    then have ic': "init_copy_engine drv sys (obj, p1, l3) = (r, obj', p2, l4)" using ic by simp
    from init_copy_engine_debt(1,2) [OF ic' h3 assms(3) fresh] init_copy_engine_addrs [OF ic', unfolded addrs_of_def] show ?thesis
      by (simp add: obj_def p_def new_polling_thread_def)
  next
    case False
    then show ?thesis using ic h3 fresh_debt [OF fresh] by (auto simp: obj_def p_def new_polling_thread_def)
  qed
  have res: "ws_poller s = Some obj'" "tq_ptr s = tq" "pool' = p2" "lg' = l4" "ws_config s = ws_config s0" "poller_started s = poller_started s0"
    using assms(1) cb al ok sg pi ic [unfolded obj_def p_def] unfolding build_session_def cfg_def [symmetric]
    by (auto simp: host_eq Let_def size_def [symmetric] cfg_def [symmetric])
  show "tq_ptr s \<noteq> 0 \<and> (\<exists>obj. ws_poller s = Some obj)" "ws_config s = ws_config s0" "poller_started s = poller_started s0"
    using res tq by simp_all
  show "held lg' = Some (h + pool_debt (session_pool s pool') + session_debt s)"
    using h4 res tq by (simp add: session_pool_def session_debt_def ac_simps)
qed

text \<open>Between construction and destruction: launches, waits and resets in any order keep what the session owns.\<close>

inductive session_step :: "host_driver \<Rightarrow> WarpSpecSession \<times> host_log \<Rightarrow> WarpSpecSession \<times> host_log \<Rightarrow> bool" for sys where
  step_launch: "session_launch sys s lg = Some (params, s', lg') \<Longrightarrow> session_step sys (s, lg) (s', lg')"
| step_synchronize: "session_step sys (s, lg) (synchronize sys s lg)"
| step_reset: "session_reset sys s lg = Some (s', lg') \<Longrightarrow> session_step sys (s, lg) (s', lg')"

definition keeps_session :: "WarpSpecSession \<Rightarrow> WarpSpecSession \<Rightarrow> bool" where
  "keeps_session s s' \<longleftrightarrow> tq_ptr s' = tq_ptr s \<and>
     (case (ws_poller s, ws_poller s') of
        (Some obj, Some obj') \<Rightarrow> same_buffers obj obj' \<and> addrs_of obj' = addrs_of obj
      | (None, None) \<Rightarrow> True | _ \<Rightarrow> False)"

lemma keeps_session_trans: "keeps_session a b \<Longrightarrow> keeps_session b c \<Longrightarrow> keeps_session a c"
  by (auto simp: keeps_session_def same_buffers_def split: option.splits)

lemma keeps_session_debt:
  assumes "keeps_session s s'"
  shows "session_debt s' = session_debt s" "session_pool s' = session_pool s"
    "tq_ptr s' = tq_ptr s" "ws_poller s' = None \<longleftrightarrow> ws_poller s = None"
  using assms debt_same by (auto simp: keeps_session_def session_debt_def session_pool_def addrs_of_def split: option.splits)

lemma keeps_poller:
  "same_buffers obj (poller_stop obj)" "same_buffers obj (poller_start obj)" "addrs_of (poller_stop obj) = addrs_of obj"
  "addrs_of (poller_start obj) = addrs_of obj"
  by (simp_all add: same_buffers_def poller_stop_def poller_start_def addrs_of_def)

lemma same_buffers_refl [simp]: "same_buffers obj obj"
  by (simp add: same_buffers_def)

lemma keeps_stop: "keeps_session s (stop_started s)"
  by (cases "ws_poller s") (auto simp: keeps_session_def stop_started_def keeps_poller)

lemma keeps_start: "keeps_session s (s\<lparr>ws_poller := map_option poller_start (ws_poller s), poller_started := True\<rparr>)"
  by (cases "ws_poller s") (auto simp: keeps_session_def keeps_poller)

lemma keeps_reset:
  assumes "session_reset sys s lg = Some (s', lg')"
  shows "keeps_session s s'" "held lg' = held lg"
proof -
  have "keeps_session (stop_started s) s'" using assms
    by (auto simp: session_reset_def Let_def keeps_session_def set_po_def reset_stats_def same_buffers_def addrs_of_def split: option.splits if_splits)
  then show "keeps_session s s'" using keeps_stop keeps_session_trans by blast
  show "held lg' = held lg" using assms by (auto simp: session_reset_def Let_def host_do_neutral split: option.splits if_splits)
qed

lemma keeps_step: "session_step sys (s, lg) (s', lg') \<Longrightarrow> keeps_session s s' \<and> held lg' = held lg"
proof (induction "(s, lg)" "(s', lg')" rule: session_step.induct)
  case (step_launch params)
  then obtain s1 where "session_reset sys s lg = Some (s1, lg')"
    and "s' = s1\<lparr>ws_poller := map_option poller_start (ws_poller s1), poller_started := True\<rparr>"
    by (auto simp: session_launch_def split: bind_splits)
  then show ?case using keeps_reset keeps_start keeps_session_trans by blast
next
  case step_synchronize
  then show ?case by (auto simp: synchronize_def keeps_stop host_do_neutral)
next
  case step_reset
  then show ?case using keeps_reset by blast
qed

text \<open>What the whole process owes: the session, and the pool as it is once the poller's set is back.\<close>

definition session_owes :: "StagingPool \<Rightarrow> resource multiset \<Rightarrow> WarpSpecSession \<times> host_log \<Rightarrow> bool" where
  "session_owes pool h = (\<lambda>(s, lg). held lg = Some (h + pool_debt (session_pool s pool) + session_debt s) \<and> (tq_ptr s = 0 \<longrightarrow> ws_poller s = None))"

interpretation session: step_invariant "session_step sys" "session_owes pool h" "session_owes pool h" for sys pool h
proof unfold_locales
  fix x y assume inv: "session_owes pool h x" and st: "session_step sys x y"
  obtain s lg s' lg' where xy: "x = (s, lg)" "y = (s', lg')" by (cases x, cases y) auto
  from keeps_step [of sys s lg s' lg'] st have k: "keeps_session s s'" "held lg' = held lg" by (simp_all add: xy)
  from inv keeps_session_debt [OF k(1)] k(2) show "session_owes pool h y" by (simp add: session_owes_def xy)
qed

lemma new_session_owes:
  assumes "new_session drv sys tr m sz cfg (pool, lg) = Some (s, pool', lg')" "held lg = Some h" "nonnull sys" "uniform_pages sys huge"
    and "blank_pool pool"
  shows "session_owes pool' h (s, lg')"
proof -
  let ?s0 = "\<lparr>ws_config = cfg, tq_ptr = 0, ws_scheduler = null_scheduler, ws_poller = None, poller_started = False, num_blocks = 0\<rparr>"
  have null: ?thesis if "Some (s, pool', lg') = Some (?s0, pool, lg)"
    using that assms(2,5) by (simp add: session_owes_def session_debt_def session_pool_def pool_debt_def blank_pool_def)
  have built: ?thesis if "build_session drv sys tr m sz C ?s0 (pool, lg) = Some (s, pool', lg')" for C
    using build_session_debt [OF that assms(2-5)] by (auto simp: session_owes_def)
  show ?thesis
  proof (cases "total_tokens cfg = 0 \<or> cfg_token_size cfg = 0 \<or> cfg_tokens_per_tile cfg = 0")
    case True
    then show ?thesis using assms(1) by (intro null) (simp add: new_session_def Let_def split: if_split_asm)
  next
    case False
    then obtain C where C: "effective_tokens_per_chunk cfg = Some C"
      using assms(1) by (cases "effective_tokens_per_chunk cfg") (simp_all add: new_session_def Let_def)
    show ?thesis
    proof (cases "C = 0 \<or> cfg_tokens_per_tile cfg mod C \<noteq> 0")
      case True
      then show ?thesis using assms(1) False C by (intro null) (simp add: new_session_def Let_def split: if_split_asm)
    next
      case neither: False
      then show ?thesis using assms(1) False C by (intro built [of C]) (simp add: new_session_def Let_def)
    qed
  qed
qed

lemma delete_session_balanced:
  assumes "session_owes pool h (s, lg)" "delete_session drv sys s (pool, lg) = (pool', lg')"
  shows "held lg' = Some h" "\<not> pool_initialized pool'"
proof -
  let ?sig = "case ws_poller s of Some obj \<Rightarrow> dev_tile_addr (po obj) | None \<Rightarrow> None"
  obtain p1 l1 where d: "(case ws_poller s of Some obj \<Rightarrow> snd (delete_poller drv sys (poller_stop obj, pool, lg)) | None \<Rightarrow> (pool, lg)) = (p1, l1)"
    by fastforce
  let ?l2 = "if tq_ptr s \<noteq> 0 then host_do sys (FreeHost (tq_ptr s)) (case ?sig of Some d \<Rightarrow> host_do sys (Free d) l1 | None \<Rightarrow> l1) else l1"
  have fin: "pool_shutdown sys (p1, ?l2) = (pool', lg')" using assms(2) d by (simp add: delete_session_def Let_def)
  have fh: "held (host_do sys (FreeHost a) l) = Some x" if "held l = Some (x + {#Pinned a#})" for a l x
    using that by (cases "sys l (FreeHost a)") (simp add: held_host)
  have fd: "held (host_do sys (Free a) l) = Some x" if "held l = Some (x + {#DeviceMem a#})" for a l x
    using that by (cases "sys l (Free a)") (simp add: held_host)
  have "held ?l2 = Some (h + pool_debt p1)"
  proof (cases "ws_poller s")
    case None
    then have "p1 = pool" "l1 = lg" using d by simp_all
    then show ?thesis using assms(1) None fh [of lg "h + pool_debt pool" "tq_ptr s"]
      by (auto simp: session_owes_def session_debt_def session_pool_def)
  next
    case (Some obj)
    have tq: "tq_ptr s \<noteq> 0" using assms(1) Some by (auto simp: session_owes_def)
    define x where "x = h + pool_debt (pool_after obj pool) + {#Pinned (tq_ptr s)#}"
    obtain ob dp where dp: "delete_poller drv sys (poller_stop obj, pool, lg) = (ob, p1, l1)" using d Some
      by (cases "delete_poller drv sys (poller_stop obj, pool, lg)") auto
    note same = debt_same [OF keeps_poller(1), of obj]
    have "held lg = Some (x + (case dev_tile_addr (po obj) of Some d \<Rightarrow> {#DeviceMem d#} | None \<Rightarrow> {#})
        + signal_debt (poller_stop obj) + staging_debt (poller_stop obj))"
      using assms(1) Some tq by (simp add: session_owes_def session_debt_def session_pool_def x_def same ac_simps)
    note dd = delete_poller_debt [OF dp this]
    have "held (case dev_tile_addr (po obj) of Some d \<Rightarrow> host_do sys (Free d) l1 | None \<Rightarrow> l1) = Some x"
      using dd(1) fd by (cases "dev_tile_addr (po obj)") simp_all
    then show ?thesis using fh [of _ "h + pool_debt p1" "tq_ptr s"] tq Some dd(2) same(3) by (simp add: x_def)
  qed
  from pool_shutdown_held [OF fin this] show "held lg' = Some h" "\<not> pool_initialized pool'" by simp_all
qed

end
