(* ===== verification/Sg_Session.thy ===== *)
theory Sg_Session
  imports Session
begin

text \<open>
  \<open>SGWarpSpecSession\<close> (\<open>include/gfd/warp_spec_session.h\<close>, \<open>src/sg_warp_spec_session.cpp\<close>): a session whose
  transfers are lists submitted to the scatter-gather queue by the host or by kernels. The host-mapped queue is
  \<open>sg_queue\<close>; the descriptor ring is the poller's \<open>p_queue\<close>, and the poller's view of \<open>lists_completed\<close> is kept equal
  to the queue's.
\<close>

section \<open>Configuration and state\<close>

record SGWarpSpecConfig =
  num_compute_warps :: int
  sg_num_blocks :: int
  sg_numa_node :: int
  sg_use_copy_engine :: bool

definition sg_block_size :: "SGWarpSpecConfig \<Rightarrow> int" where
  "sg_block_size cfg = (1 + (if num_compute_warps cfg > 0 then num_compute_warps cfg else 1)) * 32"

record SGWarpSpecSession =
  sg_config :: SGWarpSpecConfig
  sq_ptr :: u64
  dq_ptr :: u64
  sg_queue :: SGTaskQueue
  sg_poller :: PollerObject
  sg_started :: bool
  sg_blocks :: int

definition zero_sg_queue :: SGTaskQueue where
  "zero_sg_queue = \<lparr>sg_lists = \<lambda>_. \<lparr>pool_offset = 0, list_count = 0, list_id = 0, list_flags = 0, list_sequence = 0\<rparr>,
     sg_entries = \<lambda>_. \<lparr>de_src = 0, de_dst = 0, de_size = 0, de_tag = 0\<rparr>, list_alloc_idx = 0, entry_alloc_idx = 0, list_read_idx = 0,
     entry_consumed_idx = 0, sg_lists_completed = 0, sg_terminate = False, d_list_done = None\<rparr>"

section \<open>Operations\<close>

text \<open>The two host allocations are used without a check: a failed one is a null pointer passed to \<open>memset\<close>.\<close>

definition new_sg_session ::
  "cu_driver \<Rightarrow> host_driver \<Rightarrow> trace \<Rightarrow> mem \<Rightarrow> u64 \<Rightarrow> u64 \<Rightarrow> SGWarpSpecConfig \<Rightarrow> world \<Rightarrow> (SGWarpSpecSession \<times> world) option" where
  "new_sg_session drv sys tr m sizeof_sq sizeof_dq cfg = (\<lambda>(pool, lg).
     (let (nb, lg) = count_blocks sys (sg_num_blocks cfg) lg; (ok, sq, lg) = host sys (HostAlloc sizeof_sq) lg
      in if \<not> ok then None
         else let (ok, dq, lg) = host sys (HostAlloc sizeof_dq) lg
              in if \<not> ok then None
                 else let (d_done, lg) = alloc_signals sys MAX_SG_LISTS lg;
                          staging_size = of_nat (MAX_SG_POOL_ENTRIES * 4096) :: u64;
                          (_, pool, lg) = pool_init sys 1 staging_size 0 (pool, lg);
                          p = (new_poller empty_descriptor_queue (sg_use_copy_engine cfg) tr m)\<lparr>sg_set := True, dev_list_addr := d_done\<rparr>;
                          obj = new_polling_thread p staging_size (sg_numa_node cfg) 0 0 (-1) 0;
                          (_, obj, pool, lg) = (if sg_use_copy_engine cfg then init_copy_engine drv sys (obj, pool, lg) else (True, obj, pool, lg))
                      in Some (\<lparr>sg_config = cfg, sq_ptr = sq, dq_ptr = dq,
                                sg_queue = zero_sg_queue\<lparr>d_list_done := map_option (\<lambda>_ _. 0) d_done\<rparr>, sg_poller = obj, sg_started = False, sg_blocks = nb\<rparr>,
                               pool, lg)))"

definition delete_sg_session :: "cu_driver \<Rightarrow> host_driver \<Rightarrow> SGWarpSpecSession \<Rightarrow> world \<Rightarrow> world" where
  "delete_sg_session drv sys s = (\<lambda>(pool, lg).
     (let signal = dev_list_addr (po (sg_poller s));
          (_, pool, lg) = delete_poller drv sys (poller_stop (sg_poller s), pool, lg);
          lg = host_do sys (FreeHost (sq_ptr s)) (case signal of Some d \<Rightarrow> host_do sys (Free d) lg | None \<Rightarrow> lg)
      in (pool, host_do sys (FreeHost (dq_ptr s)) lg)))"

text \<open>The host's submission: no test for space, indices read and written back without atomics.\<close>

definition submit_sg_list :: "(nat \<Rightarrow> DeviceSGEntry) \<Rightarrow> u32 \<Rightarrow> u32 \<Rightarrow> u32 \<Rightarrow> SGTaskQueue \<Rightarrow> u64 \<times> SGTaskQueue" where
  "submit_sg_list es n lid flgs sq =
     (let off = entry_alloc_idx sq;
          sq = sq\<lparr>entry_alloc_idx := off + ucast n\<rparr>;
          sq = fold (\<lambda>i. store_entry (off + of_nat i) (es i)) [0..<unat n] sq;
          slot = list_alloc_idx sq;
          sq = sq\<lparr>list_alloc_idx := slot + 1\<rparr>;
          sq = set_list slot (\<lambda>l. l\<lparr>pool_offset := ucast (off mod of_nat MAX_SG_POOL_ENTRIES), list_count := n, list_id := lid, list_flags := flgs\<rparr>) sq
      in (slot, set_list slot (\<lambda>l. l\<lparr>list_sequence := slot + 1\<rparr>) sq))"

definition sg_stop_started :: "SGWarpSpecSession \<Rightarrow> SGWarpSpecSession" where
  "sg_stop_started s = (if sg_started s then s\<lparr>sg_poller := poller_stop (sg_poller s), sg_started := False\<rparr> else s)"

text \<open>Returns only when everything submitted since the counters were last zeroed has completed.\<close>

definition sg_synchronize :: "host_driver \<Rightarrow> SGWarpSpecSession \<Rightarrow> host_log \<Rightarrow> (SGWarpSpecSession \<times> host_log) option" where
  "sg_synchronize sys s lg =
     (if list_alloc_idx (sg_queue s) \<le> sg_lists_completed (sg_queue s)
      then Some (sg_stop_started (s\<lparr>sg_queue := (sg_queue s)\<lparr>sg_terminate := True\<rparr>\<rparr>), host_do sys DeviceSynchronize lg)
      else None)"

definition clear_list_done :: "host_driver \<Rightarrow> SGWarpSpecSession \<Rightarrow> host_log \<Rightarrow> SGTaskQueue \<times> host_log" where
  "clear_list_done sys s lg =
     ((sg_queue s)\<lparr>d_list_done := map_option (\<lambda>_ _. 0) (d_list_done (sg_queue s))\<rparr>,
      case dev_list_addr (po (sg_poller s)) of Some d \<Rightarrow> host_do sys (Memset d (of_nat (MAX_SG_LISTS * 8))) lg | None \<Rightarrow> lg)"

definition zero_ring :: "PollerObject \<Rightarrow> PollerObject" where
  "zero_ring = set_po (\<lambda>p. reset_stats (p\<lparr>lists_completed := 0, p_queue := (p_queue p)\<lparr>write_idx := 0, read_idx := 0, done_idx := 0\<rparr>\<rparr>))"

definition sg_reset :: "host_driver \<Rightarrow> SGWarpSpecSession \<Rightarrow> host_log \<Rightarrow> SGWarpSpecSession \<times> host_log" where
  "sg_reset sys s lg =
     (let s = sg_stop_started s;
          (sq, lg) = clear_list_done sys s lg;
          sq = sq\<lparr>list_alloc_idx := 0, list_read_idx := 0, entry_alloc_idx := 0, entry_consumed_idx := 0, sg_lists_completed := 0,
                  sg_terminate := False, sg_lists := fold (\<lambda>i ls. ls(i := (ls i)\<lparr>list_sequence := 0\<rparr>)) [0..<MAX_SG_LISTS] (sg_lists sq)\<rparr>
      in (s\<lparr>sg_queue := sq, sg_poller := zero_ring (sg_poller s)\<rparr>, lg))"

record SGLaunchParams =
  sl_dq :: u64
  sl_sq :: u64
  sl_grid :: int
  sl_block :: int

text \<open>A launch keeps the queue's lists and its two list indices, but zeroes the count of completed ones.\<close>

definition sg_launch :: "host_driver \<Rightarrow> SGWarpSpecSession \<Rightarrow> host_log \<Rightarrow> SGLaunchParams \<times> SGWarpSpecSession \<times> host_log" where
  "sg_launch sys s lg =
     (let s = sg_stop_started s;
          (sq, lg) = clear_list_done sys s lg;
          s = s\<lparr>sg_queue := sq\<lparr>sg_terminate := False, sg_lists_completed := 0\<rparr>, sg_poller := poller_start (zero_ring (sg_poller s)), sg_started := True\<rparr>
      in (\<lparr>sl_dq = dq_ptr s, sl_sq = sq_ptr s, sl_grid = sg_blocks s, sl_block = sg_block_size (sg_config s)\<rparr>, s, lg))"

section \<open>Host and device submission\<close>

lemma stored_entries_only: "stored off es xs sq = sq\<lparr>sg_entries := sg_entries (stored off es xs sq)\<rparr>"
proof (induction xs arbitrary: sq)
  case (Cons x xs)
  let ?t = "sq\<lparr>sg_entries := (sg_entries sq)(pool_slot (off + of_nat x) := es x)\<rparr>"
  have "stored off es (x # xs) sq = stored off es xs ?t" by (simp add: stored_def store_entry_def)
  moreover have "\<dots> = ?t\<lparr>sg_entries := sg_entries (stored off es xs ?t)\<rparr>" by (rule Cons.IH)
  ultimately show ?case by simp
qed (simp add: stored_def)

lemma stored_order:
  assumes "mset is = mset js" "distinct js" "\<And>i. i \<in> set js \<Longrightarrow> i < MAX_SG_POOL_ENTRIES"
  shows "stored off es is sq = stored off es js sq"
proof -
  have js: "set is = set js" "distinct is" using assms(1,2) by (metis mset_eq_setD, metis mset_eq_imp_distinct_iff)
  have "sg_entries (stored off es is sq) k = sg_entries (stored off es js sq) k" for k
  proof (cases "\<exists>j\<in>set js. k = pool_slot (off + of_nat j)")
    case True
    then obtain j where j: "j \<in> set js" "k = pool_slot (off + of_nat j)" by blast
    have "sg_entries (stored off es is sq) k = es j" "sg_entries (stored off es js sq) k = es j"
      unfolding j(2) using j(1) js assms(2,3) by (auto intro!: stored_at)
    then show ?thesis by simp
  next
    case False
    then have "sg_entries (stored off es is sq) k = sg_entries sq k" "sg_entries (stored off es js sq) k = sg_entries sq k"
      using js(1) by (auto intro!: stored_other)
    then show ?thesis by simp
  qed
  then have "sg_entries (stored off es is sq) = sg_entries (stored off es js sq)" by (rule ext)
  then show ?thesis using stored_entries_only [of off es "is" sq] stored_entries_only [of off es js sq] by simp
qed

text \<open>The offset in the header: reduced in 64 bits by the host, truncated and then reduced by the device.\<close>

lemma header_offset: "(ucast (off mod of_nat MAX_SG_POOL_ENTRIES) :: u32) = ucast off mod of_nat MAX_SG_POOL_ENTRIES" for off :: u64
proof -
  have m: "unat (of_nat MAX_SG_POOL_ENTRIES :: u32) = MAX_SG_POOL_ENTRIES" "unat (of_nat MAX_SG_POOL_ENTRIES :: u64) = MAX_SG_POOL_ENTRIES"
    by (simp_all add: MAX_SG_POOL_ENTRIES_def)
  have d: "MAX_SG_POOL_ENTRIES dvd 2 ^ 32" by (simp add: MAX_SG_POOL_ENTRIES_def)
  have u: "unat (ucast x :: u32) = unat x mod 2 ^ 32" for x :: u64 by (simp add: unsigned_ucast_eq take_bit_eq_mod)
  have "unat off mod MAX_SG_POOL_ENTRIES < 2 ^ 32"
    by (rule order_less_trans [of _ MAX_SG_POOL_ENTRIES]) (simp_all add: MAX_SG_POOL_ENTRIES_def)
  then have "unat (ucast (off mod of_nat MAX_SG_POOL_ENTRIES) :: u32) = unat (ucast off mod of_nat MAX_SG_POOL_ENTRIES :: u32)"
    by (simp only: u unat_mod m mod_mod_cancel [OF d] mod_less)
  then show ?thesis by (simp only: word_unat_eq_iff)
qed

lemma submit_sg_list_eq:
  assumes "unat n \<le> MAX_SG_POOL_ENTRIES" "sg_wait_entry_space sq n" "sg_wait_list_space sq"
  shows "sg_submit_list es n lid fl sq = Some (submit_sg_list es n lid fl sq)"
proof -
  let ?sq = "sq\<lparr>entry_alloc_idx := entry_alloc_idx sq + ucast n\<rparr>"
  have "sg_write_entries (entry_alloc_idx sq) es n ?sq = stored (entry_alloc_idx sq) es [0..<unat n] ?sq"
    unfolding sg_write_entries_stored using assms(1) by (intro stored_order warp_indices_perm) auto
  then show ?thesis using assms(2,3)
    by (simp add: sg_submit_list_def submit_sg_list_def sg_alloc_entries_def sg_alloc_list_def sg_commit_list_def Let_def
      stored_def [symmetric] header_offset)
qed

end
