(* ===== verification/Setup_Properties.thy ===== *)
theory Setup_Properties
  imports Pcie_Topology Sg_Session
begin

text \<open>
  What holds of the parts that run before and after a transfer: the cores given to each GPU, the staging pool, the sessions'
  configuration and resources, and the scatter-gather queue's two submission paths.
\<close>

section \<open>Example inputs\<close>

text \<open>Two nodes of 32 cores, two GPUs on each; and a machine with one node that does not know its devices' node.\<close>

definition two_nodes :: sysfs where
  "two_nodes = \<lparr>max_numa = 1, node0_start = 0, node0_end = 31, ht_start = 64, device_numa = \<lambda>g. int (g div 2)\<rparr>"

definition one_node :: sysfs where
  "one_node = \<lparr>max_numa = 0, node0_start = 0, node0_end = 15, ht_start = 16, device_numa = \<lambda>_. -1\<rparr>"

text \<open>An operating system that grants everything, each time at a new address.\<close>

definition granting :: host_driver where
  "granting lg c = (True, of_nat (length lg mod 1024 + 1))"

lemma granting_nonnull: "nonnull granting"
proof -
  have "(of_nat (length lg mod 1024 + 1) :: u64) \<noteq> 0" for lg :: host_log
  proof
    assume "(of_nat (length lg mod 1024 + 1) :: u64) = 0"
    then have "(length lg mod 1024 + 1) mod 2 ^ 64 = 0" by (simp only: word_unat_eq_iff unat_of_nat unat_0 len_of_numeral_defs) simp
    moreover have "length lg mod 1024 < 1024" by simp
    ultimately show False by simp
  qed
  then show ?thesis by (auto simp: nonnull_def granting_def)
qed

lemma granting_uniform: "uniform_pages granting True"
  by (auto simp: uniform_pages_def alloc_staging_def host_def granting_def Let_def)

definition small_session :: WarpSpecConfig where
  "small_session = \<lparr>total_tokens = 1024, cfg_token_size = 4096, cpu_src = 4096, gpu_dst = 65536, cfg_tokens_per_tile = 128,
     cfg_tokens_per_chunk = 64, cfg_num_blocks = 4, cfg_numa_node = 0, use_copy_engine = False, double_buffer = True, per_tile_mode = False\<rparr>"

definition no_driver :: cu_driver where
  "no_driver tr c = (CUDA_ERROR 1, 0)"

section \<open>Topology\<close>

text \<open>C22: Whatever node each device is said to be on and however many GPUs there are (one too), when discovery succeeds on a machine
  whose first node has at least one core (\<open>node0_start\<close> is not above \<open>node0_end\<close>), every GPU gets a core range that lies inside its
  own NUMA node's block of physical cores and does not overlap the range of any other GPU.\<close>

theorem pollers_get_disjoint_cores:
  assumes "g < n" "node0_start fs \<le> node0_end fs" "discover_topology fs n = Some topo" "get_exclusive_cores topo g = (b, k, s)"
  shows "0 \<le> k \<and> cpu_start (gpus topo ! g) \<le> b \<and> b + k \<le> cpu_end (gpus topo ! g) + 1
    \<and> (\<forall>h<n. h \<noteq> g \<longrightarrow> (case get_exclusive_cores topo h of (b', k', s') \<Rightarrow> b + k \<le> b' \<or> b' + k' \<le> b))"
proof -
  note own = exclusive_cores_inside [OF assms]
  have "b + k \<le> b' \<or> b' + k' \<le> b" if "h < n" "h \<noteq> g" "get_exclusive_cores topo h = (b', k', s')" for h b' k' s'
  proof (cases "g < h")
    case True
    from exclusive_cores_disjoint [OF True that(1) assms(2-4) that(3)] show ?thesis .
  next
    case False
    with that(2) have "h < g" by simp
    from exclusive_cores_disjoint [OF this assms(1-3) that(3) assms(4)] show ?thesis by blast
  qed
  with own(2-5) show ?thesis by auto
qed

lemma two_nodes_topology:
  "get_exclusive_cores (the (discover_topology two_nodes 4)) 3 = (48, 16, 1)" "get_exclusive_cores (the (discover_topology two_nodes 4)) 2 = (32, 16, 1)"
  "discover_topology two_nodes 4 \<noteq> None" "cpu_start (gpus (the (discover_topology two_nodes 4)) ! 3) = 32"
  "cpu_end (gpus (the (discover_topology two_nodes 4)) ! 3) = 63"
  by code_simp+

text \<open>The last of four GPUs has the upper half of the second node, beside the third one's half.\<close>

theorem pollers_get_disjoint_cores_witness:
  "get_exclusive_cores (the (discover_topology two_nodes 4)) 3 = (48, 16, 1) \<and> (32::int) \<le> 48 \<and> 48 + 16 \<le> (63::int) + 1
    \<and> get_exclusive_cores (the (discover_topology two_nodes 4)) 2 = (32, 16, 1) \<and> (48 + 16 \<le> (32::int) \<or> 32 + 16 \<le> (48::int))"
proof -
  from two_nodes_topology(3) have some: "discover_topology two_nodes 4 = Some (the (discover_topology two_nodes 4))" by auto
  have "(3::nat) < 4" "node0_start two_nodes \<le> node0_end two_nodes" by (simp_all add: two_nodes_def)
  note p = pollers_get_disjoint_cores [OF this some two_nodes_topology(1)]
  from conjunct2 [OF conjunct2 [OF conjunct2 [OF p]], rule_format, of 2] have "48 + 16 \<le> (32::int) \<or> 32 + 16 \<le> (48::int)"
    unfolding two_nodes_topology(2) by simp
  moreover from p have "(32::int) \<le> 48 \<and> 48 + 16 \<le> (63::int) + 1" unfolding two_nodes_topology(4,5) by (elim conjE) (intro conjI)
  ultimately show ?thesis using two_nodes_topology(1,2) by (intro conjI) simp_all
qed

text \<open>C40: Discovery writes past the end of \<open>gpus_per_numa\<close> exactly when the machine has a single NUMA node and, with more than
  one GPU, the driver does not give a valid node for a GPU of the second half: the fallback then guesses node 1.\<close>

theorem topology_out_of_bounds:
  assumes "0 \<le> max_numa fs"
  shows "discover_topology fs n = None \<longleftrightarrow>
    max_numa fs = 0 \<and> 1 < n \<and> (\<exists>g. n div 2 \<le> g \<and> g < n \<and> (device_numa fs g < 0 \<or> 1 \<le> device_numa fs g))"
proof -
  have out: "\<not> (0 \<le> numa_node (gpu_topology fs n g) \<and> numa_node (gpu_topology fs n g) < max_numa fs + 1) \<longleftrightarrow>
      max_numa fs = 0 \<and> 1 < n \<and> n div 2 \<le> g \<and> (device_numa fs g < 0 \<or> 1 \<le> device_numa fs g)" for g
    using assms by (auto simp: gpu_topology_def Let_def)
  have "discover_topology fs n = None \<longleftrightarrow>
      (\<exists>g<n. \<not> (0 \<le> numa_node (gpu_topology fs n g) \<and> numa_node (gpu_topology fs n g) < max_numa fs + 1))"
    using assms by (auto simp: discover_topology_def Let_def count_gpus_None)
  with out show ?thesis by auto
qed

theorem topology_out_of_bounds_witness: "discover_topology one_node 2 = None"
proof -
  have "0 \<le> max_numa one_node" by (simp add: one_node_def)
  from topology_out_of_bounds [OF this, of 2] show ?thesis by (auto simp: one_node_def intro: exI [of _ 1])
qed

section \<open>The staging pool\<close>

text \<open>C27: However sets are taken from the staging pool and given back by those who hold them, starting with a pool none of whose sets
  is in use, no set is ever handed to two users: the sets in use are at all times exactly those held, each held once, and an
  acquisition that succeeds yields a set of the pool that nobody holds, that is large enough and that is in use from then on.\<close>

theorem staging_sets_exclusive:
  assumes "pool_step\<^sup>*\<^sup>* s0 s" "owned s0 = []" "\<And>k. 0 \<le> k \<Longrightarrow> k < num_sets (the_pool s0) \<Longrightarrow> \<not> set_in_use (buffer_sets (the_pool s0) (nat k))"
  shows "distinct (owned s)
    \<and> (\<forall>k. k \<in> set (owned s) \<longleftrightarrow> 0 \<le> k \<and> k < num_sets (the_pool s) \<and> set_in_use (buffer_sets (the_pool s) (nat k)))
    \<and> (\<forall>sz k pool'. acquire_buffers sz (the_pool s) = (k, pool') \<and> 0 \<le> k \<longrightarrow> k \<notin> set (owned s) \<and> k < num_sets pool'
        \<and> sz \<le> set_buf_size (buffer_sets pool' (nat k)) \<and> set_in_use (buffer_sets pool' (nat k)))"
proof -
  have inv: "pool_inv s" using pool.inv_reach [OF assms(1)] assms(2,3) by blast
  have "k \<notin> set (owned s) \<and> k < num_sets pool' \<and> sz \<le> set_buf_size (buffer_sets pool' (nat k)) \<and> set_in_use (buffer_sets pool' (nat k))"
    if "acquire_buffers sz (the_pool s) = (k, pool') \<and> 0 \<le> k" for sz k pool'
    using acquire_buffers_found [of sz "the_pool s" k pool'] that inv by (auto simp: pool_inv_def)
  with inv show ?thesis unfolding pool_inv_def by blast
qed

definition one_set_pool :: StagingPool where
  "one_set_pool = fst (snd (pool_init granting 1 8192 0 (new_pool, [])))"

lemma one_set_pool: "num_sets one_set_pool = 1" "pool_initialized one_set_pool" "\<not> set_in_use (buffer_sets one_set_pool 0)"
    "set_buf_size (buffer_sets one_set_pool 0) = 8192"
proof -
  obtain ok p lg where p: "pool_init granting 1 8192 0 (new_pool, []) = (ok, p, lg)" by (metis prod_cases3)
  from pool_init_held(2-4) [OF p held_Nil granting_nonnull granting_uniform blank_new_pool]
  show "num_sets one_set_pool = 1" "pool_initialized one_set_pool" "\<not> set_in_use (buffer_sets one_set_pool 0)"
    "set_buf_size (buffer_sets one_set_pool 0) = 8192" by (simp_all add: one_set_pool_def p)
qed

text \<open>One set, taken: it is held, in use, and a second acquisition finds none.\<close>

theorem staging_sets_exclusive_witness:
  "set_in_use (buffer_sets (snd (acquire_buffers 4096 one_set_pool)) 0)
    \<and> \<not> 0 \<le> fst (acquire_buffers 64 (snd (acquire_buffers 4096 one_set_pool)))"
proof -
  let ?start = "\<lparr>the_pool = one_set_pool, owned = []\<rparr>" and ?p = "snd (acquire_buffers 4096 one_set_pool)"
  let ?s = "\<lparr>the_pool = ?p, owned = [0]\<rparr>"
  have a: "acquire_buffers 4096 one_set_pool = (0, ?p)" using one_set_pool by (simp add: acquire_buffers_def)
  have sets: "num_sets ?p = 1" using one_set_pool by (simp add: acquire_buffers_def)
  have run: "pool_step\<^sup>*\<^sup>* ?start ?s" using take_set [of 4096 ?start 0 ?p] a by (simp add: r_into_rtranclp)
  have free: "\<not> set_in_use (buffer_sets (the_pool ?start) (nat k))" if "0 \<le> k" "k < num_sets (the_pool ?start)" for k
  proof -
    from that have "k = 0" by (simp add: one_set_pool(1))
    then show ?thesis by (simp add: one_set_pool(3))
  qed
  have one: "k = 0" if "0 \<le> k" "k < num_sets ?p" for k using that by (simp add: sets)
  have "owned ?start = []" by simp
  note p = staging_sets_exclusive [OF run this free]
  then have "set_in_use (buffer_sets ?p (nat 0))" by (simp only: pool_state.simps list.set) blast
  then have "set_in_use (buffer_sets ?p 0)" by simp
  moreover have "\<not> 0 \<le> fst (acquire_buffers 64 ?p)"
  proof
    assume "0 \<le> fst (acquire_buffers 64 ?p)"
    moreover obtain k p' where k: "acquire_buffers 64 ?p = (k, p')" by fastforce
    ultimately have k0: "0 \<le> k" by simp
    have "k \<notin> set (owned ?s)" using p k k0 by (simp only: pool_state.simps) blast
    then show False using one [OF k0 acquire_buffers_found(1) [OF k k0]] by simp
  qed
  ultimately show ?thesis ..
qed

section \<open>Sessions\<close>

text \<open>C33: A configuration that leaves the chunk size to the session gets one that is a power of two, no larger than the tile, and
  gives between 1 and 15 chunks, so that the block has between 64 and 992 threads, within the 1024 of the hardware.\<close>

theorem automatic_configuration:
  assumes "cfg_token_size cfg \<noteq> 0" "cfg_tokens_per_tile cfg \<noteq> 0" "\<not> per_tile_mode cfg" "cfg_tokens_per_chunk cfg = 0"
  shows "(\<exists>C n. effective_tokens_per_chunk cfg = Some C \<and> unat C = 2 ^ n \<and> unat C \<le> unat (cfg_tokens_per_tile cfg)
      \<and> unat (cfg_tokens_per_tile cfg) div unat C \<in> {1..15})
    \<and> (\<exists>b. block_size cfg = Some b \<and> 64 \<le> b \<and> b \<le> (if double_buffer cfg then 992 else 512))"
proof -
  from auto_chunk_result [OF assms] obtain n C where "effective_tokens_per_chunk cfg = Some C" "unat C = 2 ^ n"
    "unat C \<le> unat (cfg_tokens_per_tile cfg)" "1 \<le> unat (cfg_tokens_per_tile cfg) div unat C"
    "unat (cfg_tokens_per_tile cfg) div unat C \<le> 15" by blast
  then have "\<exists>C n. effective_tokens_per_chunk cfg = Some C \<and> unat C = 2 ^ n \<and> unat C \<le> unat (cfg_tokens_per_tile cfg)
      \<and> unat (cfg_tokens_per_tile cfg) div unat C \<in> {1..15}" by auto
  with block_size_auto [OF assms] show ?thesis by blast
qed

theorem automatic_configuration_witness:
  "\<exists>b. block_size (small_session\<lparr>cfg_tokens_per_chunk := 0\<rparr>) = Some b \<and> 64 \<le> b \<and> b \<le> 992"
  using automatic_configuration [of "small_session\<lparr>cfg_tokens_per_chunk := 0\<rparr>"] by (simp add: small_session_def)

text \<open>C13: A session's whole life gives back every host mapping, registration, pinned buffer and device allocation, each by the call
  that matches how it was obtained, whatever allocations failed in between and in whatever order it was launched, waited for and
  reset; afterwards the process-wide pool is shut down. (For a process whose pool has not been initialised before the session, and a
  system that answers a set's huge-page requests alike.)\<close>

theorem session_returns_everything:
  assumes "new_session drv sys tr m sz cfg (pool, lg) = Some (s, pool1, lg1)" "held lg = Some h"
    and "nonnull sys" "uniform_pages sys huge" "blank_pool pool"
    and "(session_step sys)\<^sup>*\<^sup>* (s, lg1) (s', lg2)" "delete_session drv sys s' (pool1, lg2) = (pool3, lg3)"
  shows "held lg3 = Some h \<and> \<not> pool_initialized pool3"
proof -
  have "session_owes pool1 h (s, lg1)" by (rule new_session_owes [OF assms(1-5)])
  then have "session_owes pool1 h (s', lg2)" by (rule session.inv_steps [OF assms(6)])
  from delete_session_balanced [OF this assms(7)] show ?thesis by blast
qed

lemma small_session_built: "new_session no_driver granting [] (\<lambda>_. 0) 4096 small_session (new_pool, []) \<noteq> None"
  by (simp add: new_session_def build_session_def small_session_def effective_tokens_per_chunk_def count_blocks_def host_eq granting_def Let_def
    split: prod.splits)

theorem session_returns_everything_witness:
  "held (snd (delete_session no_driver granting (fst (the (new_session no_driver granting [] (\<lambda>_. 0) 4096 small_session (new_pool, []))))
     (snd (the (new_session no_driver granting [] (\<lambda>_. 0) 4096 small_session (new_pool, [])))))) = Some {#}"
proof -
  obtain s pool1 lg1 where n: "new_session no_driver granting [] (\<lambda>_. 0) 4096 small_session (new_pool, []) = Some (s, pool1, lg1)"
    using small_session_built by (metis option.exhaust surj_pair)
  obtain pool3 lg3 where d: "delete_session no_driver granting s (pool1, lg1) = (pool3, lg3)" by fastforce
  from session_returns_everything [OF n held_Nil granting_nonnull granting_uniform blank_new_pool rtranclp.rtrancl_refl d] n d
  show ?thesis by simp
qed

text \<open>The poller never plans more gather workers than it has barrier slots for, always at least one, each on a core of its own;
  with two or more exclusive cores all of them are inside the GPU's range and none is the poller's own core.\<close>

theorem gather_workers_on_own_cores:
  assumes "worker_plan obj = (n, cpus)"
  shows "1 \<le> n \<and> n \<le> 15 \<and> length cpus = n \<and> distinct cpus
    \<and> (0 \<le> exclusive_core_base obj \<and> 2 \<le> exclusive_core_count obj \<longrightarrow>
       (\<forall>c\<in>set cpus. exclusive_core_base obj < c \<and> c < exclusive_core_base obj + exclusive_core_count obj))"
  using worker_plan_bounds [OF assms] worker_plan_exclusive [OF assms] by blast

theorem gather_workers_on_own_cores_witness:
  "length (snd (worker_plan ((new_polling_thread (new_poller empty_descriptor_queue True [] (\<lambda>_. 0)) 4096 0 0 1 16 16)))) \<le> 15"
proof -
  let ?obj = "new_polling_thread (new_poller empty_descriptor_queue True [] (\<lambda>_. 0)) 4096 0 0 1 16 16"
  obtain n cpus where w: "worker_plan ?obj = (n, cpus)" by fastforce
  from gather_workers_on_own_cores [OF w] w show ?thesis by auto
qed

section \<open>Submitting lists\<close>

text \<open>The host's \<open>submit_list\<close>, which tests nothing, and the warp-collective \<open>sg_submit_list\<close> leave the same queue, entries,
  header and indices alike, whenever the device's two space tests pass and the list fits the pool.\<close>

theorem host_and_device_submission_agree:
  assumes "unat n \<le> MAX_SG_POOL_ENTRIES" "sg_wait_entry_space sq n" "sg_wait_list_space sq"
  shows "sg_submit_list es n lid fl sq = Some (submit_sg_list es n lid fl sq)"
  by (rule submit_sg_list_eq [OF assms])

theorem host_and_device_submission_agree_witness:
  "sg_submit_list (\<lambda>i. \<lparr>de_src = of_nat i * 64, de_dst = of_nat i * 64, de_size = 64, de_tag = 0\<rparr>) 40 7 0 zero_sg_queue
    = Some (submit_sg_list (\<lambda>i. \<lparr>de_src = of_nat i * 64, de_dst = of_nat i * 64, de_size = 64, de_tag = 0\<rparr>) 40 7 0 zero_sg_queue)"
  by (rule host_and_device_submission_agree)
    (simp_all add: zero_sg_queue_def sg_wait_entry_space_def sg_wait_list_space_def MAX_SG_POOL_ENTRIES_def MAX_SG_LISTS_def)

end
