(* ===== verification/Warp_Spec.thy ===== *)
theory Warp_Spec
  imports Descriptor_Queue Transition_Systems
begin

text \<open>
  The tile kernels (\<open>include/gfd/warp_spec.cuh\<close>) as a transition system of one thread block: warp 0 submits the chunks
  of a tile and waits for each, warp \<open>w + 1\<close> computes chunk \<open>w\<close> once \<open>chunks_ready\<close> says that it has arrived. A step is
  what a warp does between two accesses to shared state; \<open>environment\<close> is everything outside the block: the poller, and the
  other blocks, which share the queue. \<open>bs_seen\<close> and \<open>bs_computed\<close> are history: the chunks whose completion warp 0 has
  observed, and those handed to the compute function. The block has the \<open>1 + K\<close> warps of \<open>block_size\<close>.
\<close>

section \<open>Views of a chunk\<close>

definition MAX_CHUNKS_PER_TILE :: nat where "MAX_CHUNKS_PER_TILE = 16"

record ChunkView =
  base_ptr :: u64
  cv_token_size :: u32
  cv_size :: u32
  cv_tile_id :: u32
  cv_chunk_id :: u32
  global_token_offset :: u32

definition cv_data :: "ChunkView \<Rightarrow> u32 \<Rightarrow> u64" where
  "cv_data view i = base_ptr view + ucast i * ucast (cv_token_size view)"

definition cv_global_idx :: "ChunkView \<Rightarrow> u32 \<Rightarrow> u32" where
  "cv_global_idx view i = global_token_offset view + i"

record TileContext =
  tc_tile_id :: u32
  tc_tokens_per_tile :: u32
  tc_chunks_per_tile :: u32
  tc_tokens_per_chunk :: u32
  tile_base_ptr :: u64
  tc_token_size :: u32

definition get_chunk :: "TileContext \<Rightarrow> u32 \<Rightarrow> ChunkView" where
  "get_chunk tc k =
     \<lparr>base_ptr = tile_base_ptr tc + ucast k * ucast (tc_tokens_per_chunk tc) * ucast (tc_token_size tc), cv_token_size = tc_token_size tc,
      cv_size = tc_tokens_per_chunk tc, cv_tile_id = tc_tile_id tc, cv_chunk_id = k,
      global_token_offset = tc_tile_id tc * tc_tokens_per_tile tc + k * tc_tokens_per_chunk tc\<rparr>"

text \<open>What every warp reads from the scheduler before its loop, and the kernel's pointers.\<close>

record KernelArgs =
  ka_C :: u32
  ka_K :: u32
  ka_T :: u32
  ka_total_tiles :: u32
  ka_token_size :: u32
  ka_gpu_buffer :: u64
  ka_cpu_base :: u64

definition kernel_args :: "TiledQueue \<Rightarrow> u64 \<Rightarrow> u64 \<Rightarrow> KernelArgs" where
  "kernel_args tq gpu_buffer cpu_base = (let s = scheduler tq in
     \<lparr>ka_C = tokens_per_chunk s, ka_K = chunks_per_tile s, ka_T = tokens_per_tile s, ka_total_tiles = total_tiles s,
      ka_token_size = token_size s, ka_gpu_buffer = gpu_buffer, ka_cpu_base = cpu_base\<rparr>)"

definition chunk_view :: "KernelArgs \<Rightarrow> u32 \<Rightarrow> u32 \<Rightarrow> ChunkView" where
  "chunk_view ka tile_id my_chunk =
     \<lparr>base_ptr = ka_gpu_buffer ka + ucast (tile_id * ka_T ka + my_chunk * ka_C ka) * ucast (ka_token_size ka),
      cv_token_size = ka_token_size ka, cv_size = ka_C ka, cv_tile_id = tile_id, cv_chunk_id = my_chunk,
      global_token_offset = tile_id * ka_T ka + my_chunk * ka_C ka\<rparr>"

section \<open>One block, single buffer\<close>

text \<open>\<open>chunk_base + C - r <= QUEUE_SIZE\<close>.\<close>

definition ring_room :: "u64 \<Rightarrow> u32 \<Rightarrow> TiledQueue \<Rightarrow> bool" where
  "ring_room chunk_base n tq \<longleftrightarrow> chunk_base + ucast n - read_idx (base tq) \<le> of_nat QUEUE_SIZE"

definition submit_to :: "KernelArgs \<Rightarrow> u64 \<Rightarrow> u32 \<Rightarrow> nat \<Rightarrow> TiledQueue \<Rightarrow> TiledQueue" where
  "submit_to ka chunk_base tile_id chunk tq = tq\<lparr>base := submit_chunk chunk_base tile_id (of_nat chunk) (ka_C ka) (ka_T ka)
     (ka_cpu_base ka) (ka_gpu_buffer ka) (ka_token_size ka) (base tq)\<rparr>"

definition chunk_arrived :: "KernelArgs \<Rightarrow> u32 \<Rightarrow> nat \<Rightarrow> TiledQueue \<Rightarrow> bool" where
  "chunk_arrived ka tile_id chunk tq \<longleftrightarrow> wait_chunk_done tile_id ((of_nat chunk + 1) * ucast (ka_C ka)) tq"

datatype transfer_pc = Acquire | At_First_Barrier | Next_Chunk nat | Await_Space nat u64 | Await_Chunk nat | Await_Compute
  | At_Second_Barrier | Transfer_Exit

datatype compute_pc = Compute_First_Barrier | Await_Ready | Computing | Compute_Second_Barrier | Compute_Exit

record BlockState =
  bs_tq :: TiledQueue
  bs_tile :: u32
  chunks_ready :: nat
  compute_done :: nat
  bs_transfer :: transfer_pc
  bs_compute :: "nat \<Rightarrow> compute_pc"
  bs_seen :: "(u32 \<times> nat) list"
  bs_computed :: "(u32 \<times> nat) list"
  bs_tiles :: "u32 list"

definition K_of :: "KernelArgs \<Rightarrow> nat" where
  "K_of ka = unat (ka_K ka)"

inductive block_step :: "KernelArgs \<Rightarrow> BlockState \<Rightarrow> BlockState \<Rightarrow> bool" for ka where
  acquire: "bs_transfer s = Acquire \<Longrightarrow> acquire_tile (bs_tq s) = (t, tq) \<Longrightarrow>
    block_step ka s (s\<lparr>bs_tq := tq, bs_tile := t, chunks_ready := 0, compute_done := 0, bs_transfer := At_First_Barrier\<rparr>)"
| leave_loop: "bs_transfer s = At_First_Barrier \<Longrightarrow> \<forall>w<K_of ka. bs_compute s w = Compute_First_Barrier \<Longrightarrow> ka_total_tiles ka \<le> bs_tile s \<Longrightarrow>
    block_step ka s (s\<lparr>bs_transfer := Transfer_Exit, bs_compute := \<lambda>_. Compute_Exit\<rparr>)"
| enter_tile: "bs_transfer s = At_First_Barrier \<Longrightarrow> \<forall>w<K_of ka. bs_compute s w = Compute_First_Barrier \<Longrightarrow> bs_tile s < ka_total_tiles ka \<Longrightarrow>
    block_step ka s (s\<lparr>bs_transfer := Next_Chunk 0, bs_compute := \<lambda>_. Await_Ready, bs_tiles := bs_tiles s @ [bs_tile s]\<rparr>)"
| take_slots: "bs_transfer s = Next_Chunk k \<Longrightarrow> k < K_of ka \<Longrightarrow> acquire_chunk_slots (ka_C ka) (bs_tq s) = (b, tq) \<Longrightarrow>
    block_step ka s (s\<lparr>bs_tq := tq, bs_transfer := Await_Space k b\<rparr>)"
| submit: "bs_transfer s = Await_Space k b \<Longrightarrow> ring_room b (ka_C ka) (bs_tq s) \<Longrightarrow>
    block_step ka s (s\<lparr>bs_tq := submit_to ka b (bs_tile s) k (bs_tq s), bs_transfer := Await_Chunk k\<rparr>)"
| chunk_ready: "bs_transfer s = Await_Chunk k \<Longrightarrow> chunk_arrived ka (bs_tile s) k (bs_tq s) \<Longrightarrow>
    block_step ka s (s\<lparr>chunks_ready := k + 1, bs_transfer := Next_Chunk (k + 1), bs_seen := bs_seen s @ [(bs_tile s, k)]\<rparr>)"
| last_chunk: "bs_transfer s = Next_Chunk k \<Longrightarrow> K_of ka \<le> k \<Longrightarrow> block_step ka s (s\<lparr>bs_transfer := Await_Compute\<rparr>)"
| all_computed: "bs_transfer s = Await_Compute \<Longrightarrow> K_of ka \<le> compute_done s \<Longrightarrow> block_step ka s (s\<lparr>bs_transfer := At_Second_Barrier\<rparr>)"
| compute: "w < K_of ka \<Longrightarrow> bs_compute s w = Await_Ready \<Longrightarrow> w < chunks_ready s \<Longrightarrow>
    block_step ka s (s\<lparr>bs_compute := (bs_compute s)(w := Computing), bs_computed := bs_computed s @ [(bs_tile s, w)]\<rparr>)"
| computed: "w < K_of ka \<Longrightarrow> bs_compute s w = Computing \<Longrightarrow>
    block_step ka s (s\<lparr>bs_compute := (bs_compute s)(w := Compute_Second_Barrier), compute_done := compute_done s + 1\<rparr>)"
| next_tile: "bs_transfer s = At_Second_Barrier \<Longrightarrow> \<forall>w<K_of ka. bs_compute s w = Compute_Second_Barrier \<Longrightarrow>
    block_step ka s (s\<lparr>bs_transfer := Acquire, bs_compute := \<lambda>_. Compute_First_Barrier\<rparr>)"
| environment: "block_step ka s (s\<lparr>bs_tq := tq\<rparr>)"

definition block_start :: "BlockState \<Rightarrow> bool" where
  "block_start s \<longleftrightarrow> bs_transfer s = Acquire \<and> bs_compute s = (\<lambda>_. Compute_First_Barrier) \<and> bs_seen s = [] \<and> bs_computed s = []
     \<and> bs_tiles s = []"

text \<open>The chunks of the tiles that the block has entered.\<close>

definition chunks_of :: "nat \<Rightarrow> u32 list \<Rightarrow> (u32 \<times> nat) multiset" where
  "chunks_of K tiles = mset (concat (map (\<lambda>t. map (Pair t) [0..<K]) tiles))"

lemma chunks_of_simps [simp]: "chunks_of K [] = {#}" "chunks_of K (ts @ [t]) = chunks_of K ts + mset (map (Pair t) [0..<K])"
  by (simp_all add: chunks_of_def)

text \<open>Inside a tile warp 0 has seen the chunks below \<open>r\<close>; the warps past their wait have computed.\<close>

definition in_tile :: "nat \<Rightarrow> nat \<Rightarrow> BlockState \<Rightarrow> bool" where
  "in_tile K r s \<longleftrightarrow> chunks_ready s = r \<and> r \<le> K \<and> bs_tiles s \<noteq> [] \<and> last (bs_tiles s) = bs_tile s
     \<and> (\<forall>w<K. bs_compute s w \<in> {Await_Ready, Computing, Compute_Second_Barrier})
     \<and> (\<forall>w<K. bs_compute s w \<noteq> Await_Ready \<longrightarrow> w < r)
     \<and> (\<forall>w<r. (bs_tile s, w) \<in> set (bs_seen s))
     \<and> compute_done s = length (filter (\<lambda>w. bs_compute s w = Compute_Second_Barrier) [0..<K])
     \<and> mset (bs_computed s) = chunks_of K (butlast (bs_tiles s)) + mset (map (Pair (bs_tile s)) (filter (\<lambda>w. bs_compute s w \<noteq> Await_Ready) [0..<K]))"

definition between_tiles :: "nat \<Rightarrow> compute_pc \<Rightarrow> BlockState \<Rightarrow> bool" where
  "between_tiles K c s \<longleftrightarrow> (\<forall>w<K. bs_compute s w = c) \<and> mset (bs_computed s) = chunks_of K (bs_tiles s)"

fun phase_ok :: "nat \<Rightarrow> transfer_pc \<Rightarrow> BlockState \<Rightarrow> bool" where
  "phase_ok K Acquire s \<longleftrightarrow> between_tiles K Compute_First_Barrier s"
| "phase_ok K At_First_Barrier s \<longleftrightarrow> between_tiles K Compute_First_Barrier s \<and> chunks_ready s = 0 \<and> compute_done s = 0"
| "phase_ok K (Next_Chunk k) s \<longleftrightarrow> in_tile K k s"
| "phase_ok K (Await_Space k b) s \<longleftrightarrow> k < K \<and> in_tile K k s"
| "phase_ok K (Await_Chunk k) s \<longleftrightarrow> k < K \<and> in_tile K k s"
| "phase_ok K Await_Compute s \<longleftrightarrow> in_tile K K s"
| "phase_ok K At_Second_Barrier s \<longleftrightarrow> in_tile K K s \<and> compute_done s = K"
| "phase_ok K Transfer_Exit s \<longleftrightarrow> between_tiles K Compute_Exit s"

definition block_inv :: "KernelArgs \<Rightarrow> BlockState \<Rightarrow> bool" where
  "block_inv ka s \<longleftrightarrow> phase_ok (K_of ka) (bs_transfer s) s \<and> set (bs_computed s) \<subseteq> set (bs_seen s)"

lemma in_tile_cong:
  assumes "chunks_ready s' = chunks_ready s" "bs_tiles s' = bs_tiles s" "bs_tile s' = bs_tile s" "bs_compute s' = bs_compute s"
    "bs_seen s' = bs_seen s" "compute_done s' = compute_done s" "bs_computed s' = bs_computed s"
  shows "in_tile K r s' = in_tile K r s"
  using assms by (simp add: in_tile_def)

lemma filter_flip:
  assumes "w < K" "\<not> P w" "\<And>v. v < K \<Longrightarrow> v \<noteq> w \<Longrightarrow> Q v = P v" "Q w"
  shows "mset (filter Q [0..<K]) = add_mset w (mset (filter P [0..<K]))"
proof -
  have up: "[0..<K] = [0..<w] @ w # [Suc w..<K]" using assms(1) upt_add_eq_append [of 0 w "K - w"] by (simp add: upt_conv_Cons)
  have "filter Q [0..<w] = filter P [0..<w]" "filter Q [Suc w..<K] = filter P [Suc w..<K]" using assms(1,3) by (auto intro!: filter_cong)
  then show ?thesis using assms(2,4) by (subst (1 2) up) simp
qed

lemma in_tile_compute:
  assumes "in_tile K r s" "w < K" "bs_compute s w = Await_Ready" "w < chunks_ready s"
  shows "in_tile K r (s\<lparr>bs_compute := (bs_compute s)(w := Computing), bs_computed := bs_computed s @ [(bs_tile s, w)]\<rparr>)"
    and "(bs_tile s, w) \<in> set (bs_seen s)"
proof -
  let ?c = "(bs_compute s)(w := Computing)"
  have r: "chunks_ready s = r" using assms(1) by (simp add: in_tile_def)
  have f: "mset (filter (\<lambda>v. ?c v \<noteq> Await_Ready) [0..<K]) = add_mset w (mset (filter (\<lambda>v. bs_compute s v \<noteq> Await_Ready) [0..<K]))"
    using assms(2,3) by (intro filter_flip) auto
  have g: "filter (\<lambda>v. ?c v = Compute_Second_Barrier) [0..<K] = filter (\<lambda>v. bs_compute s v = Compute_Second_Barrier) [0..<K]"
    using assms(3) by (intro filter_cong) auto
  show "in_tile K r (s\<lparr>bs_compute := ?c, bs_computed := bs_computed s @ [(bs_tile s, w)]\<rparr>)"
    using assms(1,4) f g by (simp add: in_tile_def)
  show "(bs_tile s, w) \<in> set (bs_seen s)" using assms(1,4) r by (simp add: in_tile_def)
qed

lemma in_tile_computed:
  assumes "in_tile K r s" "w < K" "bs_compute s w = Computing"
  shows "in_tile K r (s\<lparr>bs_compute := (bs_compute s)(w := Compute_Second_Barrier), compute_done := compute_done s + 1\<rparr>)"
proof -
  let ?c = "(bs_compute s)(w := Compute_Second_Barrier)"
  have "mset (filter (\<lambda>v. ?c v = Compute_Second_Barrier) [0..<K]) = add_mset w (mset (filter (\<lambda>v. bs_compute s v = Compute_Second_Barrier) [0..<K]))"
    using assms(2,3) by (intro filter_flip) auto
  then have f: "length (filter (\<lambda>v. ?c v = Compute_Second_Barrier) [0..<K]) = Suc (length (filter (\<lambda>v. bs_compute s v = Compute_Second_Barrier) [0..<K]))"
    by (metis size_mset size_add_mset)
  have g: "filter (\<lambda>v. ?c v \<noteq> Await_Ready) [0..<K] = filter (\<lambda>v. bs_compute s v \<noteq> Await_Ready) [0..<K]"
    using assms(3) by (intro filter_cong) auto
  have "w < r" using assms by (auto simp: in_tile_def)
  then show ?thesis using assms(1) f g by (simp add: in_tile_def)
qed

lemma in_tile_all_done:
  assumes "in_tile K K s" "K \<le> compute_done s"
  shows "compute_done s = K" and "w < K \<Longrightarrow> bs_compute s w = Compute_Second_Barrier"
    and "mset (bs_computed s) = chunks_of K (bs_tiles s)"
proof -
  have n: "compute_done s = length (filter (\<lambda>w. bs_compute s w = Compute_Second_Barrier) [0..<K])" using assms(1) by (simp add: in_tile_def)
  also have "\<dots> \<le> K" using length_filter_le [of _ "[0..<K]"] by simp
  finally show K: "compute_done s = K" using assms(2) by simp
  then have all: "\<forall>w\<in>set [0..<K]. bs_compute s w = Compute_Second_Barrier"
    using n by (metis (mono_tags, lifting) length_filter_less length_upt diff_zero less_irrefl)
  then show "w < K \<Longrightarrow> bs_compute s w = Compute_Second_Barrier" by simp
  have "filter (\<lambda>w. bs_compute s w \<noteq> Await_Ready) [0..<K] = [0..<K]" using all by (intro filter_True) auto
  then have "mset (bs_computed s) = chunks_of K (butlast (bs_tiles s)) + mset (map (Pair (last (bs_tiles s))) [0..<K])"
    using assms(1) by (simp add: in_tile_def)
  also have "\<dots> = chunks_of K (butlast (bs_tiles s) @ [last (bs_tiles s)])" by simp
  also have "butlast (bs_tiles s) @ [last (bs_tiles s)] = bs_tiles s" using assms(1) by (intro append_butlast_last_id) (simp add: in_tile_def)
  finally show "mset (bs_computed s) = chunks_of K (bs_tiles s)" .
qed

lemma phase_cong:
  assumes "chunks_ready s' = chunks_ready s" "bs_tiles s' = bs_tiles s" "bs_tile s' = bs_tile s" "bs_compute s' = bs_compute s"
    "bs_seen s' = bs_seen s" "compute_done s' = compute_done s" "bs_computed s' = bs_computed s"
  shows "phase_ok K pc s' = phase_ok K pc s"
  using assms in_tile_cong [OF assms] by (cases pc) (simp_all add: between_tiles_def)

text \<open>The phases in which a compute warp of the block can be in its tile.\<close>

lemma phase_in_tile:
  assumes "phase_ok K pc s" "w < K" "bs_compute s w \<in> {Await_Ready, Computing}"
  obtains r where "in_tile K r s" "pc \<noteq> At_Second_Barrier"
    "\<And>s'. in_tile K r s' \<Longrightarrow> phase_ok K pc s'"
proof -
  have ns: "pc \<noteq> At_Second_Barrier"
  proof
    assume "pc = At_Second_Barrier"
    then have "in_tile K K s" "compute_done s = K" using assms(1) by simp_all
    then show False using in_tile_all_done(2) [of K s w] assms(2,3) by auto
  qed
  show ?thesis
    using assms that ns by (cases pc) (auto simp: between_tiles_def)
qed

lemma block_inv_step:
  assumes "block_inv ka s" "block_step ka s s'"
  shows "block_inv ka s'"
  using assms(2)
proof cases
  case (acquire t tq)
  then show ?thesis using assms(1) by (simp add: block_inv_def between_tiles_def)
next
  case leave_loop
  then show ?thesis using assms(1) by (simp add: block_inv_def between_tiles_def)
next
  case enter_tile
  then show ?thesis using assms(1) by (simp add: block_inv_def between_tiles_def in_tile_def)
next
  case (take_slots k b tq)
  then show ?thesis using assms(1) in_tile_cong [of s' s] by (simp add: block_inv_def)
next
  case (submit k b)
  then show ?thesis using assms(1) in_tile_cong [of s' s] by (simp add: block_inv_def)
next
  case (chunk_ready k)
  then show ?thesis using assms(1) by (auto simp: block_inv_def in_tile_def less_Suc_eq)
next
  case (last_chunk k)
  then have "k = K_of ka" using assms(1) by (simp add: block_inv_def in_tile_def)
  then show ?thesis using assms(1) last_chunk in_tile_cong [of s' s] by (simp add: block_inv_def)
next
  case all_computed
  then show ?thesis using assms(1) in_tile_all_done(1) [of "K_of ka" s] in_tile_cong [of s' s] by (simp add: block_inv_def)
next
  case (compute w)
  have "phase_ok (K_of ka) (bs_transfer s) s" using assms(1) by (simp add: block_inv_def)
  then obtain r where r: "in_tile (K_of ka) r s" "\<And>s'. in_tile (K_of ka) r s' \<Longrightarrow> phase_ok (K_of ka) (bs_transfer s) s'"
    using compute(2,3) by (elim phase_in_tile [of _ _ _ w]) auto
  from in_tile_compute [OF r(1) compute(2-4)] r(2) assms(1) show ?thesis by (simp add: block_inv_def compute(1))
next
  case (computed w)
  have "phase_ok (K_of ka) (bs_transfer s) s" using assms(1) by (simp add: block_inv_def)
  then obtain r where r: "in_tile (K_of ka) r s" "\<And>s'. in_tile (K_of ka) r s' \<Longrightarrow> phase_ok (K_of ka) (bs_transfer s) s'"
    using computed(2,3) by (elim phase_in_tile [of _ _ _ w]) auto
  from in_tile_computed [OF r(1) computed(2,3)] r(2) assms(1) show ?thesis by (simp add: block_inv_def computed(1))
next
  case next_tile
  then show ?thesis using assms(1) in_tile_all_done(3) [of "K_of ka" s] by (simp add: block_inv_def between_tiles_def)
next
  case (environment tq)
  then show ?thesis using assms(1) phase_cong [of s' s] by (simp add: block_inv_def)
qed

interpretation block: step_invariant "block_step ka" block_start "block_inv ka" for ka
proof unfold_locales
  show "block_inv ka s" if "block_start s" for s using that by (simp add: block_start_def block_inv_def between_tiles_def)
qed (rule block_inv_step)

text \<open>What a block can be waiting for: nothing but room in the ring and the completion of a chunk it has submitted.\<close>

definition waits_for_poller :: "KernelArgs \<Rightarrow> BlockState \<Rightarrow> bool" where
  "waits_for_poller ka s \<longleftrightarrow> (\<exists>k b. bs_transfer s = Await_Space k b \<and> \<not> ring_room b (ka_C ka) (bs_tq s))
     \<or> (\<exists>k. bs_transfer s = Await_Chunk k \<and> \<not> chunk_arrived ka (bs_tile s) k (bs_tq s))"

definition own_move :: "BlockState \<Rightarrow> BlockState \<Rightarrow> bool" where
  "own_move s s' \<longleftrightarrow> bs_transfer s' \<noteq> bs_transfer s \<or> bs_compute s' \<noteq> bs_compute s"

lemma transfer_moves: "block_step ka s s' \<Longrightarrow> bs_transfer s' \<noteq> bs_transfer s \<Longrightarrow> \<exists>s'. block_step ka s s' \<and> own_move s s'"
  by (auto simp: own_move_def)

lemma compute_moves: "block_step ka s s' \<Longrightarrow> bs_compute s' w \<noteq> bs_compute s w \<Longrightarrow> \<exists>s'. block_step ka s s' \<and> own_move s s'"
  unfolding own_move_def by metis

lemma block_progress:
  assumes "block_inv ka s" "bs_transfer s \<noteq> Transfer_Exit" "\<not> waits_for_poller ka s"
  shows "\<exists>s'. block_step ka s s' \<and> own_move s s'"
proof -
  have ph: "phase_ok (K_of ka) (bs_transfer s) s" using assms(1) by (simp add: block_inv_def)
  show ?thesis
  proof (cases "bs_transfer s")
    case Acquire
    obtain t tq where "acquire_tile (bs_tq s) = (t, tq)" by fastforce
    note st = block_step.acquire [OF Acquire this]
    show ?thesis by (rule transfer_moves [OF st]) (simp add: Acquire)
  next
    case At_First_Barrier
    then have b: "\<forall>w<K_of ka. bs_compute s w = Compute_First_Barrier" using ph by (simp add: between_tiles_def)
    show ?thesis
    proof (cases "ka_total_tiles ka \<le> bs_tile s")
      case True
      note st = block_step.leave_loop [OF At_First_Barrier b True]
      show ?thesis by (rule transfer_moves [OF st]) (simp add: At_First_Barrier)
    next
      case False
      then have "bs_tile s < ka_total_tiles ka" by simp
      note st = block_step.enter_tile [OF At_First_Barrier b this]
      show ?thesis by (rule transfer_moves [OF st]) (simp add: At_First_Barrier)
    qed
  next
    case (Next_Chunk k)
    show ?thesis
    proof (cases "k < K_of ka")
      case True
      obtain b tq where "acquire_chunk_slots (ka_C ka) (bs_tq s) = (b, tq)" by fastforce
      note st = block_step.take_slots [OF Next_Chunk True this]
      show ?thesis by (rule transfer_moves [OF st]) (simp add: Next_Chunk)
    next
      case False
      then have "K_of ka \<le> k" by simp
      note st = block_step.last_chunk [OF Next_Chunk this]
      show ?thesis by (rule transfer_moves [OF st]) (simp add: Next_Chunk)
    qed
  next
    case (Await_Space k b)
    then have "ring_room b (ka_C ka) (bs_tq s)" using assms(3) by (auto simp: waits_for_poller_def)
    note st = block_step.submit [OF Await_Space this]
    show ?thesis by (rule transfer_moves [OF st]) (simp add: Await_Space)
  next
    case (Await_Chunk k)
    then have "chunk_arrived ka (bs_tile s) k (bs_tq s)" using assms(3) by (auto simp: waits_for_poller_def)
    note st = block_step.chunk_ready [OF Await_Chunk this]
    show ?thesis by (rule transfer_moves [OF st]) (simp add: Await_Chunk)
  next
    case Await_Compute
    then have it: "in_tile (K_of ka) (K_of ka) s" using ph by simp
    show ?thesis
    proof (cases "\<forall>w<K_of ka. bs_compute s w = Compute_Second_Barrier")
      case True
      then have "filter (\<lambda>w. bs_compute s w = Compute_Second_Barrier) [0..<K_of ka] = [0..<K_of ka]" by (intro filter_True) auto
      then have "K_of ka \<le> compute_done s" using it by (simp add: in_tile_def)
      note st = block_step.all_computed [OF Await_Compute this]
      show ?thesis by (rule transfer_moves [OF st]) (simp add: Await_Compute)
    next
      case False
      then obtain w where w: "w < K_of ka" "bs_compute s w = Await_Ready \<or> bs_compute s w = Computing"
        using it by (auto simp: in_tile_def)
      have "w < chunks_ready s" using it w(1) by (simp add: in_tile_def)
      from w(2) show ?thesis
      proof
        assume r: "bs_compute s w = Await_Ready"
        show ?thesis by (rule compute_moves [OF block_step.compute [OF w(1) r \<open>w < chunks_ready s\<close>], of w]) (simp add: r)
      next
        assume c: "bs_compute s w = Computing"
        show ?thesis by (rule compute_moves [OF block_step.computed [OF w(1) c], of w]) (simp add: c)
      qed
    qed
  next
    case At_Second_Barrier
    then have "\<forall>w<K_of ka. bs_compute s w = Compute_Second_Barrier" using ph in_tile_all_done(2) [of "K_of ka" s] by simp
    note st = block_step.next_tile [OF At_Second_Barrier this]
    show ?thesis by (rule transfer_moves [OF st]) (simp add: At_Second_Barrier)
  next
    case Transfer_Exit
    then show ?thesis using assms(2) by simp
  qed
qed

end
