(* ===== verification/Double_Buffer.thy ===== *)
theory Double_Buffer
  imports Warp_Spec
begin

text \<open>
  The double-buffered tile kernel (\<open>_warp_spec_tile_loop_double_buffer\<close>): warp 0 fills two tile slots in turn without
  waiting for the other slot's compute, and each slot has its own \<open>K\<close> compute warps. Compute warp \<open>v\<close> works for
  slot \<open>v div K\<close> on chunk \<open>v mod K\<close>. An action names the warp that moves; \<open>db_act\<close> is its effect, \<open>None\<close> while
  the warp has to spin, so that runs can be evaluated. \<open>db_seen\<close>, \<open>db_computed\<close>, \<open>db_taken\<close> are history, and
  \<open>assigned\<close>, \<open>current\<close> count and name the tiles put into each slot.
\<close>

section \<open>State\<close>

datatype db_transfer_pc =
    DB_Acquire
  | DB_Dispatch u32
  | DB_Publish
  | DB_Chunk nat nat
  | DB_Wait nat nat
  | DB_Finish
  | DB_Sentinels
  | DB_Exit

datatype db_compute_pc = DC_Wait | DC_Check | DC_Read | DC_Ready u32 | DC_Computing u32 | DC_Exit

record DBState =
  db_tq :: TiledQueue
  db_tile_id :: "nat \<Rightarrow> u32"
  db_chunks_ready :: "nat \<Rightarrow> nat"
  db_compute_done :: "nat \<Rightarrow> nat"
  tiles_dispatched :: nat
  db_transfer :: db_transfer_pc
  db_compute :: "nat \<Rightarrow> db_compute_pc"
  local_tile_count :: "nat \<Rightarrow> nat"
  assigned :: "nat \<Rightarrow> nat"
  current :: "nat \<Rightarrow> u32"
  db_seen :: "(u32 \<times> nat) list"
  db_computed :: "(u32 \<times> nat) list"
  db_taken :: "u32 list"

definition NO_TILE :: u32 where "NO_TILE = 0xFFFFFFFF"

definition db_start :: "TiledQueue \<Rightarrow> DBState" where
  "db_start tq = \<lparr>db_tq = tq, db_tile_id = \<lambda>_. NO_TILE, db_chunks_ready = \<lambda>_. 0, db_compute_done = \<lambda>_. 0, tiles_dispatched = 0,
     db_transfer = DB_Acquire, db_compute = \<lambda>_. DC_Wait, local_tile_count = \<lambda>_. 0, assigned = \<lambda>_. 0, current = \<lambda>_. NO_TILE,
     db_seen = [], db_computed = [], db_taken = []\<rparr>"

section \<open>Warp 0\<close>

definition db_transfer_act :: "KernelArgs \<Rightarrow> DBState \<Rightarrow> DBState option" where
  "db_transfer_act ka s =
     (case db_transfer s of
        DB_Acquire \<Rightarrow> (case acquire_tile (db_tq s) of (t, tq) \<Rightarrow>
          Some (s\<lparr>db_tq := tq, db_transfer := if ka_total_tiles ka \<le> t then DB_Finish else DB_Dispatch t\<rparr>))
      | DB_Dispatch t \<Rightarrow>
          (let slot = tiles_dispatched s mod 2
           in if 2 \<le> tiles_dispatched s \<and> db_compute_done s slot < K_of ka then None
              else Some (s\<lparr>db_tile_id := (db_tile_id s)(slot := t), db_chunks_ready := (db_chunks_ready s)(slot := 0),
                db_compute_done := (db_compute_done s)(slot := 0), db_transfer := DB_Publish,
                assigned := (assigned s)(slot := assigned s slot + 1), current := (current s)(slot := t), db_taken := db_taken s @ [t]\<rparr>))
      | DB_Publish \<Rightarrow> Some (s\<lparr>tiles_dispatched := tiles_dispatched s + 1, db_transfer := DB_Chunk (tiles_dispatched s mod 2) 0\<rparr>)
      | DB_Chunk slot k \<Rightarrow>
          if k < K_of ka then (case acquire_chunk_slots (ka_C ka) (db_tq s) of (b, tq) \<Rightarrow>
            Some (s\<lparr>db_tq := submit_to ka b (current s slot) k tq, db_transfer := DB_Wait slot k\<rparr>))
          else Some (s\<lparr>db_transfer := DB_Acquire\<rparr>)
      | DB_Wait slot k \<Rightarrow>
          if chunk_arrived ka (current s slot) k (db_tq s)
          then Some (s\<lparr>db_chunks_ready := (db_chunks_ready s)(slot := k + 1), db_transfer := DB_Chunk slot (k + 1),
                       db_seen := db_seen s @ [(current s slot, k)]\<rparr>)
          else None
      | DB_Finish \<Rightarrow>
          if 0 < tiles_dispatched s \<and> db_compute_done s ((tiles_dispatched s - 1) mod 2) < K_of ka then None
          else Some (s\<lparr>db_tile_id := \<lambda>_. NO_TILE, db_transfer := DB_Sentinels\<rparr>)
      | DB_Sentinels \<Rightarrow> Some (s\<lparr>db_chunks_ready := \<lambda>_. K_of ka + 1, db_transfer := DB_Exit\<rparr>)
      | DB_Exit \<Rightarrow> None)"

section \<open>The compute warps\<close>

definition db_compute_act :: "KernelArgs \<Rightarrow> nat \<Rightarrow> DBState \<Rightarrow> DBState option" where
  "db_compute_act ka v s =
     (let slot = v div K_of ka; my_chunk = v mod K_of ka; go = (\<lambda>pc. s\<lparr>db_compute := (db_compute s)(v := pc)\<rparr>)
      in case db_compute s v of
           DC_Wait \<Rightarrow> if local_tile_count s v * 2 + slot < tiles_dispatched s \<or> db_chunks_ready s slot = K_of ka + 1 then Some (go DC_Check) else None
         | DC_Check \<Rightarrow> Some (go (if db_chunks_ready s slot = K_of ka + 1 then DC_Exit else DC_Read))
         | DC_Read \<Rightarrow> Some (go (if db_tile_id s slot = NO_TILE then DC_Exit else DC_Ready (db_tile_id s slot)))
         | DC_Ready t \<Rightarrow> if my_chunk < db_chunks_ready s slot
             then Some ((go (DC_Computing t))\<lparr>db_computed := db_computed s @ [(t, my_chunk)]\<rparr>) else None
         | DC_Computing t \<Rightarrow> Some ((go DC_Wait)\<lparr>db_compute_done := (db_compute_done s)(slot := db_compute_done s slot + 1),
             local_tile_count := (local_tile_count s)(v := local_tile_count s v + 1)\<rparr>)
         | DC_Exit \<Rightarrow> None)"

section \<open>Runs\<close>

datatype db_action = Transfer_Warp | Compute_Warp nat | Elsewhere TiledQueue

definition db_act :: "KernelArgs \<Rightarrow> db_action \<Rightarrow> DBState \<Rightarrow> DBState option" where
  "db_act ka a s =
     (case a of Transfer_Warp \<Rightarrow> db_transfer_act ka s
      | Compute_Warp v \<Rightarrow> if v < 2 * K_of ka then db_compute_act ka v s else None
      | Elsewhere tq \<Rightarrow> Some (s\<lparr>db_tq := tq\<rparr>))"

definition db_step :: "KernelArgs \<Rightarrow> DBState \<Rightarrow> DBState \<Rightarrow> bool" where
  "db_step ka s s' \<longleftrightarrow> (\<exists>a. db_act ka a s = Some s')"

fun db_run :: "KernelArgs \<Rightarrow> db_action list \<Rightarrow> DBState \<Rightarrow> DBState option" where
  "db_run ka [] s = Some s"
| "db_run ka (a # as) s = Option.bind (db_act ka a s) (db_run ka as)"

lemma db_run_reach: "db_run ka as s = Some s' \<Longrightarrow> (db_step ka)\<^sup>*\<^sup>* s s'"
proof (induction as arbitrary: s)
  case (Cons a as)
  then obtain s1 where s1: "db_act ka a s = Some s1" "db_run ka as s1 = Some s'" by (auto split: bind_splits)
  from s1(1) have "db_step ka s s1" by (auto simp: db_step_def)
  with Cons.IH [OF s1(2)] show ?case by (rule converse_rtranclp_into_rtranclp [rotated])
qed simp

section \<open>No chunk is computed before it has arrived\<close>

text \<open>All of a slot's warps have finished their tile.\<close>

definition slot_warps_done :: "nat \<Rightarrow> nat \<Rightarrow> DBState \<Rightarrow> nat" where
  "slot_warps_done K slot s = length (filter (\<lambda>v. v div K = slot \<and> local_tile_count s v = assigned s slot \<and> 0 < assigned s slot) [0..<2 * K])"

text \<open>The chunks of a slot's tile that warp 0 has observed: those below \<open>chunks_ready\<close>, and all of them at the end.\<close>

definition slot_seen :: "nat \<Rightarrow> DBState \<Rightarrow> nat \<Rightarrow> bool" where
  "slot_seen K s slot \<longleftrightarrow> (\<forall>k<K. k < db_chunks_ready s slot \<longrightarrow> 0 < assigned s slot \<longrightarrow> (current s slot, k) \<in> set (db_seen s))
     \<and> (assigned s slot = 0 \<and> db_transfer s \<noteq> DB_Exit \<longrightarrow> db_chunks_ready s slot = 0)"

fun warp_ok :: "nat \<Rightarrow> DBState \<Rightarrow> nat \<Rightarrow> db_compute_pc \<Rightarrow> bool" where
  "warp_ok K s v DC_Check \<longleftrightarrow> local_tile_count s v < assigned s (v div K) \<or> db_chunks_ready s (v div K) = K + 1"
| "warp_ok K s v DC_Read \<longleftrightarrow> local_tile_count s v < assigned s (v div K)"
| "warp_ok K s v (DC_Ready t) \<longleftrightarrow> local_tile_count s v < assigned s (v div K) \<and> t = current s (v div K)"
| "warp_ok K s v (DC_Computing t) \<longleftrightarrow> local_tile_count s v < assigned s (v div K) \<and> t = current s (v div K)"
| "warp_ok K s v _ \<longleftrightarrow> True"

definition dispatches :: "DBState \<Rightarrow> nat" where
  "dispatches s = tiles_dispatched s + (if db_transfer s = DB_Publish then 1 else 0)"

fun db_phase :: "nat \<Rightarrow> db_transfer_pc \<Rightarrow> DBState \<Rightarrow> bool" where
  "db_phase K (DB_Chunk slot k) s \<longleftrightarrow> slot < 2 \<and> k \<le> K \<and> db_chunks_ready s slot = k \<and> 0 < assigned s slot
     \<and> (\<forall>j<2. j \<noteq> slot \<longrightarrow> 0 < assigned s j \<longrightarrow> db_chunks_ready s j = K)"
| "db_phase K (DB_Wait slot k) s \<longleftrightarrow> slot < 2 \<and> k < K \<and> db_chunks_ready s slot = k \<and> 0 < assigned s slot
     \<and> (\<forall>j<2. j \<noteq> slot \<longrightarrow> 0 < assigned s j \<longrightarrow> db_chunks_ready s j = K)"
| "db_phase K DB_Publish s \<longleftrightarrow> db_chunks_ready s (tiles_dispatched s mod 2) = 0 \<and> 0 < assigned s (tiles_dispatched s mod 2)
     \<and> (\<forall>j<2. j \<noteq> tiles_dispatched s mod 2 \<longrightarrow> 0 < assigned s j \<longrightarrow> db_chunks_ready s j = K)"
| "db_phase K DB_Exit s \<longleftrightarrow> (\<forall>j<2. db_chunks_ready s j = K + 1)"
| "db_phase K _ s \<longleftrightarrow> (\<forall>j<2. 0 < assigned s j \<longrightarrow> db_chunks_ready s j = K)"

definition db_inv :: "KernelArgs \<Rightarrow> DBState \<Rightarrow> bool" where
  "db_inv ka s \<longleftrightarrow> (let K = K_of ka in
     (\<forall>v<2 * K. local_tile_count s v \<le> assigned s (v div K) \<and> assigned s (v div K) \<le> local_tile_count s v + 1)
   \<and> (\<forall>v<2 * K. warp_ok K s v (db_compute s v))
   \<and> (\<forall>j<2. slot_seen K s j \<and> db_compute_done s j = slot_warps_done K j s)
   \<and> (\<forall>j<2. db_tile_id s j \<in> {current s j, NO_TILE})
   \<and> assigned s 0 = (dispatches s + 1) div 2 \<and> assigned s 1 = dispatches s div 2
   \<and> db_phase K (db_transfer s) s
   \<and> set (db_computed s) \<subseteq> set (db_seen s))"

lemma db_invD:
  assumes "db_inv ka s"
  shows "v < 2 * K_of ka \<Longrightarrow> local_tile_count s v \<le> assigned s (v div K_of ka)"
    and "v < 2 * K_of ka \<Longrightarrow> assigned s (v div K_of ka) \<le> local_tile_count s v + 1"
    and "v < 2 * K_of ka \<Longrightarrow> warp_ok (K_of ka) s v (db_compute s v)"
    and "j < 2 \<Longrightarrow> slot_seen (K_of ka) s j" and "j < 2 \<Longrightarrow> db_compute_done s j = slot_warps_done (K_of ka) j s"
    and "j < 2 \<Longrightarrow> db_tile_id s j \<in> {current s j, NO_TILE}"
    and "assigned s 0 = (dispatches s + 1) div 2" and "assigned s 1 = dispatches s div 2"
    and "db_phase (K_of ka) (db_transfer s) s" and "set (db_computed s) \<subseteq> set (db_seen s)"
  using assms unfolding db_inv_def Let_def by blast+

lemma db_invI:
  assumes "\<And>v. v < 2 * K_of ka \<Longrightarrow> local_tile_count s v \<le> assigned s (v div K_of ka)"
    and "\<And>v. v < 2 * K_of ka \<Longrightarrow> assigned s (v div K_of ka) \<le> local_tile_count s v + 1"
    and "\<And>v. v < 2 * K_of ka \<Longrightarrow> warp_ok (K_of ka) s v (db_compute s v)"
    and "\<And>j. j < 2 \<Longrightarrow> slot_seen (K_of ka) s j" and "\<And>j. j < 2 \<Longrightarrow> db_compute_done s j = slot_warps_done (K_of ka) j s"
    and "\<And>j. j < 2 \<Longrightarrow> db_tile_id s j \<in> {current s j, NO_TILE}"
    and "assigned s 0 = (dispatches s + 1) div 2" and "assigned s 1 = dispatches s div 2"
    and "db_phase (K_of ka) (db_transfer s) s" and "set (db_computed s) \<subseteq> set (db_seen s)"
  shows "db_inv ka s"
  using assms unfolding db_inv_def Let_def by blast

lemma slot_of_warp: "v < 2 * K \<Longrightarrow> v div K < 2" for K :: nat
  by (simp add: less_mult_imp_div_less)

text \<open>\<open>K\<close> finished warps are all of the slot's warps.\<close>

lemma slot_all_done:
  assumes "K \<le> slot_warps_done K slot s" "v < 2 * K" "v div K = slot"
  shows "local_tile_count s v = assigned s slot"
proof -
  let ?P = "\<lambda>v. v div K = slot \<and> local_tile_count s v = assigned s slot \<and> 0 < assigned s slot"
  have K: "0 < K" using assms(2) by (cases K) auto
  have sub: "set (filter ?P [0..<2 * K]) \<subseteq> {slot * K..<slot * K + K}"
  proof
    fix x assume "x \<in> set (filter ?P [0..<2 * K])"
    then have "x div K = slot" by simp
    then show "x \<in> {slot * K..<slot * K + K}" using K div_mult_mod_eq [of x K] mod_less_divisor [OF K, of x] by auto
  qed
  have "distinct (filter ?P [0..<2 * K])" by simp
  then have "card (set (filter ?P [0..<2 * K])) = slot_warps_done K slot s" by (simp only: distinct_card slot_warps_done_def)
  then have "set (filter ?P [0..<2 * K]) = {slot * K..<slot * K + K}"
    using assms(1) sub by (intro card_seteq) simp_all
  moreover have "v \<in> {slot * K..<slot * K + K}" using assms(3) K div_mult_mod_eq [of v K] mod_less_divisor [OF K, of v] by auto
  ultimately have "v \<in> set (filter ?P [0..<2 * K])" by (simp only:)
  then show ?thesis by simp
qed

lemma db_dispatched:
  assumes "db_inv ka s" "v < 2 * K_of ka" "local_tile_count s v * 2 + v div K_of ka < tiles_dispatched s"
  shows "local_tile_count s v < assigned s (v div K_of ka)"
proof -
  have "tiles_dispatched s \<le> dispatches s" by (simp add: dispatches_def)
  moreover have "v div K_of ka = 0 \<or> v div K_of ka = 1" using slot_of_warp [OF assms(2)] by auto
  ultimately show ?thesis using assms(3) db_invD(7,8) [OF assms(1)] by auto
qed

text \<open>Steps that leave the slots alone: only the warp \<open>v\<close> moves on.\<close>

lemma db_inv_warp:
  assumes "db_inv ka s" "warp_ok (K_of ka) s v pc" "s' = s\<lparr>db_compute := (db_compute s)(v := pc), db_computed := cs\<rparr>"
    and "set cs \<subseteq> set (db_seen s)"
  shows "db_inv ka s'"
proof -
  note d = db_invD [OF assms(1)]
  have w: "warp_ok K s' u p = warp_ok K s u p" for K u p by (cases p) (simp_all add: assms(3))
  have same: "slot_seen K s' j = slot_seen K s j" "slot_warps_done K j s' = slot_warps_done K j s" "dispatches s' = dispatches s" for K j
    by (simp_all add: assms(3) slot_seen_def slot_warps_done_def dispatches_def)
  have "db_phase K p s' = db_phase K p s" for K p by (cases p) (simp_all add: assms(3))
  then show ?thesis using d assms(2,4) by (intro db_invI) (simp_all add: w same, simp_all add: assms(3))
qed

lemma db_compute_inv:
  assumes inv: "db_inv ka s" and v: "v < 2 * K_of ka" and act: "db_compute_act ka v s = Some s'"
  shows "db_inv ka s'"
proof -
  define K where "K = K_of ka"
  define slot where "slot = v div K"
  note d = db_invD [OF inv]
  have slot: "slot < 2" using slot_of_warp v by (simp add: slot_def K_def)
  have K: "0 < K" using v by (cases K) (auto simp: K_def)
  have ok: "warp_ok K s v (db_compute s v)" using d(3) [OF v] by (simp add: K_def)
  have step: ?thesis if "s' = s\<lparr>db_compute := (db_compute s)(v := pc)\<rparr>" "warp_ok K s v pc" for pc
    using db_inv_warp [OF inv, of v pc s' "db_computed s"] that d(10) by (simp add: K_def)
  show ?thesis
  proof (cases "db_compute s v")
    case DC_Wait
    then have "s' = s\<lparr>db_compute := (db_compute s)(v := DC_Check)\<rparr>"
      and "local_tile_count s v * 2 + slot < tiles_dispatched s \<or> db_chunks_ready s slot = K + 1"
      using act by (auto simp: db_compute_act_def Let_def K_def slot_def split: if_splits)
    then show ?thesis using db_dispatched [OF inv v] by (intro step) (auto simp: slot_def K_def)
  next
    case DC_Check
    then have s': "s' = s\<lparr>db_compute := (db_compute s)(v := if db_chunks_ready s slot = K + 1 then DC_Exit else DC_Read)\<rparr>"
      using act by (simp add: db_compute_act_def Let_def K_def slot_def)
    show ?thesis using ok DC_Check by (intro step [OF s']) (auto simp: slot_def)
  next
    case DC_Read
    then have s': "s' = s\<lparr>db_compute := (db_compute s)(v := if db_tile_id s slot = NO_TILE then DC_Exit else DC_Ready (db_tile_id s slot))\<rparr>"
      using act by (auto simp: db_compute_act_def Let_def K_def slot_def)
    show ?thesis using ok DC_Read d(6) [OF slot] by (intro step [OF s']) (auto simp: slot_def split: if_splits)
  next
    case (DC_Ready t)
    then have s': "s' = s\<lparr>db_compute := (db_compute s)(v := DC_Computing t), db_computed := db_computed s @ [(t, v mod K)]\<rparr>"
      and r: "v mod K < db_chunks_ready s slot"
      using act by (auto simp: db_compute_act_def Let_def K_def slot_def split: if_splits)
    have t: "local_tile_count s v < assigned s slot" "t = current s slot" using ok DC_Ready by (simp_all add: slot_def)
    have "(current s slot, v mod K) \<in> set (db_seen s)" using d(4) [OF slot] r t(1) K by (simp add: slot_seen_def K_def)
    then show ?thesis using d(10) t by (intro db_inv_warp [OF inv _ s']) (auto simp: slot_def K_def)
  next
    case (DC_Computing t)
    have s': "s' = s\<lparr>db_compute := (db_compute s)(v := DC_Wait), db_compute_done := (db_compute_done s)(slot := db_compute_done s slot + 1),
        local_tile_count := (local_tile_count s)(v := local_tile_count s v + 1)\<rparr>"
      using act DC_Computing by (simp add: db_compute_act_def Let_def K_def slot_def)
    have lt: "local_tile_count s v < assigned s slot" using ok DC_Computing by (simp add: slot_def)
    then have eq: "local_tile_count s v + 1 = assigned s slot" using d(2) [OF v] by (simp add: slot_def K_def)
    have cnt: "slot_warps_done K j s' = slot_warps_done K j s + (if j = slot then 1 else 0)" for j
    proof (cases "j = slot")
      case True
      let ?P = "\<lambda>t u. u div K = slot \<and> local_tile_count t u = assigned t slot \<and> 0 < assigned t slot"
      have vK: "v < 2 * K" "v div K = slot" using v by (simp_all add: slot_def K_def)
      have "mset (filter (?P s') [0..<2 * K]) = add_mset v (mset (filter (?P s) [0..<2 * K]))"
      proof (rule filter_flip [OF vK(1)])
        show "\<not> ?P s v" using lt by simp
        show "?P s' v" using vK(2) lt eq by (simp add: s')
        show "?P s' u = ?P s u" if "u \<noteq> v" for u using that by (simp add: s')
      qed
      from arg_cong [OF this, of size] have "length (filter (?P s') [0..<2 * K]) = Suc (length (filter (?P s) [0..<2 * K]))"
        by (simp only: size_mset size_add_mset)
      with True show ?thesis unfolding slot_warps_done_def by simp
    next
      case False
      then have "filter (\<lambda>u. u div K = j \<and> local_tile_count s' u = assigned s' j \<and> 0 < assigned s' j) [0..<2 * K]
          = filter (\<lambda>u. u div K = j \<and> local_tile_count s u = assigned s j \<and> 0 < assigned s j) [0..<2 * K]"
        by (intro filter_cong) (auto simp: s' slot_def)
      with False show ?thesis by (simp add: slot_warps_done_def)
    qed
    have w: "warp_ok K s' u p = warp_ok K s u p" if "u \<noteq> v" for u p using that by (cases p) (simp_all add: s')
    have ph: "db_phase K p s' = db_phase K p s" for p by (cases p) (simp_all add: s')
    have same: "slot_seen K s' j = slot_seen K s j" "dispatches s' = dispatches s" for j by (simp_all add: s' slot_seen_def dispatches_def)
    show ?thesis
    proof (rule db_invI, goal_cases)
      case (1 u) then show ?case using d(1) [of u] eq by (auto simp: s' slot_def K_def)
    next
      case (2 u) then show ?case using d(2) [of u] by (auto simp: s')
    next
      case (3 u) then show ?case using d(3) [of u] w [of u] by (cases "u = v") (simp_all add: s' K_def)
    next
      case (4 j) then show ?case using d(4) same(1) by (simp add: K_def)
    next
      case (5 j) then show ?case using d(5) [of j] cnt [of j] by (cases "j = slot") (simp_all add: s' K_def)
    next
      case (6 j) then show ?case using d(6) by (simp add: s')
    next
      case 7 then show ?case using d(7) same(2) by (simp add: s')
    next
      case 8 then show ?case using d(8) same(2) by (simp add: s')
    next
      case 9 then show ?case using d(9) ph by (simp add: s' K_def)
    next
      case 10 then show ?case using d(10) by (simp add: s')
    qed
  next
    case DC_Exit
    then show ?thesis using act by (simp add: db_compute_act_def Let_def)
  qed
qed

text \<open>Before the end no slot holds the sentinel.\<close>

lemma db_no_sentinel:
  assumes "db_inv ka s" "j < 2" "db_transfer s \<noteq> DB_Exit"
  shows "db_chunks_ready s j \<noteq> K_of ka + 1"
proof (cases "assigned s j = 0")
  case True
  then show ?thesis using db_invD(4) [OF assms(1,2)] assms(3) by (simp add: slot_seen_def)
next
  case False
  then show ?thesis using db_invD(9) [OF assms(1)] assms(2,3) by (cases "db_transfer s") (auto split: if_splits; metis less_irrefl)+
qed

text \<open>Filling a slot whose warps are all done.\<close>

lemma db_dispatch_inv:
  assumes inv: "db_inv ka s" and pc: "db_transfer s = DB_Dispatch t" and slot: "slot = tiles_dispatched s mod 2"
    and free: "2 \<le> tiles_dispatched s \<Longrightarrow> K_of ka \<le> db_compute_done s slot"
    and s': "s' = s\<lparr>db_tile_id := (db_tile_id s)(slot := t), db_chunks_ready := (db_chunks_ready s)(slot := 0),
      db_compute_done := (db_compute_done s)(slot := 0), db_transfer := DB_Publish,
      assigned := (assigned s)(slot := assigned s slot + 1), current := (current s)(slot := t), db_taken := db_taken s @ [t]\<rparr>"
  shows "db_inv ka s'"
proof -
  define K where "K = K_of ka"
  note d = db_invD [OF inv, folded K_def]
  have s2: "slot < 2" by (simp add: slot)
  have disp: "dispatches s = tiles_dispatched s" "dispatches s' = tiles_dispatched s + 1" using pc by (simp_all add: dispatches_def s')
  have idle: "local_tile_count s v = assigned s slot" if "v < 2 * K" "v div K = slot" for v
  proof (cases "2 \<le> tiles_dispatched s")
    case True
    then have "K \<le> slot_warps_done K slot s" using free d(5) [OF s2] by (simp add: K_def)
    from slot_all_done [OF this that] show ?thesis .
  next
    case False
    then consider "tiles_dispatched s = 0" | "tiles_dispatched s = 1" by linarith
    then have "assigned s slot = 0" using d(7,8) slot disp by cases simp_all
    then show ?thesis using d(1) [of v] that by simp
  qed
  have quiet: "db_compute s v \<in> {DC_Wait, DC_Exit}" if "v < 2 * K" "v div K = slot" for v
    using d(3) [OF that(1)] idle [OF that] that(2) db_no_sentinel [OF inv s2, folded K_def] pc by (cases "db_compute s v") auto
  have other: "warp_ok K s' v p = warp_ok K s v p" if "v div K \<noteq> slot" for v p using that by (cases p) (simp_all add: s')
  have cnt: "slot_warps_done K j s' = (if j = slot then 0 else slot_warps_done K j s)" for j
  proof (cases "j = slot")
    case True
    have "\<not> (v div K = slot \<and> local_tile_count s' v = assigned s' slot \<and> 0 < assigned s' slot)" if "v \<in> set [0..<2 * K]" for v
      using idle [of v] that by (auto simp: s')
    then have "filter (\<lambda>v. v div K = slot \<and> local_tile_count s' v = assigned s' slot \<and> 0 < assigned s' slot) [0..<2 * K] = []"
      by (simp only: filter_empty_conv) blast
    with True show ?thesis unfolding slot_warps_done_def by simp
  qed (simp add: slot_warps_done_def s')
  have eo: "tiles_dispatched s = 2 * (tiles_dispatched s div 2) + slot" by (simp add: slot)
  show ?thesis
  proof (rule db_invI, fold K_def, goal_cases)
    case (1 v) then show ?case using d(1) [OF 1] by (auto simp: s')
  next
    case (2 v) then show ?case using d(2) [OF 2] idle [OF 2] by (auto simp: s')
  next
    case (3 v)
    then show ?case using d(3) [OF 3] quiet [OF 3] other [of v] by (cases "v div K = slot") (auto simp: s')
  next
    case (4 j) then show ?case using d(4) [OF 4] pc by (auto simp: slot_seen_def s')
  next
    case (5 j) then show ?case using d(5) [OF 5] cnt [of j] by (simp add: s')
  next
    case (6 j) then show ?case using d(6) [OF 6] by (auto simp: s')
  next
    case 7
    have "assigned s' 0 = assigned s 0 + (1 - slot)" using s2 by (auto simp: s')
    then show ?case using d(7) disp eo s2 by presburger
  next
    case 8
    have "assigned s' 1 = assigned s 1 + slot" using s2 by (auto simp: s' less_2_cases_iff)
    then show ?case using d(8) disp eo s2 by presburger
  next
    case 9 then show ?case using d(9) pc by (simp add: s' slot)
  next
    case 10 then show ?case using d(10) by (simp add: s')
  qed
qed

text \<open>The other steps of warp 0 leave the compute warps and the counts alone.\<close>

lemma db_inv_transfer:
  assumes "db_inv ka s" "db_compute s' = db_compute s" "local_tile_count s' = local_tile_count s" "assigned s' = assigned s"
    and "current s' = current s" "db_compute_done s' = db_compute_done s" "db_computed s' = db_computed s"
    and "dispatches s' = dispatches s" "set (db_seen s) \<subseteq> set (db_seen s')"
    and "db_tile_id s' = db_tile_id s \<or> db_tile_id s' = (\<lambda>_. NO_TILE)"
    and "\<And>j. j < 2 \<Longrightarrow> slot_seen (K_of ka) s' j" "db_phase (K_of ka) (db_transfer s') s'"
    and "\<And>j. j < 2 \<Longrightarrow> db_chunks_ready s j = K_of ka + 1 \<Longrightarrow> db_chunks_ready s' j = K_of ka + 1"
  shows "db_inv ka s'"
proof -
  note d = db_invD [OF assms(1)]
  have w: "warp_ok (K_of ka) s' v (db_compute s v)" if "v < 2 * K_of ka" for v
    using d(3) [OF that] assms(13) [OF slot_of_warp [OF that]] by (cases "db_compute s v") (auto simp: assms(3,4,5))
  have c: "slot_warps_done K j s' = slot_warps_done K j s" for K j by (simp add: slot_warps_done_def assms(3,4))
  show ?thesis
  proof (rule db_invI, goal_cases)
    case (6 j) then show ?case using d(6) [OF 6] assms(5,10) by auto
  next
    case 10 then show ?case using d(10) assms(7,9) by auto
  qed (use d w c assms(2-8,11,12) in \<open>simp_all\<close>)
qed

lemma db_transfer_inv:
  assumes inv: "db_inv ka s" and act: "db_transfer_act ka s = Some s'"
  shows "db_inv ka s'"
proof -
  define K where "K = K_of ka"
  note d = db_invD [OF inv, folded K_def]
  show ?thesis
  proof (cases "db_transfer s")
    case DB_Acquire
    obtain t tq where "acquire_tile (db_tq s) = (t, tq)" by fastforce
    then have s': "s' = s\<lparr>db_tq := tq, db_transfer := if ka_total_tiles ka \<le> t then DB_Finish else DB_Dispatch t\<rparr>"
      using act DB_Acquire by (simp add: db_transfer_act_def)
    show ?thesis using d(4,9) DB_Acquire
      by (intro db_inv_transfer [OF inv], fold K_def) (simp_all add: s' dispatches_def slot_seen_def)
  next
    case (DB_Dispatch t)
    show ?thesis using act DB_Dispatch
      by (intro db_dispatch_inv [OF inv DB_Dispatch refl]) (auto simp: db_transfer_act_def Let_def split: if_splits)
  next
    case DB_Publish
    then have s': "s' = s\<lparr>tiles_dispatched := tiles_dispatched s + 1, db_transfer := DB_Chunk (tiles_dispatched s mod 2) 0\<rparr>"
      using act by (simp add: db_transfer_act_def)
    show ?thesis using d(4,9) DB_Publish
      by (intro db_inv_transfer [OF inv], fold K_def) (simp_all add: s' dispatches_def slot_seen_def)
  next
    case (DB_Chunk slot k)
    show ?thesis
    proof (cases "k < K")
      case True
      obtain b tq where "acquire_chunk_slots (ka_C ka) (db_tq s) = (b, tq)" by fastforce
      then have s': "s' = s\<lparr>db_tq := submit_to ka b (current s slot) k tq, db_transfer := DB_Wait slot k\<rparr>"
        using act DB_Chunk True by (simp add: db_transfer_act_def K_def)
      show ?thesis using d(4,9) DB_Chunk True
        by (intro db_inv_transfer [OF inv], fold K_def) (simp_all add: s' dispatches_def slot_seen_def)
    next
      case False
      then have s': "s' = s\<lparr>db_transfer := DB_Acquire\<rparr>" using act DB_Chunk by (simp add: db_transfer_act_def K_def)
      have "k = K" using d(9) DB_Chunk False by simp
      then show ?thesis using d(4,9) DB_Chunk
        by (intro db_inv_transfer [OF inv], fold K_def) (auto simp: s' dispatches_def slot_seen_def)
    qed
  next
    case (DB_Wait slot k)
    then have s': "s' = s\<lparr>db_chunks_ready := (db_chunks_ready s)(slot := k + 1), db_transfer := DB_Chunk slot (k + 1),
        db_seen := db_seen s @ [(current s slot, k)]\<rparr>"
      using act by (auto simp: db_transfer_act_def split: if_splits)
    show ?thesis using d(4,9) DB_Wait db_no_sentinel [OF inv]
      by (intro db_inv_transfer [OF inv], fold K_def) (auto simp: s' dispatches_def slot_seen_def less_Suc_eq K_def)
  next
    case DB_Finish
    then have s': "s' = s\<lparr>db_tile_id := \<lambda>_. NO_TILE, db_transfer := DB_Sentinels\<rparr>"
      using act by (auto simp: db_transfer_act_def split: if_splits)
    show ?thesis using d(4,9) DB_Finish
      by (intro db_inv_transfer [OF inv], fold K_def) (simp_all add: s' dispatches_def slot_seen_def)
  next
    case DB_Sentinels
    then have s': "s' = s\<lparr>db_chunks_ready := \<lambda>_. K + 1, db_transfer := DB_Exit\<rparr>"
      using act by (simp add: db_transfer_act_def K_def)
    show ?thesis using d(4,9) DB_Sentinels
      by (intro db_inv_transfer [OF inv], fold K_def) (auto simp: s' dispatches_def slot_seen_def)
  next
    case DB_Exit
    then show ?thesis using act by (simp add: db_transfer_act_def)
  qed
qed

lemma db_inv_step:
  assumes "db_inv ka s" "db_step ka s s'"
  shows "db_inv ka s'"
proof -
  obtain a where a: "db_act ka a s = Some s'" using assms(2) by (auto simp: db_step_def)
  show ?thesis
  proof (cases a)
    case Transfer_Warp
    then show ?thesis using a db_transfer_inv [OF assms(1)] by (simp add: db_act_def)
  next
    case (Compute_Warp v)
    then show ?thesis using a db_compute_inv [OF assms(1)] by (simp add: db_act_def split: if_splits)
  next
    case (Elsewhere tq)
    then have s': "s' = s\<lparr>db_tq := tq\<rparr>" using a by (simp add: db_act_def)
    have ph: "db_phase K p s' = db_phase K p s" for K p by (cases p) (simp_all add: s')
    show ?thesis using db_invD(4,9) [OF assms(1)]
      by (intro db_inv_transfer [OF assms(1)]) (simp_all add: ph, simp_all add: s' dispatches_def slot_seen_def)
  qed
qed

interpretation double_buffer: step_invariant "db_step ka" "\<lambda>s. \<exists>tq. s = db_start tq" "db_inv ka" for ka
proof unfold_locales
  show "db_inv ka s" if "\<exists>tq. s = db_start tq" for s
    using that by (auto simp: db_inv_def Let_def db_start_def slot_seen_def slot_warps_done_def dispatches_def)
qed (rule db_inv_step)

end
