(* ===== verification/Double_Buffer_Work.thy ===== *)
theory Double_Buffer_Work
  imports Double_Buffer
begin

text \<open>
  What the compute warps of the double-buffered kernel (\<open>_warp_spec_tile_loop_double_buffer\<close>) have worked on, as a multiset: all
  chunks of the tiles whose slot has been filled again since, and of the tiles now in the slots those chunks whose warp has
  begun or finished them. So no chunk is ever computed twice, and only the tile of the slot that warp 0 does not wait for
  before it leaves can miss chunks.
\<close>

section \<open>The work on the tiles in the slots\<close>

definition worked :: "nat \<Rightarrow> DBState \<Rightarrow> nat \<Rightarrow> bool" where
  "worked K s v \<longleftrightarrow> (\<exists>t. db_compute s v = DC_Computing t)
     \<or> 0 < assigned s (v div K) \<and> local_tile_count s v = assigned s (v div K)"

definition slot_work :: "nat \<Rightarrow> DBState \<Rightarrow> nat \<Rightarrow> (u32 \<times> nat) multiset" where
  "slot_work K s j = mset (map (Pair (current s j)) (filter (\<lambda>k. worked K s (j * K + k)) [0..<K]))"

text \<open>The tiles now in the slots, in the order in which they were taken.\<close>

definition in_slots :: "DBState \<Rightarrow> u32 list" where
  "in_slots s = (let n = dispatches s in
     if n = 0 then [] else if n = 1 then [current s 0] else [current s (n mod 2), current s (Suc n mod 2)])"

definition db_work :: "nat \<Rightarrow> DBState \<Rightarrow> bool" where
  "db_work K s \<longleftrightarrow> length (db_taken s) = dispatches s
     \<and> (\<exists>old. db_taken s = old @ in_slots s \<and> mset (db_computed s) = chunks_of K old + slot_work K s 0 + slot_work K s 1)
     \<and> (db_transfer s \<in> {DB_Sentinels, DB_Exit} \<and> 0 < tiles_dispatched s \<longrightarrow> K \<le> db_compute_done s ((tiles_dispatched s - 1) mod 2))"

lemma slot_work_bound: "slot_work K s j \<subseteq># mset (map (Pair (current s j)) [0..<K])"
proof -
  have "filter_mset (\<lambda>k. worked K s (j * K + k)) (mset [0..<K]) \<subseteq># mset [0..<K]" by (rule multiset_filter_subset)
  from image_mset_subseteq_mono [OF this] show ?thesis by (simp only: slot_work_def mset_map mset_filter)
qed

lemma slot_work_cong:
  assumes "\<And>k. k < K \<Longrightarrow> worked K s' (j * K + k) = worked K s (j * K + k)" "current s' j = current s j"
  shows "slot_work K s' j = slot_work K s j"
proof -
  have "filter (\<lambda>k. worked K s' (j * K + k)) [0..<K] = filter (\<lambda>k. worked K s (j * K + k)) [0..<K]"
    using assms(1) by (intro filter_cong) simp_all
  with assms(2) show ?thesis by (simp add: slot_work_def)
qed

lemma slot_work_all: "(\<And>k. k < K \<Longrightarrow> worked K s (j * K + k)) \<Longrightarrow> slot_work K s j = mset (map (Pair (current s j)) [0..<K])"
  by (simp add: slot_work_def)

lemma slot_work_none: "(\<And>k. k < K \<Longrightarrow> \<not> worked K s (j * K + k)) \<Longrightarrow> slot_work K s j = {#}"
  by (simp add: slot_work_def)

text \<open>The warp \<open>j * K + k\<close> belongs to slot \<open>j\<close> and works on chunk \<open>k\<close>.\<close>

lemma warp_of_slot: "j < 2 \<Longrightarrow> k < K \<Longrightarrow> j * K + k < 2 * K \<and> (j * K + k) div K = j \<and> (j * K + k) mod K = k" for K :: nat
  by (cases "j = 0") (auto simp: less_2_cases_iff div_add1_eq)

lemma finished_slot_work:
  assumes "db_inv ka s" "j < 2" "0 < assigned s j" "K_of ka \<le> db_compute_done s j"
  shows "slot_work (K_of ka) s j = mset (map (Pair (current s j)) [0..<K_of ka])"
    and "v < 2 * K_of ka \<Longrightarrow> v div K_of ka = j \<Longrightarrow> local_tile_count s v = assigned s j"
proof -
  have all: "local_tile_count s v = assigned s j" if "v < 2 * K_of ka" "v div K_of ka = j" for v
    using slot_all_done [of "K_of ka" j s v] db_invD(5) [OF assms(1,2)] assms(4) that by simp
  then show "v < 2 * K_of ka \<Longrightarrow> v div K_of ka = j \<Longrightarrow> local_tile_count s v = assigned s j" .
  have "worked (K_of ka) s (j * K_of ka + k)" if "k < K_of ka" for k
    using warp_of_slot [OF assms(2) that] all assms(3) by (simp add: worked_def)
  then show "slot_work (K_of ka) s j = mset (map (Pair (current s j)) [0..<K_of ka])" by (rule slot_work_all)
qed

section \<open>The compute warps\<close>

lemma db_work_frame:
  assumes "db_work K s" "dispatches s' = dispatches s" "current s' = current s" "db_taken s' = db_taken s"
    and "mset (db_computed s') = mset (db_computed s) + new" "slot_work K s' 0 + slot_work K s' 1 = slot_work K s 0 + slot_work K s 1 + new"
    and "db_transfer s' \<in> {DB_Sentinels, DB_Exit} \<Longrightarrow> 0 < tiles_dispatched s' \<Longrightarrow> K \<le> db_compute_done s' ((tiles_dispatched s' - 1) mod 2)"
  shows "db_work K s'"
proof -
  have slots: "in_slots s' = in_slots s" using assms(2,3) by (simp add: in_slots_def Let_def)
  obtain old where "db_taken s = old @ in_slots s" "mset (db_computed s) = chunks_of K old + slot_work K s 0 + slot_work K s 1"
    using assms(1) by (auto simp: db_work_def)
  then have "db_taken s' = old @ in_slots s' \<and> mset (db_computed s') = chunks_of K old + slot_work K s' 0 + slot_work K s' 1"
    using assms(4-6) slots by (simp add: add.assoc)
  moreover have "length (db_taken s') = dispatches s'" using assms(1,2,4) by (simp add: db_work_def)
  ultimately show ?thesis unfolding db_work_def using assms(7) by blast
qed

text \<open>What \<open>db_work\<close> says of the end.\<close>

lemma db_work_last:
  "db_work K s \<Longrightarrow> db_transfer s \<in> {DB_Sentinels, DB_Exit} \<Longrightarrow> 0 < tiles_dispatched s \<Longrightarrow> K \<le> db_compute_done s ((tiles_dispatched s - 1) mod 2)"
  unfolding db_work_def by blast

text \<open>A step of a compute warp that neither begins nor ends its work.\<close>

lemma work_moves_on:
  assumes "db_work K s" "s' = s\<lparr>db_compute := (db_compute s)(v := pc)\<rparr>"
    and "\<And>t. db_compute s v \<noteq> DC_Computing t" "\<And>t. pc \<noteq> DC_Computing t"
  shows "db_work K s'"
proof -
  have "worked K s' u = worked K s u" for u using assms(3,4) by (simp add: worked_def assms(2))
  then have "slot_work K s' j = slot_work K s j" for j by (intro slot_work_cong) (simp_all add: assms(2))
  then show ?thesis using db_work_last [OF assms(1)] by (intro db_work_frame [OF assms(1), of _ "{#}"]) (simp_all add: assms(2) dispatches_def)
qed

lemma work_begins:
  assumes inv: "db_inv ka s" and work: "db_work (K_of ka) s" and v: "v < 2 * K_of ka" and pc: "db_compute s v = DC_Ready t"
    and s': "s' = s\<lparr>db_compute := (db_compute s)(v := DC_Computing t), db_computed := db_computed s @ [(t, v mod K_of ka)]\<rparr>"
  shows "db_work (K_of ka) s'"
proof -
  define K where "K = K_of ka"
  define j where "j = v div K"
  have K: "0 < K" using v by (cases K) (auto simp: K_def)
  have j: "j < 2" using slot_of_warp v by (simp add: j_def K_def)
  have at: "v = j * K + v mod K" by (simp add: j_def)
  have ok: "local_tile_count s v < assigned s j" "t = current s j" using db_invD(3) [OF inv v] pc by (simp_all add: j_def K_def)
  have flip: "mset (filter (\<lambda>k. worked K s' (j * K + k)) [0..<K]) = add_mset (v mod K) (mset (filter (\<lambda>k. worked K s (j * K + k)) [0..<K]))"
  proof (rule filter_flip)
    show "\<not> worked K s (j * K + v mod K)" unfolding at [symmetric] using ok pc by (simp add: worked_def j_def)
    show "worked K s' (j * K + v mod K)" unfolding at [symmetric] by (simp add: worked_def s')
    show "worked K s' (j * K + k) = worked K s (j * K + k)" if "k < K" "k \<noteq> v mod K" for k
    proof -
      have "j * K + k \<noteq> v" using that at by simp
      then show ?thesis by (simp add: worked_def s')
    qed
  qed (use K in simp)
  have own: "slot_work K s' j = add_mset (t, v mod K) (slot_work K s j)" using flip ok(2) by (simp add: slot_work_def s')
  have other: "slot_work K s' i = slot_work K s i" if "i < 2" "i \<noteq> j" for i
  proof (rule slot_work_cong)
    fix k assume "k < K"
    then have "i * K + k \<noteq> v" using warp_of_slot [OF that(1)] that(2) by (auto simp: j_def)
    then show "worked K s' (i * K + k) = worked K s (i * K + k)" by (simp add: worked_def s')
  qed (simp add: s')
  have "slot_work K s' 0 + slot_work K s' 1 = add_mset (t, v mod K) (slot_work K s 0 + slot_work K s 1)"
    using own other [of 0] other [of 1] j by (cases "j = 0") (auto simp: less_2_cases_iff)
  then show ?thesis using db_work_last [OF work]
    by (intro db_work_frame [OF work, of _ "{#(t, v mod K)#}"]) (simp_all add: s' dispatches_def K_def)
qed

lemma work_ends:
  assumes inv: "db_inv ka s" and work: "db_work (K_of ka) s" and v: "v < 2 * K_of ka" and pc: "db_compute s v = DC_Computing t"
    and s': "s' = s\<lparr>db_compute := (db_compute s)(v := DC_Wait), db_compute_done := (db_compute_done s)(j := db_compute_done s j + 1),
      local_tile_count := (local_tile_count s)(v := local_tile_count s v + 1)\<rparr>"
  shows "db_work (K_of ka) s'"
proof -
  have ok: "local_tile_count s v < assigned s (v div K_of ka)" using db_invD(3) [OF inv v] pc by simp
  with db_invD(2) [OF inv v] have "local_tile_count s v + 1 = assigned s (v div K_of ka)" by simp
  then have "worked (K_of ka) s' u = worked (K_of ka) s u" for u using pc ok by (cases "u = v") (simp_all add: worked_def s')
  then have "slot_work (K_of ka) s' i = slot_work (K_of ka) s i" for i by (intro slot_work_cong) (simp_all add: s')
  moreover have "K_of ka \<le> db_compute_done s' ((tiles_dispatched s' - 1) mod 2)"
    if "db_transfer s' \<in> {DB_Sentinels, DB_Exit}" "0 < tiles_dispatched s'"
  proof -
    have "db_compute_done s i \<le> db_compute_done s' i" for i by (simp add: s')
    then show ?thesis using db_work_last [OF work] that le_trans by (fastforce simp: s')
  qed
  ultimately show ?thesis by (intro db_work_frame [OF work, of _ "{#}"]) (simp_all add: s' dispatches_def)
qed

lemma work_compute:
  assumes inv: "db_inv ka s" and work: "db_work (K_of ka) s" and v: "v < 2 * K_of ka" and act: "db_compute_act ka v s = Some s'"
  shows "db_work (K_of ka) s'"
proof (cases "db_compute s v")
  case DC_Wait
  then have "s' = s\<lparr>db_compute := (db_compute s)(v := DC_Check)\<rparr>" using act by (auto simp: db_compute_act_def Let_def split: if_splits)
  from work_moves_on [OF work this] DC_Wait show ?thesis by simp
next
  case DC_Check
  then have "s' = s\<lparr>db_compute := (db_compute s)(v := if db_chunks_ready s (v div K_of ka) = K_of ka + 1 then DC_Exit else DC_Read)\<rparr>"
    using act by (simp add: db_compute_act_def Let_def)
  from work_moves_on [OF work this] DC_Check show ?thesis by simp
next
  case DC_Read
  then have "s' = s\<lparr>db_compute := (db_compute s)(v := if db_tile_id s (v div K_of ka) = NO_TILE then DC_Exit else DC_Ready (db_tile_id s (v div K_of ka)))\<rparr>"
    using act by (auto simp: db_compute_act_def Let_def)
  from work_moves_on [OF work this] DC_Read show ?thesis by simp
next
  case (DC_Ready t)
  then show ?thesis using act by (intro work_begins [OF inv work v DC_Ready]) (auto simp: db_compute_act_def Let_def split: if_splits)
next
  case (DC_Computing t)
  then show ?thesis using act by (intro work_ends [OF inv work v DC_Computing, of _ "v div K_of ka"]) (simp add: db_compute_act_def Let_def)
next
  case DC_Exit
  then show ?thesis using act by (simp add: db_compute_act_def Let_def)
qed

section \<open>Warp 0\<close>

lemma slot_work_same:
  "db_compute s' = db_compute s \<Longrightarrow> assigned s' = assigned s \<Longrightarrow> local_tile_count s' = local_tile_count s \<Longrightarrow> current s' = current s
    \<Longrightarrow> slot_work K s' j = slot_work K s j"
  by (intro slot_work_cong) (simp_all add: worked_def)

text \<open>A slot is filled again when all its warps have finished; they have computed all of the tile it held.\<close>

lemma work_dispatch:
  assumes inv: "db_inv ka s" and work: "db_work (K_of ka) s" and pc: "db_transfer s = DB_Dispatch t" and act: "db_transfer_act ka s = Some s'"
  shows "db_work (K_of ka) s'"
proof -
  define K where "K = K_of ka"
  define n where "n = tiles_dispatched s"
  define j where "j = n mod 2"
  define i where "i = Suc n mod 2"
  note d = db_invD [OF inv]
  have ij: "j < 2" "i < 2" "i \<noteq> j" "{i, j} = {0, 1}" "j = 0 \<and> i = 1 \<or> j = 1 \<and> i = 0" by (auto simp: i_def j_def mod_Suc)
  have n: "dispatches s = n" "assigned s 0 = (n + 1) div 2" "assigned s 1 = n div 2"
    using d(7,8) pc by (simp_all add: dispatches_def n_def)
  have finished: "2 \<le> n \<Longrightarrow> K \<le> db_compute_done s j"
    and s': "s' = s\<lparr>db_tile_id := (db_tile_id s)(j := t), db_chunks_ready := (db_chunks_ready s)(j := 0),
      db_compute_done := (db_compute_done s)(j := 0), db_transfer := DB_Publish,
      assigned := (assigned s)(j := assigned s j + 1), current := (current s)(j := t), db_taken := db_taken s @ [t]\<rparr>"
    using act pc by (auto simp: db_transfer_act_def Let_def n_def j_def K_def split: if_splits)
  have empty: "n < 2 \<Longrightarrow> assigned s j = 0" using n ij(5) by (auto simp: j_def)
  have full: "2 \<le> n \<Longrightarrow> 0 < assigned s j" using n ij(5) by (elim disjE) simp_all
  have own: "local_tile_count s v = assigned s j" if "v < 2 * K" "v div K = j" for v
  proof (cases "n < 2")
    case True
    then show ?thesis using d(1) [of v] that empty by (simp add: K_def)
  next
    case False
    then show ?thesis using finished_slot_work(2) [OF inv ij(1) full, of v] finished that by (simp add: K_def)
  qed
  have idle: "db_compute s v \<noteq> DC_Computing u" if "v < 2 * K" "v div K = j" for v u
    using d(3) [of v] own [OF that] that by (auto simp: K_def)
  have "\<not> worked K s' (j * K + k)" if "k < K" for k
    using warp_of_slot [OF ij(1) that] own idle by (simp add: worked_def s')
  then have fresh: "slot_work K s' j = {#}" by (rule slot_work_none)
  have other: "slot_work K s' i = slot_work K s i"
    using warp_of_slot [OF ij(2)] ij(3) by (intro slot_work_cong) (simp_all add: worked_def s')
  have before: "slot_work K s j = (if 2 \<le> n then mset (map (Pair (current s j)) [0..<K]) else {#})"
  proof (cases "2 \<le> n")
    case True
    from finished_slot_work(1) [OF inv ij(1) full [OF True]] finished [OF True] True show ?thesis by (simp add: K_def)
  next
    case False
    have "\<not> worked K s (j * K + k)" if "k < K" for k
      using warp_of_slot [OF ij(1) that] idle empty False by (simp add: worked_def)
    from slot_work_none [OF this] False show ?thesis by simp
  qed
  obtain old where old: "db_taken s = old @ in_slots s" "mset (db_computed s) = chunks_of K old + slot_work K s 0 + slot_work K s 1"
    using work by (auto simp: db_work_def K_def)
  have sum: "slot_work K q 0 + slot_work K q 1 = slot_work K q j + slot_work K q i" for q using ij(5) by (auto simp: add.commute)
  have d': "dispatches s' = Suc n" by (simp add: dispatches_def s' n_def)
  define older where "older = (if 2 \<le> n then old @ [current s j] else old)"
  have "in_slots s @ [t] = (if 2 \<le> n then [current s j] else []) @ in_slots s'"
    using ij(3) n(1) d' by (cases "n = 0"; cases "n = 1") (auto simp: in_slots_def Let_def s' j_def i_def)
  then have "db_taken s' = older @ in_slots s'" using old(1) by (auto simp: older_def s')
  moreover have "mset (db_computed s') = chunks_of K older + slot_work K s' 0 + slot_work K s' 1"
    using old(2) sum [of s] sum [of s'] before fresh other by (auto simp: older_def s' add.assoc)
  moreover have "length (db_taken s') = dispatches s'" using work n(1) d' by (simp add: db_work_def s')
  moreover have "db_transfer s' = DB_Publish" by (simp add: s')
  ultimately show ?thesis unfolding db_work_def K_def by auto
qed

lemma work_transfer:
  assumes inv: "db_inv ka s" and work: "db_work (K_of ka) s" and act: "db_transfer_act ka s = Some s'"
  shows "db_work (K_of ka) s'"
proof (cases "\<exists>t. db_transfer s = DB_Dispatch t")
  case True
  then show ?thesis using work_dispatch [OF inv work _ act] by blast
next
  case False
  have same: "db_compute s' = db_compute s" "assigned s' = assigned s" "local_tile_count s' = local_tile_count s" "current s' = current s"
    "dispatches s' = dispatches s" "db_taken s' = db_taken s" "db_computed s' = db_computed s"
    using act False by (auto simp: db_transfer_act_def dispatches_def split: db_transfer_pc.splits prod.splits if_splits)
  have "K_of ka \<le> db_compute_done s' ((tiles_dispatched s' - 1) mod 2)"
    if "db_transfer s' \<in> {DB_Sentinels, DB_Exit}" "0 < tiles_dispatched s'"
  proof (cases "db_transfer s = DB_Sentinels")
    case True
    then have "db_compute_done s' = db_compute_done s" "tiles_dispatched s' = tiles_dispatched s" using act by (auto simp: db_transfer_act_def)
    then show ?thesis using db_work_last [OF work] True that(2) by simp
  next
    case no: False
    then have "db_transfer s = DB_Finish"
      using act that(1) False by (cases "db_transfer s") (auto simp: db_transfer_act_def split: prod.splits if_splits)
    then show ?thesis using act that(2) by (auto simp: db_transfer_act_def split: if_splits)
  qed
  with same slot_work_same [OF same(1-4)] show ?thesis by (intro db_work_frame [OF work, of _ "{#}"]) simp_all
qed

lemma db_work_step:
  assumes "db_inv ka s \<and> db_work (K_of ka) s" "db_step ka s s'"
  shows "db_inv ka s' \<and> db_work (K_of ka) s'"
proof -
  obtain a where a: "db_act ka a s = Some s'" using assms(2) by (auto simp: db_step_def)
  have "db_work (K_of ka) s'"
  proof (cases a)
    case Transfer_Warp
    then have "db_transfer_act ka s = Some s'" using a by (simp add: db_act_def)
    then show ?thesis using work_transfer assms(1) by blast
  next
    case (Compute_Warp v)
    then have "v < 2 * K_of ka" "db_compute_act ka v s = Some s'" using a by (simp_all add: db_act_def split: if_splits)
    then show ?thesis using work_compute assms(1) by blast
  next
    case (Elsewhere tq)
    then have s': "s' = s\<lparr>db_tq := tq\<rparr>" using a by (simp add: db_act_def)
    have work: "db_work (K_of ka) s" using assms(1) by simp
    have "slot_work K s' j = slot_work K s j" for K j by (rule slot_work_same) (simp_all add: s')
    then show ?thesis using db_work_last [OF work]
      by (intro db_work_frame [OF work, of _ "{#}"]) (simp_all add: s' dispatches_def)
  qed
  with db_inv_step assms show ?thesis by blast
qed

interpretation double_buffer_work: step_invariant "db_step ka" "\<lambda>s. \<exists>tq. s = db_start tq" "\<lambda>s. db_inv ka s \<and> db_work (K_of ka) s" for ka
proof unfold_locales
  show "db_inv ka s \<and> db_work (K_of ka) s" if "\<exists>tq. s = db_start tq" for s
  proof -
    have "db_inv ka s" using double_buffer.inv_start [OF that] .
    moreover have "db_work (K_of ka) s"
      using that by (auto simp: db_work_def db_start_def dispatches_def in_slots_def slot_work_def worked_def)
    ultimately show ?thesis ..
  qed
qed (rule db_work_step)

section \<open>What is computed\<close>

lemma chunks_of_append: "chunks_of K (xs @ ys) = chunks_of K xs + chunks_of K ys"
  by (simp add: chunks_of_def)

lemma chunks_of_two: "chunks_of K [t] = mset (map (Pair t) [0..<K])"
  "chunks_of K [t, u] = mset (map (Pair t) [0..<K]) + mset (map (Pair u) [0..<K])"
  by (simp_all add: chunks_of_def)

lemma empty_slot_work:
  assumes "db_inv ka s" "j < 2" "assigned s j = 0"
  shows "slot_work (K_of ka) s j = {#}"
proof (rule slot_work_none)
  fix k assume "k < K_of ka"
  note v = warp_of_slot [OF assms(2) this]
  have "db_compute s (j * K_of ka + k) \<noteq> DC_Computing t" for t using db_invD(3) [OF assms(1), of "j * K_of ka + k"] v assms(3) by auto
  then show "\<not> worked (K_of ka) s (j * K_of ka + k)" using v assms(3) by (simp add: worked_def)
qed

lemma slots_at_most_once:
  assumes "db_inv ka s"
  shows "slot_work (K_of ka) s 0 + slot_work (K_of ka) s 1 \<subseteq># chunks_of (K_of ka) (in_slots s)"
proof -
  let ?K = "K_of ka" and ?n = "dispatches s"
  note b = slot_work_bound [of ?K s] and a = db_invD(7,8) [OF assms]
  consider "?n = 0" | "?n = 1" | "2 \<le> ?n" by linarith
  then show ?thesis
  proof cases
    case 1
    then show ?thesis using a empty_slot_work [OF assms, of 0] empty_slot_work [OF assms, of 1] by simp
  next
    case 2
    then show ?thesis using a b [of 0] empty_slot_work [OF assms, of 1] by (simp add: in_slots_def chunks_of_two)
  next
    case 3
    then have slots: "in_slots s = [current s (?n mod 2), current s (Suc ?n mod 2)]" by (simp add: in_slots_def Let_def)
    have "?n mod 2 = 0 \<and> Suc ?n mod 2 = 1 \<or> ?n mod 2 = 1 \<and> Suc ?n mod 2 = 0" by (auto simp: mod_Suc)
    then have "chunks_of ?K (in_slots s) = mset (map (Pair (current s 0)) [0..<?K]) + mset (map (Pair (current s 1)) [0..<?K])"
      unfolding slots chunks_of_two by (elim disjE conjE) (simp_all only: add.commute)
    then show ?thesis using b [of 0] b [of 1] subset_mset.add_mono by metis
  qed
qed

lemma work_at_most_once:
  assumes "db_inv ka s" "db_work (K_of ka) s"
  shows "mset (db_computed s) \<subseteq># chunks_of (K_of ka) (db_taken s)"
proof -
  obtain old where "db_taken s = old @ in_slots s"
    "mset (db_computed s) = chunks_of (K_of ka) old + (slot_work (K_of ka) s 0 + slot_work (K_of ka) s 1)"
    using assms(2) unfolding db_work_def add.assoc by blast
  then show ?thesis using slots_at_most_once [OF assms(1)] by (simp only: chunks_of_append subset_mset.add_left_mono)
qed

text \<open>At the end the tile taken last is complete: warp 0 has waited for its slot.\<close>

lemma work_at_exit:
  assumes inv: "db_inv ka s" and work: "db_work (K_of ka) s" and "exit": "db_transfer s = DB_Exit" and n: "n = length (db_taken s)"
  shows "chunks_of (K_of ka) (take (n - 2) (db_taken s) @ drop (n - 1) (db_taken s)) \<subseteq># mset (db_computed s)"
proof -
  let ?K = "K_of ka" and ?j = "(n - 1) mod 2"
  have d: "dispatches s = n" "tiles_dispatched s = n" using work "exit" n by (simp_all add: db_work_def dispatches_def)
  obtain old where old: "db_taken s = old @ in_slots s" "mset (db_computed s) = chunks_of ?K old + (slot_work ?K s 0 + slot_work ?K s 1)"
    using work unfolding db_work_def add.assoc by blast
  show ?thesis
  proof (cases "n = 0")
    case False
    have as: "0 < assigned s ?j" using False db_invD(7,8) [OF inv] d by (cases "?j = 0") (auto simp: elim: oddE)
    from False finished_slot_work(1) [OF inv _ as] db_work_last [OF work] "exit" d
    have full: "slot_work ?K s ?j = chunks_of ?K [current s ?j]" by (simp add: chunks_of_two)
    have "?j = 0 \<or> ?j = 1" by auto
    then have part: "slot_work ?K s ?j \<subseteq># slot_work ?K s 0 + slot_work ?K s 1" by (elim disjE) simp_all
    have "take (n - 2) (db_taken s) @ drop (n - 1) (db_taken s) = old @ [current s ?j]"
    proof (cases "n = 1")
      case True
      then have slots: "in_slots s = [current s 0]" using d by (simp add: in_slots_def)
      have "length old + length (in_slots s) = n" unfolding n old(1) by simp
      then have "old = []" using True slots by simp
      then show ?thesis unfolding old(1) slots using True by simp
    next
      case False
      with \<open>n \<noteq> 0\<close> obtain m where m: "n = Suc (Suc m)" by (metis One_nat_def not0_implies_Suc)
      then have slots: "in_slots s = [current s (n mod 2), current s (Suc n mod 2)]" using d by (simp add: in_slots_def Let_def)
      have "length old + length (in_slots s) = n" unfolding n old(1) by simp
      then have "length old = m" using m slots by simp
      moreover have "Suc n mod 2 = ?j" using m by simp
      ultimately show ?thesis unfolding old(1) slots by (simp add: m)
    qed
    then show ?thesis using full part unfolding old(2) by (simp add: chunks_of_append)
  qed (use n in \<open>simp add: chunks_of_def\<close>)
qed

end
