(* ===== verification/Sg_Warp_Spec.thy ===== *)
theory Sg_Warp_Spec
  imports Sg_Task_Queue Warp_Spec
begin

text \<open>
  The scatter-gather kernel (\<open>include/gfd/sg_warp_spec.cuh\<close>): warp 0 claims committed lists, turns their entries into
  descriptors and waits until the poller has signalled the list; warp 1 computes on it. As in \<open>Double_Buffer\<close> an action names
  the warp that moves, and \<open>None\<close> is a spin. The two warps hand over through \<open>list_ready\<close> and \<open>compute_done\<close>;
  \<open>sb_arrived\<close> and \<open>sb_computed\<close> are history.
\<close>

section \<open>Views and state\<close>

record SGListView =
  lv_list_id :: u32
  lv_count :: u32
  lv_flags :: u32
  lv_pool_offset :: u32

definition get_entry :: "SGTaskQueue \<Rightarrow> SGListView \<Rightarrow> u32 \<Rightarrow> DeviceSGEntry" where
  "get_entry sq view idx = list_entry sq (lv_pool_offset view) idx"

definition dst_ptr :: "SGTaskQueue \<Rightarrow> SGListView \<Rightarrow> u32 \<Rightarrow> u64" where
  "dst_ptr sq view idx = de_dst (get_entry sq view idx)"

definition entry_size :: "SGTaskQueue \<Rightarrow> SGListView \<Rightarrow> u32 \<Rightarrow> u32" where
  "entry_size sq view idx = de_size (get_entry sq view idx)"

datatype sg_transfer_pc = SG_Claim | SG_Poll u64 | SG_Slots u64 | SG_Space u64 u64 | SG_Clear u64 | SG_Await_Done | SG_Await_Compute | SG_Exit

datatype sg_compute_pc = SC_Wait | SC_Check | SC_Computing | SC_Reset | SC_Exit

record SGBlock =
  sb_dq :: DescriptorQueue
  sb_sq :: SGTaskQueue
  sb_view :: SGListView
  list_ready :: bool
  sb_compute_done :: bool
  sb_terminated :: bool
  lists_processed :: u64
  sb_transfer :: sg_transfer_pc
  sb_compute :: sg_compute_pc
  sb_arrived :: "SGListView list"
  sb_computed :: "SGListView list"

definition sg_block_start :: "DescriptorQueue \<Rightarrow> SGTaskQueue \<Rightarrow> SGBlock" where
  "sg_block_start dq sq = \<lparr>sb_dq = dq, sb_sq = sq, sb_view = \<lparr>lv_list_id = 0, lv_count = 0, lv_flags = 0, lv_pool_offset = 0\<rparr>,
     list_ready = False, sb_compute_done = False, sb_terminated = False, lists_processed = 0, sb_transfer = SG_Claim,
     sb_compute = SC_Wait, sb_arrived = [], sb_computed = []\<rparr>"

section \<open>Warp 0\<close>

definition list_descriptor :: "SGTaskQueue \<Rightarrow> SGListView \<Rightarrow> u32 \<Rightarrow> Descriptor \<Rightarrow> Descriptor" where
  "list_descriptor sq view i desc =
     (let e = list_entry sq (lv_pool_offset view) i
      in desc\<lparr>src_addr := de_src e, dst_addr := de_dst e, desc_size := de_size e,
           user_data := push_bit 32 (ucast (lv_list_id view)) OR ucast i,
           flags := (if i = lv_count view - 1 then FLAG_LAST_IN_TILE else FLAG_NONE)\<rparr>)"

text \<open>The conversion loop and the two-phase commit, lane by lane.\<close>

definition convert_list :: "SGTaskQueue \<Rightarrow> SGListView \<Rightarrow> u64 \<Rightarrow> DescriptorQueue \<Rightarrow> DescriptorQueue" where
  "convert_list sq view desc_base q =
     commit_chunk desc_base (lv_count view)
       (fold (\<lambda>i. set_entry (desc_base + of_nat i) (list_descriptor sq view (of_nat i))) (warp_indices (unat (lv_count view))) q)"

text \<open>The compare-and-swap loop leaves the maximum.\<close>

definition sg_consume :: "u32 \<Rightarrow> u32 \<Rightarrow> SGTaskQueue \<Rightarrow> SGTaskQueue" where
  "sg_consume off n sq = (let new_consumed = ucast off + ucast n
     in if new_consumed > entry_consumed_idx sq then sq\<lparr>entry_consumed_idx := new_consumed\<rparr> else sq)"

definition view_of :: "SGList \<Rightarrow> SGListView" where
  "view_of l = \<lparr>lv_list_id = list_id l, lv_count = list_count l, lv_flags = list_flags l, lv_pool_offset = pool_offset l\<rparr>"

definition list_signalled :: "SGBlock \<Rightarrow> bool" where
  "list_signalled s \<longleftrightarrow> (case d_list_done (sb_sq s) of
     Some d \<Rightarrow> sg_wait_list_id_done (lv_list_id (sb_view s)) d
   | None \<Rightarrow> sg_wait_list_done (lists_processed s + 1) (sb_sq s))"

definition sg_transfer_act :: "SGBlock \<Rightarrow> SGBlock option" where
  "sg_transfer_act s =
     (case sb_transfer s of
        SG_Claim \<Rightarrow> Some (s\<lparr>sb_sq := (sb_sq s)\<lparr>list_read_idx := list_read_idx (sb_sq s) + 1\<rparr>, sb_transfer := SG_Poll (list_read_idx (sb_sq s))\<rparr>)
      | SG_Poll k \<Rightarrow>
          if list_committed k (sb_sq s)
          then Some (s\<lparr>sb_view := view_of (sg_lists (sb_sq s) (list_slot k)), list_ready := False, sb_compute_done := False, sb_transfer := SG_Slots k\<rparr>)
          else if sg_terminate (sb_sq s) then Some (s\<lparr>sb_terminated := True, sb_transfer := SG_Exit\<rparr>) else None
      | SG_Slots k \<Rightarrow> Some (s\<lparr>sb_dq := (sb_dq s)\<lparr>write_idx := write_idx (sb_dq s) + ucast (lv_count (sb_view s))\<rparr>,
          sb_transfer := SG_Space k (write_idx (sb_dq s))\<rparr>)
      | SG_Space k b \<Rightarrow>
          if b + ucast (lv_count (sb_view s)) - read_idx (sb_dq s) \<le> of_nat QUEUE_SIZE
          then Some (s\<lparr>sb_dq := convert_list (sb_sq s) (sb_view s) b (sb_dq s), sb_transfer := SG_Clear k\<rparr>) else None
      | SG_Clear k \<Rightarrow> Some (s\<lparr>sb_sq := sg_consume (lv_pool_offset (sb_view s)) (lv_count (sb_view s))
          (set_list k (\<lambda>l. l\<lparr>list_sequence := 0\<rparr>) (sb_sq s)), sb_transfer := SG_Await_Done\<rparr>)
      | SG_Await_Done \<Rightarrow>
          if list_signalled s
          then Some (s\<lparr>list_ready := True, lists_processed := lists_processed s + 1, sb_arrived := sb_arrived s @ [sb_view s],
                       sb_transfer := SG_Await_Compute\<rparr>)
          else None
      | SG_Await_Compute \<Rightarrow> if sb_compute_done s then Some (s\<lparr>sb_transfer := SG_Claim\<rparr>) else None
      | SG_Exit \<Rightarrow> None)"

section \<open>Warp 1\<close>

definition sg_compute_act :: "SGBlock \<Rightarrow> SGBlock option" where
  "sg_compute_act s =
     (case sb_compute s of
        SC_Wait \<Rightarrow> if list_ready s \<or> sb_terminated s then Some (s\<lparr>sb_compute := SC_Check\<rparr>) else None
      | SC_Check \<Rightarrow> Some (if sb_terminated s then s\<lparr>sb_compute := SC_Exit\<rparr>
          else s\<lparr>sb_compute := SC_Computing, sb_computed := sb_computed s @ [sb_view s]\<rparr>)
      | SC_Computing \<Rightarrow> Some (s\<lparr>sb_compute := SC_Reset, sb_compute_done := True\<rparr>)
      | SC_Reset \<Rightarrow> Some (s\<lparr>sb_compute := SC_Wait, list_ready := False\<rparr>)
      | SC_Exit \<Rightarrow> None)"

section \<open>Runs\<close>

datatype sg_action = SG_Transfer | SG_Compute | SG_Elsewhere DescriptorQueue SGTaskQueue

definition sg_act :: "sg_action \<Rightarrow> SGBlock \<Rightarrow> SGBlock option" where
  "sg_act a s =
     (case a of SG_Transfer \<Rightarrow> sg_transfer_act s | SG_Compute \<Rightarrow> sg_compute_act s
      | SG_Elsewhere dq sq \<Rightarrow> Some (s\<lparr>sb_dq := dq, sb_sq := sq\<rparr>))"

definition sg_step :: "SGBlock \<Rightarrow> SGBlock \<Rightarrow> bool" where
  "sg_step s s' \<longleftrightarrow> (\<exists>a. sg_act a s = Some s')"

fun sg_run :: "sg_action list \<Rightarrow> SGBlock \<Rightarrow> SGBlock option" where
  "sg_run [] s = Some s"
| "sg_run (a # as) s = Option.bind (sg_act a s) (sg_run as)"

lemma sg_run_reach: "sg_run as s = Some s' \<Longrightarrow> sg_step\<^sup>*\<^sup>* s s'"
proof (induction as arbitrary: s)
  case (Cons a as)
  then obtain s1 where s1: "sg_act a s = Some s1" "sg_run as s1 = Some s'" by (auto split: bind_splits)
  from s1(1) have "sg_step s s1" by (auto simp: sg_step_def)
  with Cons.IH [OF s1(2)] show ?case by (rule converse_rtranclp_into_rtranclp [rotated])
qed simp

section \<open>The hand-over\<close>

text \<open>Every list is computed at most once, in the order of arrival, and on the view it arrived with.\<close>

fun handover_ok :: "sg_transfer_pc \<Rightarrow> sg_compute_pc \<Rightarrow> SGBlock \<Rightarrow> bool" where
  "handover_ok SG_Await_Compute c s \<longleftrightarrow> sb_arrived s \<noteq> [] \<and> last (sb_arrived s) = sb_view s \<and> \<not> sb_terminated s \<and>
     (case c of
        SC_Wait \<Rightarrow> if sb_compute_done s then sb_computed s = sb_arrived s \<and> \<not> list_ready s else sb_computed s = butlast (sb_arrived s)
      | SC_Check \<Rightarrow> sb_computed s = butlast (sb_arrived s) \<and> list_ready s \<and> \<not> sb_compute_done s
      | SC_Computing \<Rightarrow> sb_computed s = sb_arrived s \<and> \<not> sb_compute_done s
      | SC_Reset \<Rightarrow> if sb_compute_done s then sb_computed s = sb_arrived s else sb_computed s = butlast (sb_arrived s)
      | SC_Exit \<Rightarrow> False)"
| "handover_ok p c s \<longleftrightarrow> sb_computed s = sb_arrived s \<and> (p \<noteq> SG_Exit \<longrightarrow> \<not> sb_terminated s) \<and>
     (p \<noteq> SG_Exit \<longrightarrow> p \<noteq> SG_Claim \<longrightarrow> (\<forall>k. p \<noteq> SG_Poll k) \<longrightarrow> \<not> sb_compute_done s) \<and>
     (case c of SC_Wait \<Rightarrow> \<not> list_ready s | SC_Check \<Rightarrow> p = SG_Exit \<and> sb_terminated s | SC_Computing \<Rightarrow> False | SC_Reset \<Rightarrow> True
      | SC_Exit \<Rightarrow> p = SG_Exit)"

definition sg_inv :: "SGBlock \<Rightarrow> bool" where
  "sg_inv s \<longleftrightarrow> handover_ok (sb_transfer s) (sb_compute s) s"

lemma butlast_snoc_last [simp]: "xs \<noteq> [] \<Longrightarrow> last xs = v \<Longrightarrow> butlast xs @ [v] = xs"
  using append_butlast_last_id by blast

lemma sg_inv_step:
  assumes "sg_inv s" "sg_step s s'"
  shows "sg_inv s'"
proof -
  obtain a where a: "sg_act a s = Some s'" using assms(2) by (auto simp: sg_step_def)
  show ?thesis
  proof (cases a)
    case SG_Transfer
    then show ?thesis using a assms(1)
      by (cases "sb_transfer s"; cases "sb_compute s") (auto simp: sg_act_def sg_transfer_act_def sg_inv_def split: if_splits)
  next
    case SG_Compute
    then show ?thesis using a assms(1)
      by (cases "sb_transfer s"; cases "sb_compute s") (auto simp: sg_act_def sg_compute_act_def sg_inv_def split: if_splits)
  next
    case (SG_Elsewhere dq sq)
    then show ?thesis using a assms(1)
      by (cases "sb_transfer s"; cases "sb_compute s") (auto simp: sg_act_def sg_inv_def)
  qed
qed

interpretation sg_block: step_invariant sg_step "\<lambda>s. \<exists>dq sq. s = sg_block_start dq sq" sg_inv
proof unfold_locales
  show "sg_inv s" if "\<exists>dq sq. s = sg_block_start dq sq" for s using that by (auto simp: sg_inv_def sg_block_start_def)
qed (rule sg_inv_step)

lemma sg_inv_order:
  assumes "sg_inv s"
  shows "sb_computed s = sb_arrived s \<or> sb_arrived s \<noteq> [] \<and> sb_computed s = butlast (sb_arrived s)"
  using assms by (cases "sb_transfer s"; cases "sb_compute s") (auto simp: sg_inv_def split: if_splits)

text \<open>The hand-over that fails: warp 1 reports before it takes \<open>list_ready\<close> back, and the late reset erases the next list's.\<close>

definition lost_handover :: "SGBlock \<Rightarrow> bool" where
  "lost_handover s \<longleftrightarrow> sb_transfer s = SG_Await_Compute \<and> sb_compute s = SC_Wait \<and> \<not> list_ready s \<and> \<not> sb_compute_done s \<and> \<not> sb_terminated s"

lemma lost_handover_step:
  assumes "lost_handover s" "sg_step s s'"
  shows "lost_handover s' \<and> sb_computed s' = sb_computed s"
proof -
  obtain a where "sg_act a s = Some s'" using assms(2) by (auto simp: sg_step_def)
  then show ?thesis using assms(1) by (cases a) (auto simp: lost_handover_def sg_act_def sg_transfer_act_def sg_compute_act_def)
qed

lemma lost_handover_forever: "sg_step\<^sup>*\<^sup>* s s' \<Longrightarrow> lost_handover s \<Longrightarrow> lost_handover s' \<and> sb_computed s' = sb_computed s"
  by (induction rule: rtranclp_induct) (auto dest: lost_handover_step)

section \<open>The list's descriptors\<close>

lemma convert_list_published:
  "unat (lv_count view) \<le> QUEUE_SIZE \<Longrightarrow> published_block b (unat (lv_count view)) (\<lambda>i. list_descriptor sq view (of_nat i)) q
     (convert_list sq view b q)"
  using write_commit_published [of "lv_count view" b "\<lambda>i. list_descriptor sq view (of_nat i)" q]
  by (simp add: convert_list_def written_def)

lemma id_of_list [simp]: "id_of (list_descriptor sq view i d) = unat (lv_list_id view)"
  by (simp add: id_of_def list_descriptor_def Let_def packed_id del: drop_bit_or)

lemma sg_of_list: "sg_of (list_descriptor sq view i d) =
    (let e = list_entry sq (lv_pool_offset view) i in \<lparr>sg_dst = de_dst e, sg_src = de_src e, sg_size = ucast (de_size e)\<rparr>)"
  by (simp add: sg_of_def list_descriptor_def Let_def)

section \<open>The entry pool\<close>

text \<open>
  Guarded submissions and consumptions of submitted lists, in any order; the second component counts the entries that
  submissions were given room for.
\<close>

inductive pool_use :: "SGTaskQueue \<times> nat \<Rightarrow> SGTaskQueue \<times> nat \<Rightarrow> bool" where
  use_submit: "unat n \<le> MAX_SG_POOL_ENTRIES \<Longrightarrow> sg_submit_list es n lid fl sq = Some (slot, sq') \<Longrightarrow> pool_use (sq, acc) (sq', acc + unat n)"
| use_claim: "pool_use (sq, acc) (sq\<lparr>list_read_idx := list_read_idx sq + 1\<rparr>, acc)"
| use_consume: "list_committed k sq \<Longrightarrow>
    pool_use (sq, acc) (sg_consume (pool_offset (sg_lists sq (list_slot k))) (list_count (sg_lists sq (list_slot k)))
      (set_list k (\<lambda>l. l\<lparr>list_sequence := 0\<rparr>) sq), acc)"

text \<open>Headers hold an offset within the pool, so the consumption index stays below twice the pool.\<close>

definition header_bounded :: "SGList \<Rightarrow> bool" where
  "header_bounded l \<longleftrightarrow> unat (pool_offset l) < MAX_SG_POOL_ENTRIES \<and> unat (list_count l) \<le> MAX_SG_POOL_ENTRIES"

definition pool_bounded :: "SGTaskQueue \<times> nat \<Rightarrow> bool" where
  "pool_bounded = (\<lambda>(sq, acc). unat (entry_consumed_idx sq) < 2 * MAX_SG_POOL_ENTRIES
     \<and> unat (entry_alloc_idx sq) = acc \<and> acc < 3 * MAX_SG_POOL_ENTRIES \<and> (\<forall>k. header_bounded (sg_lists sq k)))"

definition pool_fresh :: "SGTaskQueue \<times> nat \<Rightarrow> bool" where
  "pool_fresh = (\<lambda>(sq, acc). entry_consumed_idx sq = 0 \<and> entry_alloc_idx sq = 0 \<and> acc = 0
     \<and> (\<forall>k. pool_offset (sg_lists sq k) = 0 \<and> list_count (sg_lists sq k) = 0))"

lemma submit_bounded:
  assumes "pool_bounded (sq, acc)" "unat n \<le> MAX_SG_POOL_ENTRIES" "sg_submit_list es n lid fl sq = Some (slot, sq')"
  shows "pool_bounded (sq', acc + unat n)"
proof -
  note sq' = sg_submit_list_Some(2) [OF assms(3)]
  define d where "d = entry_alloc_idx sq - entry_consumed_idx sq"
  have fits: "unat d + unat n \<le> MAX_SG_POOL_ENTRIES"
    using assms(3) sg_wait_entry_space_fits [OF assms(2), of sq] by (auto simp: sg_submit_list_def d_def split: if_splits)
  have "entry_alloc_idx sq = entry_consumed_idx sq + d" by (simp add: d_def)
  moreover have cons: "unat (entry_consumed_idx sq) < 2 * MAX_SG_POOL_ENTRIES" using assms(1) by (simp add: pool_bounded_def)
  ultimately have alloc: "unat (entry_alloc_idx sq) = unat (entry_consumed_idx sq) + unat d"
    using fits by (simp add: unat_word_ariths MAX_SG_POOL_ENTRIES_def)
  have new: "unat (entry_alloc_idx sq + ucast n :: u64) = unat (entry_alloc_idx sq) + unat n"
    using fits cons alloc by (simp add: unat_word_ariths unat_ucast_u32_u64 MAX_SG_POOL_ENTRIES_def)
  have offs: "unat (off mod of_nat MAX_SG_POOL_ENTRIES :: u32) < MAX_SG_POOL_ENTRIES" for off
    by (simp add: unat_mod MAX_SG_POOL_ENTRIES_def)
  have "header_bounded (sg_lists sq' k)" for k
    using assms(1,2) offs unfolding sq'
    by (auto simp: pool_bounded_def header_bounded_def sg_commit_list_def set_list_at sg_write_entries_stored)
  moreover have "entry_alloc_idx sq' = entry_alloc_idx sq + ucast n" "entry_consumed_idx sq' = entry_consumed_idx sq"
    unfolding sq' by (simp_all add: sg_commit_list_def sg_write_entries_stored)
  ultimately show ?thesis using assms(1) new alloc fits cons by (simp add: pool_bounded_def)
qed

lemma consume_bounded:
  assumes "pool_bounded (sq, acc)" "header_bounded l"
  shows "pool_bounded (sg_consume (pool_offset l) (list_count l) (set_list k (\<lambda>l. l\<lparr>list_sequence := 0\<rparr>) sq), acc)"
proof -
  have "unat (ucast (pool_offset l) + ucast (list_count l) :: u64) < 2 * MAX_SG_POOL_ENTRIES"
    using assms(2) by (simp add: header_bounded_def unat_word_ariths unat_ucast_u32_u64 MAX_SG_POOL_ENTRIES_def)
  then show ?thesis using assms(1) by (auto simp: pool_bounded_def sg_consume_def Let_def set_list_at header_bounded_def)
qed

interpretation pool_life: step_invariant pool_use pool_fresh pool_bounded
proof unfold_locales
  show "pool_bounded s" if "pool_fresh s" for s
    using that by (auto simp: pool_fresh_def pool_bounded_def header_bounded_def MAX_SG_POOL_ENTRIES_def)
next
  show "pool_bounded s'" if "pool_bounded s" "pool_use s s'" for s s'
    using that(2,1)
  proof cases
    case (use_submit n es lid fl sq slot sq' acc)
    then show ?thesis using that(1) by (auto intro: submit_bounded)
  next
    case use_claim
    then show ?thesis using that(1) by (auto simp: pool_bounded_def)
  next
    case (use_consume k sq acc)
    have "header_bounded (sg_lists sq (list_slot k))" using that(1) use_consume(1) by (auto simp: pool_bounded_def)
    with that(1) show ?thesis unfolding use_consume(1,2) by (rule consume_bounded)
  qed
qed

end
