(* ===== verification/Kernel_Properties.thy ===== *)
theory Kernel_Properties
  imports Double_Buffer_Work Sg_Warp_Spec Sg_Session
begin

text \<open>
  What holds of the kernels: of a block of the tile kernel in every interleaving of its warps with the poller and the other
  blocks, of its double-buffered variant, and of the scatter-gather kernel with the queue it takes its lists from.
\<close>

section \<open>The tile kernel\<close>

text \<open>One tile of one chunk of one token, and a second tile.\<close>

definition small_kernel :: KernelArgs where
  "small_kernel = \<lparr>ka_C = 1, ka_K = 1, ka_T = 1, ka_total_tiles = 2, ka_token_size = 64, ka_gpu_buffer = 65536, ka_cpu_base = 4096\<rparr>"

definition two_tiles :: TiledQueue where
  "two_tiles = \<lparr>base = empty_descriptor_queue,
     scheduler = \<lparr>next_tile = 0, total_tiles = 2, tokens_per_tile = 1, tokens_per_chunk = 1, chunks_per_tile = 1, token_size = 64\<rparr>,
     tile_chunk_done = \<lambda>_. 0, d_tile_chunk_done = None\<rparr>"

definition resting_block :: BlockState where
  "resting_block = \<lparr>bs_tq = two_tiles, bs_tile = 0, chunks_ready = 0, compute_done = 0, bs_transfer = Acquire,
     bs_compute = \<lambda>_. Compute_First_Barrier, bs_seen = [], bs_computed = [], bs_tiles = []\<rparr>"

lemma resting_block_start: "block_start resting_block"
  by (simp add: block_start_def resting_block_def)

text \<open>C8: In every interleaving of a block's warps with the rest of the system, no chunk is handed to the compute function before warp 0
  has observed its arrival, and when the block has left its loop every chunk of every tile it entered was computed exactly once,
  and nothing else.\<close>

theorem block_computes_each_chunk_once:
  assumes "block_start s0" "(block_step ka)\<^sup>*\<^sup>* s0 s"
  shows "set (bs_computed s) \<subseteq> set (bs_seen s)
    \<and> (bs_transfer s = Transfer_Exit \<longrightarrow> mset (bs_computed s) = chunks_of (unat (ka_K ka)) (bs_tiles s))"
  using block.inv_reach [OF assms(2,1)] by (auto simp: block_inv_def between_tiles_def K_of_def)

text \<open>A run through one tile of one chunk: the chunk is submitted, lands, is computed, and the block leaves.\<close>

lemma one_chunk_run:
  "\<exists>s. (block_step (small_kernel\<lparr>ka_total_tiles := 1\<rparr>))\<^sup>*\<^sup>* resting_block s \<and> bs_transfer s = Transfer_Exit \<and> bs_tiles s = [0]
     \<and> bs_computed s = [(0, 0)]"
proof -
  let ?ka = "small_kernel\<lparr>ka_total_tiles := 1\<rparr>" and ?F = "\<lambda>_. Compute_First_Barrier"
  let ?R = "\<lambda>tq t r d pc c seen comp tiles. \<lparr>bs_tq = tq, bs_tile = t, chunks_ready = r, compute_done = d, bs_transfer = pc,
     bs_compute = c, bs_seen = seen, bs_computed = comp, bs_tiles = tiles\<rparr>"
  obtain q1 where q1: "acquire_tile two_tiles = (0, q1)" "base q1 = empty_descriptor_queue" "next_tile (scheduler q1) = 1"
    by (simp add: acquire_tile_def two_tiles_def)
  obtain q2 where q2: "acquire_chunk_slots 1 q1 = (0, q2)" "read_idx (base q2) = 0" "scheduler q2 = scheduler q1"
    using q1(2) by (simp add: acquire_chunk_slots_def empty_descriptor_queue_def)
  let ?q3 = "submit_to ?ka 0 0 0 q2"
  let ?q4 = "?q3\<lparr>tile_chunk_done := \<lambda>_. 1, d_tile_chunk_done := None\<rparr>"
  have K: "K_of ?ka = 1" "ka_C ?ka = 1" "ka_total_tiles ?ka = 1" by (simp_all add: K_of_def small_kernel_def)
  have arrived: "chunk_arrived ?ka 0 0 ?q4" by (simp add: chunk_arrived_def wait_chunk_done_def K(2))
  obtain q5 where q5: "acquire_tile ?q4 = (1, q5)" using q1(3) q2(3) by (simp add: acquire_tile_def submit_to_def)
  let ?B = "\<lambda>_. Await_Ready"
  let ?C = "?B(0 := Computing)"
  let ?D = "?C(0 := Compute_Second_Barrier)"
  let ?reach = "(block_step ?ka)\<^sup>*\<^sup>* resting_block"
  note go = rtranclp.rtrancl_into_rtrancl [of "block_step ?ka" resting_block]
  have "?reach (?R q1 0 0 0 At_First_Barrier ?F [] [] [])"
    using go [OF rtranclp.rtrancl_refl acquire [of resting_block 0 q1 ?ka]] q1(1) by (simp add: resting_block_def)
  from go [OF this enter_tile] have "?reach (?R q1 0 0 0 (Next_Chunk 0) ?B [] [] [0])" using K by simp
  from go [OF this take_slots] have "?reach (?R q2 0 0 0 (Await_Space 0 0) ?B [] [] [0])" using q2(1) K by simp
  from go [OF this submit] have "?reach (?R ?q3 0 0 0 (Await_Chunk 0) ?B [] [] [0])"
    using q2(2) K by (simp add: ring_room_def QUEUE_SIZE_def word_le_nat_alt)
  from go [OF this environment [of _ _ ?q4]] have "?reach (?R ?q4 0 0 0 (Await_Chunk 0) ?B [] [] [0])" by simp
  from go [OF this chunk_ready] have "?reach (?R ?q4 0 1 0 (Next_Chunk 1) ?B [(0, 0)] [] [0])" using arrived by simp
  from go [OF this compute [of 0]] have "?reach (?R ?q4 0 1 0 (Next_Chunk 1) ?C [(0, 0)] [(0, 0)] [0])" using K by simp
  from go [OF this computed [of 0]] have "?reach (?R ?q4 0 1 1 (Next_Chunk 1) ?D [(0, 0)] [(0, 0)] [0])" using K by simp
  from go [OF this last_chunk] have "?reach (?R ?q4 0 1 1 Await_Compute ?D [(0, 0)] [(0, 0)] [0])" using K by simp
  from go [OF this all_computed] have "?reach (?R ?q4 0 1 1 At_Second_Barrier ?D [(0, 0)] [(0, 0)] [0])" using K by simp
  from go [OF this next_tile] have "?reach (?R ?q4 0 1 1 Acquire ?F [(0, 0)] [(0, 0)] [0])" using K by simp
  from go [OF this acquire [of _ 1 q5]] have "?reach (?R q5 1 0 0 At_First_Barrier ?F [(0, 0)] [(0, 0)] [0])" using q5 by simp
  from go [OF this leave_loop] have "?reach (?R q5 1 0 0 Transfer_Exit (\<lambda>_. Compute_Exit) [(0, 0)] [(0, 0)] [0])" using K by simp
  then show ?thesis by (intro exI conjI, assumption) simp_all
qed

theorem block_computes_each_chunk_once_witness:
  "\<exists>s. (block_step (small_kernel\<lparr>ka_total_tiles := 1\<rparr>))\<^sup>*\<^sup>* resting_block s \<and> bs_transfer s = Transfer_Exit
     \<and> set (bs_computed s) \<subseteq> set (bs_seen s) \<and> mset (bs_computed s) = {#(0, 0)#}"
proof -
  obtain s where s: "(block_step (small_kernel\<lparr>ka_total_tiles := 1\<rparr>))\<^sup>*\<^sup>* resting_block s" "bs_transfer s = Transfer_Exit" "bs_tiles s = [0]"
    using one_chunk_run by blast
  have "chunks_of (unat (ka_K (small_kernel\<lparr>ka_total_tiles := 1\<rparr>))) (bs_tiles s) = {#(0, 0)#}" by (simp add: s(3) chunks_of_def small_kernel_def)
  with block_computes_each_chunk_once [OF resting_block_start s(1)] s(1,2) show ?thesis by auto
qed

text \<open>C18: A block of the tile kernel never gets stuck by itself: in every reachable state before its exit one of its warps can move,
  unless warp 0 waits for room in the ring or for the completion of a chunk it has submitted.\<close>

theorem block_waits_only_for_poller:
  assumes "block_start s0" "(block_step ka)\<^sup>*\<^sup>* s0 s" "bs_transfer s \<noteq> Transfer_Exit" "\<not> waits_for_poller ka s"
  shows "\<exists>s'. block_step ka s s' \<and> (bs_transfer s' \<noteq> bs_transfer s \<or> bs_compute s' \<noteq> bs_compute s)"
  using block_progress [OF block.inv_reach [OF assms(2,1)] assms(3,4)] by (simp add: own_move_def)

theorem block_waits_only_for_poller_witness:
  "\<exists>s'. block_step small_kernel resting_block s' \<and> (bs_transfer s' \<noteq> bs_transfer resting_block \<or> bs_compute s' \<noteq> bs_compute resting_block)"
  by (rule block_waits_only_for_poller [OF resting_block_start rtranclp.rtrancl_refl]) (simp_all add: resting_block_def waits_for_poller_def)

lemma ucast_add_fits: "unat a + unat b < 2 ^ 32 \<Longrightarrow> (ucast (a + b) :: u64) = ucast a + ucast b" for a b :: u32
  by (simp add: word_unat_eq_iff unat_word_ariths)

text \<open>C28: The compute warp looks where the transfer warp had the data put: token \<open>i\<close> of its view of a chunk is the destination of the
  chunk's \<open>i\<close>-th descriptor, and the token's global index is the low half of that descriptor's \<open>user_data\<close>.\<close>

theorem view_points_at_destination:
  assumes "unat (ka_C ka) \<le> QUEUE_SIZE" "i < unat (ka_C ka)" "unat (t * ka_T ka + of_nat c * ka_C ka) + unat (ka_C ka) \<le> 2 ^ 32"
  shows "dst_addr (entry_at (b + of_nat i) (base (submit_to ka b t c tq))) = cv_data (chunk_view ka t (of_nat c)) (of_nat i)
    \<and> ucast (user_data (entry_at (b + of_nat i) (base (submit_to ka b t c tq)))) = cv_global_idx (chunk_view ka t (of_nat c)) (of_nat i)"
proof -
  define g0 where "g0 = t * ka_T ka + of_nat c * ka_C ka"
  have i: "unat (of_nat i :: u32) = i" using assms(2) unat_u32_lt [of "ka_C ka"] by (intro unat_of_nat_u32) simp
  have idx: "t * ka_T ka + (of_nat c * ka_C ka + of_nat i) = g0 + of_nat i" by (simp add: g0_def)
  have wide: "(ucast (g0 + of_nat i) :: u64) = ucast g0 + ucast (of_nat i :: u32)"
    using assms(2,3) i by (intro ucast_add_fits) (simp add: g0_def)
  from submit_chunk_published [OF assms(1)] assms(2)
  have "entry_at (b + of_nat i) (base (submit_to ka b t c tq)) =
      (chunk_descriptor t (of_nat c) (ka_C ka) (ka_T ka) (ka_cpu_base ka) (ka_gpu_buffer ka) (ka_token_size ka) (of_nat i)
        (entry_at (b + of_nat i) (base tq)))\<lparr>sequence := b + of_nat i + 1\<rparr>"
    by (simp add: published_block_def submit_to_def)
  note d = this [unfolded chunk_descriptor_def Let_def idx]
  have "dst_addr (entry_at (b + of_nat i) (base (submit_to ka b t c tq))) = cv_data (chunk_view ka t (of_nat c)) (of_nat i)"
    unfolding d by (simp add: wide cv_data_def chunk_view_def g0_def [symmetric] distrib_right add.assoc)
  moreover have "ucast (user_data (entry_at (b + of_nat i) (base (submit_to ka b t c tq)))) = cv_global_idx (chunk_view ka t (of_nat c)) (of_nat i)"
    unfolding d by (simp add: chunk_view_def cv_global_idx_def packed_index g0_def [symmetric])
  ultimately show ?thesis ..
qed

theorem view_points_at_destination_witness:
  "dst_addr (entry_at 7 (base (submit_to small_kernel 7 1 0 two_tiles))) = cv_data (chunk_view small_kernel 1 0) 0"
  using view_points_at_destination [of small_kernel 0 1 0 7 two_tiles] by (simp add: small_kernel_def QUEUE_SIZE_def)

section \<open>The double-buffered kernel\<close>

text \<open>Actions that may depend on the state, here for the poller that counts a completed chunk.\<close>

fun db_script :: "KernelArgs \<Rightarrow> (DBState \<Rightarrow> db_action) list \<Rightarrow> DBState \<Rightarrow> DBState option" where
  "db_script ka [] s = Some s"
| "db_script ka (f # fs) s = Option.bind (db_act ka (f s) s) (db_script ka fs)"

lemma db_script_reach: "db_script ka fs s = Some s' \<Longrightarrow> (db_step ka)\<^sup>*\<^sup>* s s'"
proof (induction fs arbitrary: s)
  case (Cons f fs)
  then obtain s1 where s1: "db_act ka (f s) s = Some s1" "db_script ka fs s1 = Some s'" by (auto split: bind_splits)
  from s1(1) have "db_step ka s s1" by (auto simp: db_step_def)
  with Cons.IH [OF s1(2)] show ?case by (rule converse_rtranclp_into_rtranclp [rotated])
qed simp

definition chunk_lands :: "nat \<Rightarrow> DBState \<Rightarrow> db_action" where
  "chunk_lands t s = Elsewhere ((db_tq s)\<lparr>tile_chunk_done := (tile_chunk_done (db_tq s))(t := tile_chunk_done (db_tq s) t + 1)\<rparr>)"

text \<open>Warp 0 runs both tiles through; the warp of slot 1 computes; the warp of slot 0 gets to run when all is over.\<close>

definition late_warp :: "(DBState \<Rightarrow> db_action) list" where
  "late_warp = (let T = \<lambda>_. Transfer_Warp; v = \<lambda>_. Compute_Warp 0; w = \<lambda>_. Compute_Warp 1
     in [T, T, T, T, chunk_lands 0, T, T, T, T, T, T, chunk_lands 1, T, T, T, w, w, w, w, w, T, T, v, v, w, w])"

lemma late_warp_run:
  "\<exists>s. db_script small_kernel late_warp (db_start two_tiles) = Some s \<and> db_transfer s = DB_Exit
     \<and> db_compute s 0 = DC_Exit \<and> db_compute s 1 = DC_Exit \<and> db_taken s = [0, 1] \<and> db_seen s = [(0, 0), (1, 0)]
     \<and> db_computed s = [(1, 0)]"
  by (simp add: late_warp_def chunk_lands_def db_act_def db_transfer_act_def db_compute_act_def db_start_def two_tiles_def
    small_kernel_def K_of_def acquire_tile_def acquire_chunk_slots_def submit_to_def chunk_arrived_def wait_chunk_done_def NO_TILE_def Let_def)
    (simp add: word_le_nat_alt)

text \<open>C29: In every interleaving of the double-buffered kernel's warps with the rest of the system, what the compute warps work on has
  arrived: warp 0 has observed the completion of every chunk handed to the compute function.\<close>

theorem double_buffer_computes_arrived:
  assumes "(db_step ka)\<^sup>*\<^sup>* (db_start tq) s"
  shows "set (db_computed s) \<subseteq> set (db_seen s)"
  using double_buffer.inv_reach [OF assms] by (blast dest: db_invD(10))

theorem double_buffer_computes_arrived_witness:
  "\<exists>s. (db_step small_kernel)\<^sup>*\<^sup>* (db_start two_tiles) s \<and> db_computed s = [(1, 0)] \<and> set (db_computed s) \<subseteq> set (db_seen s)"
proof -
  obtain s where s: "db_script small_kernel late_warp (db_start two_tiles) = Some s" "db_computed s = [(1, 0)]" using late_warp_run by blast
  from db_script_reach [OF s(1)] s(2) double_buffer_computes_arrived [OF db_script_reach [OF s(1)]] show ?thesis by blast
qed

text \<open>C38: The double-buffered kernel computes no chunk twice, and the only tile that can miss chunks is the last but one: in every
  interleaving the computed chunks are, each at most once, chunks of tiles that warp 0 has taken, and once warp 0 has left, those of all
  its tiles but the last but one have been computed. For that tile the wait before the exit sentinels is missing: in the witness
  both tiles have arrived, all warps have left, and the chunk of tile 0 has never been computed.\<close>

theorem double_buffer_loses_one_tile_at_most:
  assumes "(db_step ka)\<^sup>*\<^sup>* (db_start tq) s" "n = length (db_taken s)"
  shows "mset (db_computed s) \<subseteq># chunks_of (unat (ka_K ka)) (db_taken s)
    \<and> (db_transfer s = DB_Exit \<longrightarrow>
        chunks_of (unat (ka_K ka)) (take (n - 2) (db_taken s) @ drop (n - 1) (db_taken s)) \<subseteq># mset (db_computed s))"
proof -
  have inv: "db_inv ka s \<and> db_work (K_of ka) s" using double_buffer_work.inv_reach [OF assms(1)] by blast
  from inv work_at_most_once [of ka s] work_at_exit [of ka s, OF _ _ _ assms(2)] show ?thesis by (simp add: K_of_def)
qed

theorem double_buffer_loses_one_tile_at_most_witness:
  "\<exists>s. (db_step small_kernel)\<^sup>*\<^sup>* (db_start two_tiles) s \<and> db_transfer s = DB_Exit \<and> db_compute s 0 = DC_Exit \<and> db_compute s 1 = DC_Exit
     \<and> db_taken s = [0, 1] \<and> db_seen s = [(0, 0), (1, 0)] \<and> (0, 0) \<notin> set (db_computed s) \<and> {#(1, 0)#} \<subseteq># mset (db_computed s)"
proof -
  obtain s where s: "db_script small_kernel late_warp (db_start two_tiles) = Some s" "db_transfer s = DB_Exit" "db_compute s 0 = DC_Exit"
    "db_compute s 1 = DC_Exit" "db_taken s = [0, 1]" "db_seen s = [(0, 0), (1, 0)]" "db_computed s = [(1, 0)]" using late_warp_run by blast
  note r = db_script_reach [OF s(1)]
  have "chunks_of (unat (ka_K small_kernel)) (take (2 - 2) (db_taken s) @ drop (2 - 1) (db_taken s)) = {#(1, 0)#}"
    by (simp add: s(5) chunks_of_def small_kernel_def)
  with double_buffer_loses_one_tile_at_most [OF r, of 2] s(2,5) have "{#(1, 0)#} \<subseteq># mset (db_computed s)" by simp
  with r s show ?thesis by (intro exI [of _ s] conjI) simp_all
qed

section \<open>The scatter-gather kernel\<close>

definition two_lists :: SGTaskQueue where
  "two_lists = zero_sg_queue\<lparr>list_alloc_idx := 2, entry_alloc_idx := 2, sg_lists := (sg_lists zero_sg_queue)
     (0 := \<lparr>pool_offset = 0, list_count = 1, list_id = 0, list_flags = 0, list_sequence = 1\<rparr>,
      1 := \<lparr>pool_offset = 1, list_count = 1, list_id = 1, list_flags = 0, list_sequence = 2\<rparr>)\<rparr>"

fun sg_script :: "(SGBlock \<Rightarrow> sg_action) list \<Rightarrow> SGBlock \<Rightarrow> SGBlock option" where
  "sg_script [] s = Some s"
| "sg_script (f # fs) s = Option.bind (sg_act (f s) s) (sg_script fs)"

lemma sg_script_reach: "sg_script fs s = Some s' \<Longrightarrow> sg_step\<^sup>*\<^sup>* s s'"
proof (induction fs arbitrary: s)
  case (Cons f fs)
  then obtain s1 where s1: "sg_act (f s) s = Some s1" "sg_script fs s1 = Some s'" by (auto split: bind_splits)
  from s1(1) have "sg_step s s1" by (auto simp: sg_step_def)
  with Cons.IH [OF s1(2)] show ?case by (rule converse_rtranclp_into_rtranclp [rotated])
qed simp

definition list_lands :: "SGBlock \<Rightarrow> sg_action" where
  "list_lands s = SG_Elsewhere (sb_dq s) ((sb_sq s)\<lparr>sg_lists_completed := sg_lists_completed (sb_sq s) + 1\<rparr>)"

text \<open>C16: The two warps of the scatter-gather kernel hand lists over in order: the lists computed are those that arrived, in the order of
  arrival, each at most once and seen with the header it arrived with; at most the last one is still to come.\<close>

theorem lists_computed_in_order:
  assumes "sg_step\<^sup>*\<^sup>* (sg_block_start dq sq) s"
  shows "sb_computed s = sb_arrived s \<or> sb_arrived s \<noteq> [] \<and> sb_computed s = butlast (sb_arrived s)"
proof -
  have "sg_inv s" using sg_block.inv_reach [OF assms] by blast
  then show ?thesis by (rule sg_inv_order)
qed

text \<open>The first list is transferred, handed over and computed.\<close>

definition first_list :: "(SGBlock \<Rightarrow> sg_action) list" where
  "first_list = (let T = \<lambda>_. SG_Transfer; c = \<lambda>_. SG_Compute in [T, T, T, T, T, list_lands, T, c, c])"

lemma convert_list_frame [simp]:
  "write_idx (convert_list sq view b q) = write_idx q" "read_idx (convert_list sq view b q) = read_idx q"
  by (simp_all add: convert_list_def commit_written written_def [symmetric])

lemma first_list_run:
  "\<exists>s. sg_script first_list (sg_block_start empty_descriptor_queue two_lists) = Some s \<and> map lv_list_id (sb_arrived s) = [0]
     \<and> map lv_list_id (sb_computed s) = [0]"
  by (simp add: first_list_def list_lands_def sg_act_def sg_transfer_act_def sg_compute_act_def sg_block_start_def two_lists_def zero_sg_queue_def
    empty_descriptor_queue_def list_committed_def list_slot_def set_list_def view_of_def sg_consume_def list_signalled_def
    sg_wait_list_done_def QUEUE_SIZE_def MAX_SG_LISTS_def Let_def)

theorem lists_computed_in_order_witness:
  "\<exists>s. sg_step\<^sup>*\<^sup>* (sg_block_start empty_descriptor_queue two_lists) s \<and> map lv_list_id (sb_computed s) = [0] \<and> sb_computed s = sb_arrived s"
proof -
  obtain s where s: "sg_script first_list (sg_block_start empty_descriptor_queue two_lists) = Some s" "map lv_list_id (sb_arrived s) = [0]"
    "map lv_list_id (sb_computed s) = [0]" using first_list_run by (elim exE conjE)
  have one: "butlast xs = []" if "map lv_list_id xs = [0]" for xs using that by (cases xs) simp_all
  from s(3) have "sb_computed s \<noteq> []" by (cases "sb_computed s") simp_all
  with lists_computed_in_order [OF sg_script_reach [OF s(1)]] one [OF s(2)] have "sb_computed s = sb_arrived s" by (elim disjE) simp_all
  with sg_script_reach [OF s(1)] s(3) show ?thesis by (intro exI [of _ s] conjI)
qed

text \<open>Warp 1 is held up between reporting the first list and taking \<open>list_ready\<close> back.\<close>

definition late_reset :: "(SGBlock \<Rightarrow> sg_action) list" where
  "late_reset = (let T = \<lambda>_. SG_Transfer; c = \<lambda>_. SG_Compute
     in [T, T, T, T, T, list_lands, T, c, c, c, T, T, T, T, T, T, list_lands, T, c])"

lemma late_reset_run:
  "\<exists>s. sg_script late_reset (sg_block_start empty_descriptor_queue two_lists) = Some s \<and> lost_handover s
     \<and> map lv_list_id (sb_arrived s) = [0, 1] \<and> map lv_list_id (sb_computed s) = [0]"
  by (simp add: late_reset_def list_lands_def sg_act_def sg_transfer_act_def sg_compute_act_def sg_block_start_def two_lists_def zero_sg_queue_def
    empty_descriptor_queue_def list_committed_def list_slot_def set_list_def view_of_def sg_consume_def list_signalled_def
    sg_wait_list_done_def QUEUE_SIZE_def MAX_SG_LISTS_def Let_def)
    (simp add: lost_handover_def)

text \<open>C39: The hand-over can be lost: warp 1 reports \<open>compute_done\<close> before it resets \<open>list_ready\<close>, and if the second list arrives between
  the two stores, the late reset erases its announcement. The second list is then never computed, whatever happens afterwards, and
  warp 0 waits for ever.\<close>

theorem list_handover_lost:
  "\<exists>s. sg_step\<^sup>*\<^sup>* (sg_block_start empty_descriptor_queue two_lists) s \<and> map lv_list_id (sb_arrived s) = [0, 1]
     \<and> {s'. sg_step\<^sup>*\<^sup>* s s'} \<subseteq> {s'. map lv_list_id (sb_computed s') = [0] \<and> sb_transfer s' = SG_Await_Compute}"
proof -
  obtain s where s: "sg_script late_reset (sg_block_start empty_descriptor_queue two_lists) = Some s" "lost_handover s"
    "map lv_list_id (sb_arrived s) = [0, 1]" "map lv_list_id (sb_computed s) = [0]" using late_reset_run by (elim exE conjE)
  have "{s'. sg_step\<^sup>*\<^sup>* s s'} \<subseteq> {s'. map lv_list_id (sb_computed s') = [0] \<and> sb_transfer s' = SG_Await_Compute}"
  proof (rule subsetI, unfold mem_Collect_eq)
    fix s' assume "sg_step\<^sup>*\<^sup>* s s'"
    from lost_handover_forever [OF this s(2)] s(4) show "map lv_list_id (sb_computed s') = [0] \<and> sb_transfer s' = SG_Await_Compute"
      by (simp only: lost_handover_def)
  qed
  with sg_script_reach [OF s(1)] s(3) show ?thesis by (intro exI [of _ s] conjI)
qed

section \<open>From a submission to the ring\<close>

definition forty_entries :: "nat \<Rightarrow> DeviceSGEntry" where
  "forty_entries i = \<lparr>de_src = of_nat i * 64, de_dst = 65536 + of_nat i * 64, de_size = 64, de_tag = 0\<rparr>"

text \<open>C15: What a warp submits as a list is what the poller reads from the ring: after \<open>sg_submit_list\<close> the header is committed, and the
  kernel that takes it writes for each entry one committed descriptor with the entry's addresses and size and the list's
  identifier. The pool's and the ring's wrap-around and the header's truncated offset do not matter.\<close>

theorem submitted_list_reaches_ring:
  assumes "sg_submit_list es n lid fl sq = Some (slot, sq')" "unat n \<le> QUEUE_SIZE" "unat n \<le> MAX_SG_POOL_ENTRIES" "i < unat n"
    and "d = entry_at (b + of_nat i) (convert_list sq' (view_of (sg_lists sq' (list_slot slot))) b q)"
  shows "list_committed slot sq' \<and> sequence d = b + of_nat i + 1 \<and> id_of d = unat lid
    \<and> sg_of d = \<lparr>sg_dst = de_dst (es i), sg_src = de_src (es i), sg_size = ucast (de_size (es i))\<rparr>"
proof -
  let ?v = "view_of (sg_lists sq' (list_slot slot))"
  note sq' = sg_submit_list_Some(2) [OF assms(1)]
  note h = sg_commit_list_header [OF sq']
  have v: "lv_count ?v = n" "lv_list_id ?v = lid" "lv_pool_offset ?v = ucast (entry_alloc_idx sq) mod of_nat MAX_SG_POOL_ENTRIES"
    using h(2-4) by (simp_all add: view_of_def)
  have ents: "sg_entries sq' = sg_entries (sg_write_entries (entry_alloc_idx sq) es n (sq\<lparr>entry_alloc_idx := entry_alloc_idx sq + ucast n\<rparr>))"
    unfolding sq' by (simp add: sg_commit_list_def)
  have entry: "list_entry sq' (lv_pool_offset ?v) (of_nat i) = es i"
    using list_entry_written [OF assms(3,4), of "entry_alloc_idx sq" es] unfolding list_entry_def ents v(3) by blast
  have "unat (lv_count ?v) \<le> QUEUE_SIZE" using assms(2) v(1) by simp
  from convert_list_published [OF this, of b sq' q] assms(4) v(1)
  have d: "d = (list_descriptor sq' ?v (of_nat i) (entry_at (b + of_nat i) q))\<lparr>sequence := b + of_nat i + 1\<rparr>"
    unfolding assms(5) by (simp add: published_block_def)
  show ?thesis using h(1) unfolding d by (simp add: sg_of_list entry v(2) Let_def)
qed

lemma forty_submitted: "sg_submit_list forty_entries 40 7 0 zero_sg_queue \<noteq> None"
  by (simp add: sg_submit_list_def zero_sg_queue_def sg_wait_entry_space_def sg_wait_list_space_def MAX_SG_POOL_ENTRIES_def MAX_SG_LISTS_def
    split: prod.splits)

theorem submitted_list_reaches_ring_witness:
  "\<exists>sq'. id_of (entry_at (100 + of_nat 39) (convert_list sq' (view_of (sg_lists sq' 0)) 100 empty_descriptor_queue)) = 7"
proof -
  obtain slot sq' where s: "sg_submit_list forty_entries 40 7 0 zero_sg_queue = Some (slot, sq')" using forty_submitted by auto
  have "list_slot slot = 0" using sg_submit_list_Some(1) [OF s] by (simp add: zero_sg_queue_def list_slot_def)
  with submitted_list_reaches_ring [OF s _ _ _ refl, of 39 100 empty_descriptor_queue] show ?thesis
    by (auto simp: QUEUE_SIZE_def MAX_SG_POOL_ENTRIES_def)
qed

text \<open>C34: The entry pool runs dry: a list's consumption index is taken from its header's offset, which is reduced modulo the pool, while
  the allocation index never is. So from a fresh queue, in any order of guarded submissions of lists that fit the pool (a longer
  list passes the 32-bit guard, whose subtraction wraps) and consumptions, fewer than 49152 entries are ever accepted, the number
  that the allocation index shows; all further submissions wait for ever.\<close>

theorem entry_pool_runs_dry:
  assumes "pool_use\<^sup>*\<^sup>* (sq0, 0) (sq, acc)" "pool_fresh (sq0, 0)"
  shows "acc < 49152 \<and> unat (entry_alloc_idx sq) = acc"
  using pool_life.inv_reach [OF assms] by (simp add: pool_bounded_def MAX_SG_POOL_ENTRIES_def)

theorem entry_pool_runs_dry_witness:
  "\<exists>sq. pool_use\<^sup>*\<^sup>* (zero_sg_queue, 0) (sq, 40) \<and> unat (entry_alloc_idx sq) = 40"
proof -
  obtain slot sq' where s: "sg_submit_list forty_entries 40 7 0 zero_sg_queue = Some (slot, sq')" using forty_submitted by auto
  have "pool_use (zero_sg_queue, 0) (sq', 0 + unat (40 :: u32))" by (rule use_submit [OF _ s]) (simp add: MAX_SG_POOL_ENTRIES_def)
  then have r: "pool_use\<^sup>*\<^sup>* (zero_sg_queue, 0) (sq', 40)" by simp
  have "pool_fresh (zero_sg_queue, 0)" by (simp add: pool_fresh_def zero_sg_queue_def)
  from entry_pool_runs_dry [OF r this] r show ?thesis by blast
qed

end
