(* ===== verification/Spin_Barrier.thy ===== *)
theory Spin_Barrier
  imports Transition_Systems
begin

text \<open>
  \<open>SpinBarrier\<close> of \<open>examples/08_multi_gpu_warp_spec.cu\<close>, which starts the benchmark threads of all GPUs together. A step is one
  atomic access; a spin is the absence of a step. The generation is a C++ \<open>int\<close> and wraps around at 32 bits.
  \<open>waits\<close> and \<open>passes\<close> count the calls of \<open>wait\<close> that a thread has begun and completed; with \<open>releases\<close> they are history.
\<close>

section \<open>The barrier\<close>

datatype barrier_pc = Outside | Arriving u32 | Resetting | Releasing | Spinning u32

record SpinBarrier =
  barrier_count :: nat
  waiting :: nat
  generation :: u32
  barrier_at :: "nat \<Rightarrow> barrier_pc"
  waits :: "nat \<Rightarrow> nat"
  passes :: "nat \<Rightarrow> nat"
  releases :: nat

definition new_barrier :: "nat \<Rightarrow> SpinBarrier" where
  "new_barrier n = \<lparr>barrier_count = n, waiting = 0, generation = 0, barrier_at = (\<lambda>_. Outside), waits = (\<lambda>_. 0), passes = (\<lambda>_. 0),
     releases = 0\<rparr>"

definition leave :: "nat \<Rightarrow> SpinBarrier \<Rightarrow> SpinBarrier" where
  "leave t s = s\<lparr>barrier_at := (barrier_at s)(t := Outside), passes := (passes s)(t := passes s t + 1)\<rparr>"

text \<open>A thread begins \<open>wait\<close> with the load of the generation; \<open>barrier_wait\<close> is what it does next inside.\<close>

definition barrier_enter :: "nat \<Rightarrow> SpinBarrier \<Rightarrow> SpinBarrier option" where
  "barrier_enter t s =
     (if barrier_at s t = Outside
      then Some (s\<lparr>barrier_at := (barrier_at s)(t := Arriving (generation s)), waits := (waits s)(t := waits s t + 1)\<rparr>) else None)"

definition barrier_wait :: "nat \<Rightarrow> SpinBarrier \<Rightarrow> SpinBarrier option" where
  "barrier_wait t s =
     (case barrier_at s t of
        Outside \<Rightarrow> None
      | Arriving gen \<Rightarrow> Some (s\<lparr>waiting := waiting s + 1,
          barrier_at := (barrier_at s)(t := if waiting s + 1 = barrier_count s then Resetting else Spinning gen)\<rparr>)
      | Resetting \<Rightarrow> Some (s\<lparr>waiting := 0, barrier_at := (barrier_at s)(t := Releasing)\<rparr>)
      | Releasing \<Rightarrow> Some (leave t (s\<lparr>generation := generation s + 1, releases := releases s + 1\<rparr>))
      | Spinning gen \<Rightarrow> if generation s = gen then None else Some (leave t s))"

definition barrier_step :: "SpinBarrier \<Rightarrow> SpinBarrier \<Rightarrow> bool" where
  "barrier_step s s' \<longleftrightarrow> (\<exists>t<barrier_count s. barrier_enter t s = Some s' \<or> barrier_wait t s = Some s')"

section \<open>Its invariant\<close>

definition in_round :: "nat \<Rightarrow> SpinBarrier \<Rightarrow> bool" where
  "in_round t s \<longleftrightarrow> waits s t = releases s + 1 \<and> passes s t = releases s"

definition spins :: "nat \<Rightarrow> SpinBarrier \<Rightarrow> bool" where
  "spins t s \<longleftrightarrow> in_round t s \<and> barrier_at s t = Spinning (of_nat (releases s))"

definition thread_ok :: "nat \<Rightarrow> SpinBarrier \<Rightarrow> bool" where
  "thread_ok t s \<longleftrightarrow>
     (case barrier_at s t of
        Outside \<Rightarrow> waits s t = releases s \<and> passes s t = releases s
      | Arriving gen \<Rightarrow> in_round t s \<and> gen = of_nat (releases s)
      | Spinning gen \<Rightarrow> spins t s \<or> waits s t = releases s \<and> passes s t + 1 = releases s \<and> gen = of_nat (passes s t)
      | _ \<Rightarrow> in_round t s)"

text \<open>The last thread to arrive finds all others spinning.\<close>

definition leading :: "nat \<Rightarrow> SpinBarrier \<Rightarrow> bool" where
  "leading t s \<longleftrightarrow> barrier_at s t = Resetting \<or> barrier_at s t = Releasing"

definition arrived :: "SpinBarrier \<Rightarrow> nat set" where
  "arrived s = {t. t < barrier_count s \<and> (spins t s \<or> leading t s)}"

definition barrier_inv :: "SpinBarrier \<Rightarrow> bool" where
  "barrier_inv s \<longleftrightarrow> generation s = of_nat (releases s) \<and> (\<forall>t<barrier_count s. thread_ok t s)
     \<and> (\<forall>t<barrier_count s. leading t s \<longrightarrow> (\<forall>u<barrier_count s. u \<noteq> t \<longrightarrow> spins u s))
     \<and> ((\<forall>t<barrier_count s. barrier_at s t \<noteq> Releasing) \<longrightarrow> waiting s = card (arrived s))
     \<and> ((\<exists>t<barrier_count s. barrier_at s t = Releasing) \<longrightarrow> waiting s = 0)
     \<and> (0 < barrier_count s \<longrightarrow> (\<exists>t<barrier_count s. \<not> spins t s))"

lemma finite_arrived [simp]: "finite (arrived s)"
  by (simp add: arrived_def)

lemma next_generation: "(of_nat (n + 1) :: u32) \<noteq> of_nat n"
  by simp

text \<open>A step of a thread that is neither among the spinning nor the leader, before and after, concerns only itself.\<close>

lemma quiet_step:
  assumes "barrier_inv s" "barrier_count s' = barrier_count s" "waiting s' = waiting s" "generation s' = generation s" "releases s' = releases s"
    and "\<And>u. u \<noteq> t \<Longrightarrow> barrier_at s' u = barrier_at s u \<and> waits s' u = waits s u \<and> passes s' u = passes s u"
    and "\<not> spins t s" "\<not> leading t s" "\<not> spins t s'" "\<not> leading t s'" "thread_ok t s'"
  shows "barrier_inv s'"
proof -
  have same: "spins u s' = spins u s" "leading u s' = leading u s" "(barrier_at s' u = Releasing) = (barrier_at s u = Releasing)" for u
    using assms(5) assms(6) [of u] assms(7-10) by (cases "u = t"; auto simp: spins_def in_round_def leading_def)+
  have arr: "arrived s' = arrived s" unfolding arrived_def same assms(2) ..
  have ok: "thread_ok u s'" if "u < barrier_count s" for u
  proof (cases "u = t")
    case False
    have "thread_ok u s" using assms(1) that by (simp add: barrier_inv_def)
    with assms(6) [OF False] same(1) [of u] assms(5) show ?thesis by (simp add: thread_ok_def in_round_def split: barrier_pc.splits)
  qed (simp add: assms(11))
  show ?thesis unfolding barrier_inv_def same arr assms(2-5)
    using assms(1) ok by (simp add: barrier_inv_def)
qed

lemma barrier_enter_inv:
  assumes "barrier_inv s" "t < barrier_count s" "barrier_enter t s = Some s'"
  shows "barrier_inv s'"
proof -
  have out: "barrier_at s t = Outside" and s': "s' = s\<lparr>barrier_at := (barrier_at s)(t := Arriving (generation s)), waits := (waits s)(t := waits s t + 1)\<rparr>"
    using assms(3) by (auto simp: barrier_enter_def split: if_splits)
  have "thread_ok t s" "generation s = of_nat (releases s)" using assms(1,2) by (simp_all add: barrier_inv_def)
  then have ok: "thread_ok t s'" using out by (simp add: thread_ok_def s' in_round_def)
  show ?thesis by (rule quiet_step [OF assms(1), where t = t]) (simp_all add: ok, simp_all add: s' spins_def leading_def out)
qed

lemma barrier_arrive_inv:
  assumes "barrier_inv s" "t < barrier_count s" "barrier_at s t = Arriving gen" "barrier_wait t s = Some s'"
  shows "barrier_inv s'"
proof -
  let ?n = "barrier_count s"
  define p where "p = (if waiting s + 1 = ?n then Resetting else Spinning gen)"
  have s': "s' = s\<lparr>waiting := waiting s + 1, barrier_at := (barrier_at s)(t := p)\<rparr>"
    using assms(3,4) by (simp add: barrier_wait_def p_def)
  have thread: "thread_ok t s" using assms(1,2) by (simp add: barrier_inv_def)
  have t: "in_round t s" "gen = of_nat (releases s)" "\<not> spins t s" "\<not> leading t s"
    using thread assms(3) by (simp_all add: thread_ok_def spins_def leading_def)
  have none: "\<not> leading u s" if "u < ?n" for u
    using assms(1,2) t(3,4) that by (auto simp: barrier_inv_def)
  have w: "waiting s = card (arrived s)" using assms(1) none by (simp add: barrier_inv_def leading_def)
  have at: "arrived s' = insert t (arrived s)"
    using t(1,2) assms(2) by (auto simp: arrived_def s' spins_def leading_def in_round_def p_def)
  have new: "t \<notin> arrived s" using t(3,4) by (simp add: arrived_def)
  have sp: "spins u s' = spins u s" "leading u s' = leading u s" if "u \<noteq> t" for u
    using that by (simp_all add: s' spins_def in_round_def leading_def)
  have full: "spins u s" if "waiting s + 1 = ?n" "u < ?n" "u \<noteq> t" for u
  proof -
    have "arrived s = {..<?n} - {t}"
      using w new assms(2) that(1) by (intro card_subset_eq) (auto simp: arrived_def)
    then show ?thesis using that(2,3) none by (auto simp: arrived_def)
  qed
  have "\<exists>u<?n. \<not> spins u s'"
  proof (cases "waiting s + 1 = ?n")
    case True
    then show ?thesis using assms(2) by (intro exI [of _ t]) (simp add: s' spins_def p_def)
  next
    case False
    have "card (insert t (arrived s)) \<noteq> ?n" using False w new by simp
    then have "insert t (arrived s) \<noteq> {..<?n}" by (metis card_lessThan)
    moreover have "insert t (arrived s) \<subseteq> {..<?n}" using assms(2) by (auto simp: arrived_def)
    ultimately obtain u where "u < ?n" "u \<notin> arrived s" "u \<noteq> t" by auto
    then show ?thesis using sp(1) [of u] by (auto simp: arrived_def)
  qed
  moreover have "thread_ok u s'" if "u < ?n" for u
  proof (cases "u = t")
    case True
    then show ?thesis using t(1,2) by (simp add: thread_ok_def s' p_def in_round_def spins_def)
  next
    case False
    moreover have "thread_ok u s" using assms(1) that by (simp add: barrier_inv_def)
    ultimately show ?thesis using sp(1) [OF False] by (simp add: thread_ok_def s' in_round_def split: barrier_pc.splits)
  qed
  moreover have "spins u s'" if "leading v s'" "v < ?n" "u < ?n" "u \<noteq> v" for u v
  proof (cases "v = t")
    case True
    then have "waiting s + 1 = ?n" using that(1) by (simp add: leading_def s' p_def split: if_splits)
    with full [of u] that True sp(1) [of u] show ?thesis by simp
  next
    case False
    then show ?thesis using that(1,2) none sp(2) [of v] by simp
  qed
  moreover have "barrier_at s' u \<noteq> Releasing" if "u < ?n" for u
    using none [OF that] by (auto simp: s' leading_def p_def)
  moreover have "generation s' = of_nat (releases s')" "waiting s' = card (arrived s')" "barrier_count s' = ?n" "releases s' = releases s"
    using assms(1) w new unfolding at by (simp_all add: s' barrier_inv_def)
  ultimately show ?thesis unfolding barrier_inv_def by auto
qed

lemma barrier_reset_inv:
  assumes "barrier_inv s" "t < barrier_count s" "barrier_at s t = Resetting" "barrier_wait t s = Some s'"
  shows "barrier_inv s'"
proof -
  let ?n = "barrier_count s"
  have s': "s' = s\<lparr>waiting := 0, barrier_at := (barrier_at s)(t := Releasing)\<rparr>" using assms(3,4) by (simp add: barrier_wait_def)
  have same: "spins u s' = spins u s" "leading u s' = leading u s" for u
    using assms(3) by (cases "u = t"; simp add: s' spins_def in_round_def leading_def)+
  have ok: "thread_ok u s'" if "u < ?n" for u
  proof -
    have "thread_ok u s" using assms(1) that by (simp add: barrier_inv_def)
    then show ?thesis using assms(3) same(1) [of u]
      by (cases "u = t") (simp_all add: thread_ok_def s' in_round_def split: barrier_pc.splits)
  qed
  have "\<exists>u<?n. barrier_at s' u = Releasing" using assms(2) by (intro exI [of _ t]) (simp add: s')
  moreover have "generation s' = generation s" "releases s' = releases s" "waiting s' = 0" "barrier_count s' = ?n" by (simp_all add: s')
  moreover have "(\<exists>u<?n. \<not> spins u s')" if "0 < ?n" using assms(1) that unfolding same by (simp add: barrier_inv_def)
  moreover have "\<forall>v<?n. leading v s' \<longrightarrow> (\<forall>u<?n. u \<noteq> v \<longrightarrow> spins u s')" using assms(1) unfolding same by (simp add: barrier_inv_def)
  moreover have "generation s = of_nat (releases s)" using assms(1) by (simp add: barrier_inv_def)
  ultimately show ?thesis using ok unfolding barrier_inv_def by auto
qed

text \<open>The release starts a new round: the leader is outside, all others may leave.\<close>

lemma barrier_release_inv:
  assumes "barrier_inv s" "t < barrier_count s" "barrier_at s t = Releasing" "barrier_wait t s = Some s'"
  shows "barrier_inv s'"
proof -
  let ?n = "barrier_count s"
  have s': "s' = leave t (s\<lparr>generation := generation s + 1, releases := releases s + 1\<rparr>)" using assms(3,4) by (simp add: barrier_wait_def)
  have lead: "leading t s" using assms(3) by (simp add: leading_def)
  have others: "spins u s" if "u < ?n" "u \<noteq> t" for u using assms(1,2) lead that by (auto simp: barrier_inv_def)
  have t: "in_round t s" using assms(1-3) by (auto simp: barrier_inv_def thread_ok_def)
  have ok: "thread_ok u s'" if "u < ?n" for u
  proof (cases "u = t")
    case True
    then show ?thesis using t by (simp add: thread_ok_def s' leave_def in_round_def)
  next
    case False
    then show ?thesis using others [OF that] by (simp add: thread_ok_def s' leave_def in_round_def spins_def)
  qed
  have nospin: "\<not> spins u s'" if "u < ?n" for u
    using others [OF that] t by (cases "u = t") (auto simp: spins_def s' leave_def in_round_def)
  have nolead: "\<not> leading u s'" if "u < ?n" for u
    using others [OF that] by (cases "u = t") (auto simp: spins_def s' leave_def leading_def)
  have "arrived s' = {}" using nospin nolead by (auto simp: arrived_def s' leave_def)
  moreover have "waiting s' = 0" using assms(1-3) by (auto simp: s' leave_def barrier_inv_def)
  moreover have "generation s' = of_nat (releases s')" using assms(1) by (simp add: s' leave_def barrier_inv_def)
  moreover have "barrier_count s' = ?n" by (simp add: s' leave_def)
  ultimately show ?thesis using ok nospin nolead assms(2) unfolding barrier_inv_def by (auto simp: leading_def)
qed

lemma barrier_wake_inv:
  assumes "barrier_inv s" "t < barrier_count s" "barrier_at s t = Spinning gen" "barrier_wait t s = Some s'"
  shows "barrier_inv s'"
proof -
  have s': "s' = leave t s" "generation s \<noteq> gen" using assms(3,4) by (auto simp: barrier_wait_def split: if_splits)
  have "thread_ok t s" "generation s = of_nat (releases s)" using assms(1,2) by (simp_all add: barrier_inv_def)
  then have ok: "\<not> spins t s" "thread_ok t s'" using assms(3) s' by (auto simp: thread_ok_def spins_def leave_def)
  show ?thesis by (rule quiet_step [OF assms(1), where t = t]) (simp_all add: ok, simp_all add: s'(1) leave_def spins_def leading_def assms(3))
qed

lemma barrier_wait_inv:
  assumes "barrier_inv s" "t < barrier_count s" "barrier_wait t s = Some s'"
  shows "barrier_inv s'"
proof (cases "barrier_at s t")
  case Outside
  then show ?thesis using assms(3) by (simp add: barrier_wait_def)
qed (use assms barrier_arrive_inv barrier_reset_inv barrier_release_inv barrier_wake_inv in blast)+

interpretation barrier: step_invariant barrier_step "\<lambda>s. \<exists>n. s = new_barrier n" barrier_inv
proof unfold_locales
  show "barrier_inv s" if "\<exists>n. s = new_barrier n" for s
    using that by (auto simp: barrier_inv_def new_barrier_def thread_ok_def leading_def arrived_def spins_def)
  show "barrier_inv s'" if "barrier_inv s" "barrier_step s s'" for s s'
    using that barrier_enter_inv barrier_arrive_inv barrier_reset_inv barrier_release_inv barrier_wake_inv
    unfolding barrier_step_def by (elim exE conjE disjE) (erule (2) barrier_enter_inv, rule barrier_wait_inv)
qed

lemma barrier_step_count: "barrier_step s s' \<Longrightarrow> barrier_count s' = barrier_count s"
  by (auto simp: barrier_step_def barrier_enter_def barrier_wait_def leave_def split: if_splits barrier_pc.splits)

lemma barrier_count_reach: "barrier_step\<^sup>*\<^sup>* s s' \<Longrightarrow> barrier_count s' = barrier_count s"
  by (induction rule: rtranclp_induct) (auto dest: barrier_step_count)

section \<open>What the invariant gives\<close>

lemma barrier_rounds:
  assumes "barrier_inv s" "t < barrier_count s"
  shows "passes s t \<le> releases s" "releases s \<le> waits s t" "releases s \<le> passes s t + 1"
proof -
  have "thread_ok t s" using assms by (simp add: barrier_inv_def)
  then show "passes s t \<le> releases s" "releases s \<le> waits s t" "releases s \<le> passes s t + 1"
    by (auto simp: thread_ok_def in_round_def spins_def split: barrier_pc.splits)
qed

text \<open>When every thread has called \<open>wait\<close>, one of them can go on.\<close>

lemma barrier_progress:
  assumes "barrier_inv s" "0 < barrier_count s" "\<forall>t<barrier_count s. barrier_at s t \<noteq> Outside"
  shows "\<exists>t<barrier_count s. barrier_wait t s \<noteq> None"
proof -
  obtain t where t: "t < barrier_count s" "\<not> spins t s" using assms(1,2) by (auto simp: barrier_inv_def)
  have ok: "thread_ok t s" and g: "generation s = of_nat (releases s)" using assms(1) t(1) by (simp_all add: barrier_inv_def)
  have "barrier_wait t s \<noteq> None"
  proof (cases "barrier_at s t")
    case (Spinning gen)
    then have "passes s t + 1 = releases s" "gen = of_nat (passes s t)" using ok t(2) by (simp_all add: thread_ok_def)
    then have "generation s = gen + 1" using g by (metis of_nat_Suc Suc_eq_plus1 add.commute)
    then show ?thesis using Spinning by (simp add: barrier_wait_def)
  qed (use assms(3) t(1) in \<open>simp_all add: barrier_wait_def\<close>)
  with t(1) show ?thesis by blast
qed

end
