(* ===== verification/Token_Kernels.thy ===== *)
theory Token_Kernels
  imports Descriptor_Queue Transition_Systems
begin

text \<open>
  The kernels of \<open>examples/01_basic_transfer.cu\<close> and \<open>examples/04_benchmark.cu\<close>, which are written against \<open>device.cuh\<close>: one thread per
  token writes a descriptor and commits it; the fused kernel then waits for the transfers and uses the data. The threads of a
  grid interleave freely; an action is what a thread does between two points where another can see it.
\<close>

section \<open>Submitting one descriptor per thread\<close>

record TokenInfo =
  cpu_addr :: u64
  token_id :: u32
  expert_id :: u32

text \<open>The arguments of a launch; \<open>ta_num\<close> is an \<open>int\<close> that is not negative.\<close>

record TransferArgs =
  ta_tokens :: "nat \<Rightarrow> TokenInfo"
  ta_buffer :: u64
  ta_num :: nat
  ta_size :: u32
  ta_base :: u64

datatype token_action = Write_Desc nat | Commit_Desc nat

fun act_thread :: "token_action \<Rightarrow> nat" where
  "act_thread (Write_Desc t) = t"
| "act_thread (Commit_Desc t) = t"

fun token_act :: "(TokenInfo \<Rightarrow> u64) \<Rightarrow> TransferArgs \<Rightarrow> token_action \<Rightarrow> DescriptorQueue \<Rightarrow> DescriptorQueue" where
  "token_act payload ka (Write_Desc t) q =
     (if t < ta_num ka
      then write_descriptor (ta_base ka) (int t) (cpu_addr (ta_tokens ka t)) (ta_buffer ka) (ta_size ka) (int (ta_num ka))
             (payload (ta_tokens ka t)) q
      else q)"
| "token_act payload ka (Commit_Desc t) q = fence_and_commit (ta_base ka) (int t) (t < ta_num ka) q"

definition fused_payload :: "TokenInfo \<Rightarrow> u64" where
  "fused_payload tok = push_bit 32 (ucast (expert_id tok)) OR ucast (token_id tok)"

text \<open>The two kernels that submit through \<open>write_and_commit\<close>.\<close>

definition simple_transfer :: "TransferArgs \<Rightarrow> nat \<Rightarrow> DescriptorQueue \<Rightarrow> DescriptorQueue" where
  "simple_transfer ka tid =
     (let active = tid < ta_num ka
      in write_and_commit (ta_base ka) (int tid) active (if active then cpu_addr (ta_tokens ka tid) else 0) (ta_buffer ka) (ta_size ka)
           (int (ta_num ka)) 0)"

lemma simple_transfer_acts:
  "simple_transfer ka t q = token_act (\<lambda>_. 0) ka (Commit_Desc t) (token_act (\<lambda>_. 0) ka (Write_Desc t) q)"
  by (simp add: simple_transfer_def write_and_commit_def Let_def)

text \<open>An interleaving of \<open>n\<close> threads, each of which writes and then commits.\<close>

definition interleaved :: "nat \<Rightarrow> token_action list \<Rightarrow> bool" where
  "interleaved n acts \<longleftrightarrow> list_all (\<lambda>a. act_thread a < n) acts
     \<and> list_all (\<lambda>t. filter (\<lambda>a. act_thread a = t) acts = [Write_Desc t, Commit_Desc t]) [0..<n]"

definition token_descriptor :: "(TokenInfo \<Rightarrow> u64) \<Rightarrow> TransferArgs \<Rightarrow> nat \<Rightarrow> Descriptor \<Rightarrow> Descriptor" where
  "token_descriptor payload ka t desc =
     desc\<lparr>src_addr := cpu_addr (ta_tokens ka t), dst_addr := ta_buffer ka + of_nat t * ucast (ta_size ka), desc_size := ta_size ka,
       flags := (if t + 1 = ta_num ka then FLAG_LAST_IN_BATCH else FLAG_NONE), user_data := payload (ta_tokens ka t)\<rparr>"

lemma token_write: "t < ta_num ka \<Longrightarrow> token_act payload ka (Write_Desc t) q = set_entry (ta_base ka + of_nat t) (token_descriptor payload ka t) q"
  by (auto simp: write_descriptor_def token_descriptor_def set_entry_def intro!: arg_cong2 [where f = "\<lambda>a b. a\<lparr>entries := b\<rparr>"])

lemma token_commit:
  "t < ta_num ka \<Longrightarrow> token_act payload ka (Commit_Desc t) q
    = set_entry (ta_base ka + of_nat t) (\<lambda>desc. desc\<lparr>sequence := ta_base ka + of_nat t + 1\<rparr>) q"
  by (simp add: fence_and_commit_def Let_def)

lemma token_idle: "\<not> act_thread a < ta_num ka \<Longrightarrow> token_act payload ka a q = q"
  by (cases a) (simp_all add: fence_and_commit_def)

text \<open>An action depends on, and changes, the slot of its own token only.\<close>

lemma token_act_slot:
  "entries (token_act payload ka a q) k = (if act_thread a < ta_num ka \<and> k = slot_index (ta_base ka + of_nat (act_thread a))
     then entries (token_act payload ka a q) k else entries q k)"
  by (cases a; cases "act_thread a < ta_num ka") (auto simp: token_idle token_write token_commit entries_set_entry simp del: token_act.simps)

lemma token_act_own:
  "entries q k = entries r k \<Longrightarrow> entries (token_act payload ka a q) k = entries (token_act payload ka a r) k"
  by (cases a; cases "act_thread a < ta_num ka") (auto simp: token_idle token_write token_commit entries_set_entry simp del: token_act.simps)

lemma token_act_indices [simp]:
  "write_idx (token_act payload ka a q) = write_idx q" "read_idx (token_act payload ka a q) = read_idx q"
  "done_idx (token_act payload ka a q) = done_idx q"
  by (cases a; simp add: write_descriptor_def fence_and_commit_def set_entry_def Let_def)+

lemma token_acts_indices:
  "write_idx (fold (token_act payload ka) acts q) = write_idx q" "read_idx (fold (token_act payload ka) acts q) = read_idx q"
  "done_idx (fold (token_act payload ka) acts q) = done_idx q"
  by (induction acts arbitrary: q) simp_all

lemma token_acts_slot:
  assumes "ta_num ka \<le> QUEUE_SIZE" "t < ta_num ka" "entries q k = entries r k" "k = slot_index (ta_base ka + of_nat t)"
  shows "entries (fold (token_act payload ka) acts q) k = entries (fold (token_act payload ka) (filter (\<lambda>a. act_thread a = t) acts) r) k"
  using assms(3)
proof (induction acts arbitrary: q r)
  case (Cons a acts)
  have skip: "entries (token_act payload ka a q) k = entries q k" if "act_thread a \<noteq> t"
    using token_act_slot [of payload ka a q k] slot_index_inj [of "ta_base ka" t "act_thread a"] that assms by (auto split: if_splits)
  show ?case
  proof (cases "act_thread a = t")
    case True
    then show ?thesis using Cons.IH [OF token_act_own [OF Cons.prems]] by simp
  next
    case False
    then show ?thesis using Cons.IH [of "token_act payload ka a q" r] skip Cons.prems by simp
  qed
qed simp

lemma token_acts_other:
  "(\<And>t. t < ta_num ka \<Longrightarrow> k \<noteq> slot_index (ta_base ka + of_nat t)) \<Longrightarrow> entries (fold (token_act payload ka) acts q) k = entries q k"
proof (induction acts arbitrary: q)
  case (Cons a acts)
  then show ?case using token_act_slot [of payload ka a q k] by (auto split: if_splits)
qed simp

text \<open>Whatever the interleaving, the launch publishes one block of descriptors and touches nothing else.\<close>

lemma interleaving_published:
  assumes "interleaved n acts" "ta_num ka \<le> n" "ta_num ka \<le> QUEUE_SIZE"
  shows "published_block (ta_base ka) (ta_num ka) (token_descriptor payload ka) q (fold (token_act payload ka) acts q)"
proof -
  have "entry_at (ta_base ka + of_nat t) (fold (token_act payload ka) acts q)
      = (token_descriptor payload ka t (entry_at (ta_base ka + of_nat t) q))\<lparr>sequence := ta_base ka + of_nat t + 1\<rparr>"
    if t: "t < ta_num ka" for t
  proof -
    have "filter (\<lambda>a. act_thread a = t) acts = [Write_Desc t, Commit_Desc t]"
      using assms(1,2) t by (auto simp: interleaved_def list_all_iff)
    then have "entry_at (ta_base ka + of_nat t) (fold (token_act payload ka) acts q)
        = entry_at (ta_base ka + of_nat t) (fold (token_act payload ka) [Write_Desc t, Commit_Desc t] q)"
      using token_acts_slot [OF assms(3) t refl refl, of payload acts q] by (simp add: entry_at_def)
    also have "\<dots> = (token_descriptor payload ka t (entry_at (ta_base ka + of_nat t) q))\<lparr>sequence := ta_base ka + of_nat t + 1\<rparr>"
      using t by (simp add: token_write token_commit entry_at_def entries_set_entry del: token_act.simps)
    finally show ?thesis .
  qed
  then show ?thesis by (simp add: published_block_def token_acts_indices token_acts_other)
qed

section \<open>The fused kernel\<close>

datatype token_pc = T_Write | T_Commit | T_Wait | T_Barrier | T_Use | T_Exit

text \<open>\<open>tg_seen\<close> is set when thread 0 leaves its wait, \<open>tg_used\<close> lists the threads that have read their token; both are history.\<close>

record TokenGrid =
  tg_queue :: DescriptorQueue
  tg_at :: "nat \<Rightarrow> token_pc"
  tg_seen :: bool
  tg_used :: "nat list"

definition grid_start :: "DescriptorQueue \<Rightarrow> TokenGrid" where
  "grid_start q = \<lparr>tg_queue = q, tg_at = (\<lambda>_. T_Write), tg_seen = False, tg_used = []\<rparr>"

text \<open>\<open>tid\<close> is the index in the grid, so that only the very first thread of the first block waits; \<open>__syncthreads\<close> joins a block.\<close>

inductive fused_step :: "TransferArgs \<Rightarrow> nat \<Rightarrow> nat \<Rightarrow> TokenGrid \<Rightarrow> TokenGrid \<Rightarrow> bool" for ka blocks dim where
  write_slot_of: "t < blocks * dim \<Longrightarrow> tg_at s t = T_Write \<Longrightarrow>
    fused_step ka blocks dim s (s\<lparr>tg_queue := token_act fused_payload ka (Write_Desc t) (tg_queue s), tg_at := (tg_at s)(t := T_Commit)\<rparr>)"
| commit_slot_of: "t < blocks * dim \<Longrightarrow> tg_at s t = T_Commit \<Longrightarrow>
    fused_step ka blocks dim s (s\<lparr>tg_queue := token_act fused_payload ka (Commit_Desc t) (tg_queue s),
      tg_at := (tg_at s)(t := if t = 0 then T_Wait else T_Barrier)\<rparr>)"
| completed: "tg_at s 0 = T_Wait \<Longrightarrow> wait_for_completion (ta_base ka + of_nat (ta_num ka)) (tg_queue s) \<Longrightarrow>
    fused_step ka blocks dim s (s\<lparr>tg_at := (tg_at s)(0 := T_Barrier), tg_seen := True\<rparr>)"
| barrier: "b < blocks \<Longrightarrow> \<forall>t\<in>{b * dim..<(b + 1) * dim}. tg_at s t = T_Barrier \<Longrightarrow>
    fused_step ka blocks dim s (s\<lparr>tg_at := (\<lambda>t. if b * dim \<le> t \<and> t < (b + 1) * dim then T_Use else tg_at s t)\<rparr>)"
| use_data: "t < blocks * dim \<Longrightarrow> tg_at s t = T_Use \<Longrightarrow>
    fused_step ka blocks dim s (s\<lparr>tg_at := (tg_at s)(t := T_Exit), tg_used := (if t < ta_num ka then tg_used s @ [t] else tg_used s)\<rparr>)"
| environment: "fused_step ka blocks dim s (s\<lparr>tg_queue := q\<rparr>)"

definition first_block_inv :: "nat \<Rightarrow> TokenGrid \<Rightarrow> bool" where
  "first_block_inv dim s \<longleftrightarrow> (\<forall>t<dim. tg_at s t = T_Use \<or> tg_at s t = T_Exit \<or> t = 0 \<and> tg_at s t = T_Barrier \<longrightarrow> tg_seen s)
     \<and> (\<forall>t\<in>set (tg_used s). t < dim \<longrightarrow> tg_seen s)"

lemma first_block_step:
  assumes "first_block_inv dim s" "fused_step ka blocks dim s s'"
  shows "first_block_inv dim s'"
  using assms(2,1)
proof cases
  case (barrier b)
  show ?thesis
  proof (cases "b = 0")
    case True
    have "tg_seen s" if "0 < dim" using barrier(3) assms(1) True that by (auto simp: first_block_inv_def)
    then show ?thesis using assms(1) by (cases dim) (auto simp: first_block_inv_def barrier(1))
  next
    case False
    then have "\<not> b * dim \<le> t" if "t < dim" for t using that mult_le_mono1 [of 1 b dim] by linarith
    then show ?thesis using assms(1) by (auto simp: first_block_inv_def barrier(1))
  qed
qed (auto simp: first_block_inv_def split: if_splits)

lemma first_block_starts: "\<exists>q. s = grid_start q \<Longrightarrow> first_block_inv dim s"
  by (auto simp: first_block_inv_def grid_start_def)

interpretation first_block: step_invariant "fused_step ka blocks dim" "\<lambda>s. \<exists>q. s = grid_start q" "first_block_inv dim" for ka blocks dim
  by unfold_locales (erule first_block_starts, erule first_block_step)

text \<open>The second block reaches its barrier and reads its data with nothing transferred.\<close>

lemma second_block_commits:
  assumes "2 \<le> blocks" "k \<le> dim" "0 < dim"
  shows "\<exists>q. (fused_step ka blocks dim)\<^sup>*\<^sup>* (grid_start q0) ((grid_start q0)\<lparr>tg_queue := q, tg_at := (\<lambda>t. if dim \<le> t \<and> t < dim + k then T_Barrier else T_Write)\<rparr>)
     \<and> done_idx q = done_idx q0"
  using assms(2)
proof (induction k)
  case 0
  have "(grid_start q0)\<lparr>tg_queue := q0, tg_at := (\<lambda>t. if dim \<le> t \<and> t < dim + 0 then T_Barrier else T_Write)\<rparr> = grid_start q0"
    by (simp add: grid_start_def fun_eq_iff)
  then show ?case by (intro exI [of _ q0]) simp
next
  case (Suc k)
  let ?at = "\<lambda>k t. if dim \<le> t \<and> t < dim + k then T_Barrier else T_Write"
  obtain q where q: "(fused_step ka blocks dim)\<^sup>*\<^sup>* (grid_start q0) ((grid_start q0)\<lparr>tg_queue := q, tg_at := ?at k\<rparr>)" "done_idx q = done_idx q0"
    using Suc by auto
  let ?s = "(grid_start q0)\<lparr>tg_queue := q, tg_at := ?at k\<rparr>"
  let ?s1 = "?s\<lparr>tg_queue := token_act fused_payload ka (Write_Desc (dim + k)) (tg_queue ?s), tg_at := (tg_at ?s)(dim + k := T_Commit)\<rparr>"
  let ?s2 = "?s1\<lparr>tg_queue := token_act fused_payload ka (Commit_Desc (dim + k)) (tg_queue ?s1),
      tg_at := (tg_at ?s1)(dim + k := if dim + k = 0 then T_Wait else T_Barrier)\<rparr>"
  have lt: "dim + k < blocks * dim"
  proof -
    have "2 * dim \<le> blocks * dim" using assms(1) by simp
    then show ?thesis using Suc.prems by linarith
  qed
  have "fused_step ka blocks dim ?s ?s1" by (rule write_slot_of [OF lt]) simp
  moreover have "fused_step ka blocks dim ?s1 ?s2" by (rule commit_slot_of [OF lt]) simp
  ultimately have "(fused_step ka blocks dim)\<^sup>*\<^sup>* (grid_start q0) ?s2" using q(1) by (meson rtranclp.rtrancl_into_rtrancl)
  moreover have "?s2 = (grid_start q0)\<lparr>tg_queue := tg_queue ?s2, tg_at := ?at (Suc k)\<rparr>"
    using assms(3) by (auto simp: fun_eq_iff)
  moreover have "done_idx (tg_queue ?s2) = done_idx q0" using q(2) by (simp del: token_act.simps)
  ultimately show ?case by (intro exI [of _ "tg_queue ?s2"] conjI) simp_all
qed

lemma second_block_reads_early:
  assumes "2 \<le> blocks" "0 < dim" "dim < ta_num ka"
  shows "\<exists>s. (fused_step ka blocks dim)\<^sup>*\<^sup>* (grid_start q0) s \<and> tg_used s = [dim] \<and> done_idx (tg_queue s) = done_idx q0 \<and> \<not> tg_seen s"
proof -
  let ?at = "\<lambda>t. if dim \<le> t \<and> t < dim + dim then T_Barrier else T_Write"
  obtain q where q: "(fused_step ka blocks dim)\<^sup>*\<^sup>* (grid_start q0) ((grid_start q0)\<lparr>tg_queue := q, tg_at := ?at\<rparr>)" "done_idx q = done_idx q0"
    using second_block_commits [OF assms(1) order.refl assms(2)] by blast
  let ?s = "(grid_start q0)\<lparr>tg_queue := q, tg_at := ?at\<rparr>"
  let ?s1 = "?s\<lparr>tg_at := (\<lambda>t. if 1 * dim \<le> t \<and> t < (1 + 1) * dim then T_Use else tg_at ?s t)\<rparr>"
  let ?s2 = "?s1\<lparr>tg_at := (tg_at ?s1)(dim := T_Exit), tg_used := (if dim < ta_num ka then tg_used ?s1 @ [dim] else tg_used ?s1)\<rparr>"
  have "fused_step ka blocks dim ?s ?s1" by (rule barrier) (use assms(1) in auto)
  moreover have "fused_step ka blocks dim ?s1 ?s2"
  proof (rule use_data)
    have "1 * dim < blocks * dim" using assms(1,2) by (intro mult_strict_right_mono) simp_all
    then show "dim < blocks * dim" by simp
  qed (use assms(2) in simp)
  ultimately have "(fused_step ka blocks dim)\<^sup>*\<^sup>* (grid_start q0) ?s2" using q(1) by (meson rtranclp.rtrancl_into_rtrancl)
  then show ?thesis using q(2) assms(3) by (intro exI [of _ ?s2]) (simp add: grid_start_def)
qed

end
