(* ===== verification/Token_Delivery.thy ===== *)
theory Token_Delivery
  imports Token_Kernels Poll_Safety
begin

text \<open>
  The whole path of a descriptor, from the kernels of \<open>Token_Kernels\<close> through the ring, one round of the polling loop and the copy
  engine to \<open>done_idx\<close>: the polling thread takes what the kernel published as one batch, submits it, waits, and announces it.
\<close>

section \<open>Taking a published block\<close>

text \<open>The entries that the poller would take one after the other until it finds a slot that is not ready.\<close>

fun ready_entries :: "Descriptor list \<Rightarrow> DescriptorQueue \<Rightarrow> bool" where
  "ready_entries [] q \<longleftrightarrow> poll_entry q = None"
| "ready_entries (d # ds) q \<longleftrightarrow> (case poll_entry q of Some (e, q') \<Rightarrow> e = d \<and> ready_entries ds q' | None \<Rightarrow> False)"

lemma ready_block:
  assumes "\<And>i. i < length ds \<Longrightarrow> entry_at (read_idx q + of_nat i) q = ds ! i \<and> sequence (ds ! i) = read_idx q + of_nat i + 1"
    and "length ds < QUEUE_SIZE" "sequence (entry_at (read_idx q + of_nat (length ds)) q) \<noteq> read_idx q + of_nat (length ds) + 1"
  shows "ready_entries ds q"
  using assms
proof (induction ds arbitrary: q)
  case Nil
  then show ?case by (simp add: poll_entry_def)
next
  case (Cons d ds)
  let ?q = "(set_entry (read_idx q) (\<lambda>desc. desc\<lparr>sequence := 0\<rparr>) q)\<lparr>read_idx := read_idx q + 1\<rparr>"
  have p: "poll_entry q = Some (d, ?q)" using Cons.prems(1) [of 0] by (simp add: poll_entry_def Let_def)
  have shift: "entry_at (read_idx ?q + of_nat i) ?q = entry_at (read_idx q + of_nat (Suc i)) q" if "i \<le> length ds" for i
  proof -
    have "slot_index (read_idx q + of_nat (Suc i)) \<noteq> slot_index (read_idx q + of_nat 0)"
      using slot_index_inj [of "read_idx q" "Suc i" 0] Cons.prems(2) that by auto
    then show ?thesis by (simp add: entry_at_def entries_set_entry add.assoc)
  qed
  have "ready_entries ds ?q"
  proof (rule Cons.IH)
    show "entry_at (read_idx ?q + of_nat i) ?q = ds ! i \<and> sequence (ds ! i) = read_idx ?q + of_nat i + 1" if "i < length ds" for i
      using Cons.prems(1) [of "Suc i"] shift [of i] that by (simp add: add.assoc)
    show "sequence (entry_at (read_idx ?q + of_nat (length ds)) ?q) \<noteq> read_idx ?q + of_nat (length ds) + 1"
      using Cons.prems(3) shift [of "length ds"] by (simp add: add.assoc)
  qed (use Cons.prems(2) in simp)
  with p show ?case by simp
qed

definition block_entries :: "u64 \<Rightarrow> nat \<Rightarrow> (nat \<Rightarrow> Descriptor \<Rightarrow> Descriptor) \<Rightarrow> DescriptorQueue \<Rightarrow> Descriptor list" where
  "block_entries b n f q = map (\<lambda>i. (f i (entry_at (b + of_nat i) q))\<lparr>sequence := b + of_nat i + 1\<rparr>) [0..<n]"

lemma published_ready:
  assumes "published_block (read_idx q) n f q q'" "n < QUEUE_SIZE"
    and "sequence (entry_at (read_idx q + of_nat n) q) \<noteq> read_idx q + of_nat n + 1"
  shows "ready_entries (block_entries (read_idx q) n f q) q'"
proof (rule ready_block)
  have r: "read_idx q' = read_idx q" using assms(1) by (simp add: published_block_def)
  show "entry_at (read_idx q' + of_nat i) q' = block_entries (read_idx q) n f q ! i
      \<and> sequence (block_entries (read_idx q) n f q ! i) = read_idx q' + of_nat i + 1" if "i < length (block_entries (read_idx q) n f q)" for i
    using assms(1) that r by (simp add: published_block_def block_entries_def)
  have "slot_index (read_idx q + of_nat n) \<noteq> slot_index (read_idx q + of_nat i)" if "i < n" for i
    using slot_index_inj [of "read_idx q" n i] assms(2) that by auto
  then have "entry_at (read_idx q + of_nat n) q' = entry_at (read_idx q + of_nat n) q" using assms(1) by (simp add: published_block_def entry_at_def)
  then show "sequence (entry_at (read_idx q' + of_nat (length (block_entries (read_idx q) n f q))) q')
      \<noteq> read_idx q' + of_nat (length (block_entries (read_idx q) n f q)) + 1" using assms(3) r by (simp add: block_entries_def)
qed (simp add: block_entries_def assms(2))

section \<open>One round of the loop\<close>

abbreviation silent :: "nat \<Rightarrow> DescriptorQueue \<Rightarrow> DescriptorQueue" where
  "silent \<equiv> \<lambda>_ q. q"

lemma has_flag_or: "has_flag (a OR b) m \<longleftrightarrow> has_flag a m \<or> has_flag b m"
proof -
  have "(a OR b) AND m = (a AND m) OR (b AND m)" by (auto simp: bit_eq_iff bit_simps)
  then show ?thesis by (simp add: has_flag_def or_eq_0_iff)
qed

text \<open>Outside the tile and list modes the loop takes up to a whole small threshold at once.\<close>

lemma take_all:
  assumes "ready_entries ds (p_queue (lp L))" "\<not> tiled_set (lp L)" "\<not> sg_set (lp L)"
    and "length (loop_batch L) + length ds \<le> BATCH_THRESHOLD_SMALL" "loop_batch L \<noteq> [] \<Longrightarrow> BATCH_THRESHOLD_SMALL \<le> loop_threshold L"
  shows "\<exists>q th. take_loop silent L = L\<lparr>lp := (lp L)\<lparr>p_queue := q\<rparr>, loop_batch := loop_batch L @ ds,
       loop_flags := fold (\<lambda>d f. f OR flags d) ds (loop_flags L), loop_threshold := th\<rparr>
     \<and> poll_entry q = None \<and> read_idx q = read_idx (p_queue (lp L)) + of_nat (length ds)"
  using assms
proof (induction ds arbitrary: L)
  case Nil
  then have "take_loop silent L = L" by (simp add: take_loop.simps [of silent L])
  then show ?case using Nil by (intro exI [of _ "p_queue (lp L)"] exI [of _ "loop_threshold L"]) simp
next
  case (Cons d ds)
  obtain q where p: "poll_entry (p_queue (lp L)) = Some (d, q)" and rest: "ready_entries ds q"
    using Cons.prems(1) by (auto split: option.splits)
  let ?M = "take_entry d q L"
  have th: "BATCH_THRESHOLD_SMALL \<le> loop_threshold ?M"
    using Cons.prems(5) by (auto simp: take_entry_def BATCH_THRESHOLD_SMALL_def BATCH_THRESHOLD_def MAX_BATCH_SIZE_def)
  have M: "p_queue (lp ?M) = q" "loop_batch ?M = loop_batch L @ [d]" "tiled_set (lp ?M) = tiled_set (lp L)" "sg_set (lp ?M) = sg_set (lp L)"
    "loop_flags ?M = loop_flags L OR flags d" "queue_env (silent (length (loop_batch ?M))) ?M = ?M"
    by (simp_all add: take_entry_def queue_env_def)
  have idx: "read_idx q = read_idx (p_queue (lp L)) + 1" using poll_entry_indices [OF p] by simp
  show ?case
  proof (cases "batch_full ?M")
    case True
    then have "BATCH_THRESHOLD_SMALL \<le> length (loop_batch L) + 1" using Cons.prems(2,3) th M
      by (auto simp: batch_full_def BATCH_THRESHOLD_SMALL_def MAX_BATCH_SIZE_def)
    then have "ds = []" using Cons.prems(4) by (cases ds) simp_all
    moreover have "take_loop silent L = ?M" using True by (simp add: take_loop.simps [of silent L] p Let_def)
    moreover have "?M = L\<lparr>lp := (lp L)\<lparr>p_queue := q\<rparr>, loop_batch := loop_batch L @ [d], loop_flags := loop_flags L OR flags d,
        loop_threshold := loop_threshold ?M\<rparr>" by (simp add: take_entry_def)
    ultimately show ?thesis using rest idx by (intro exI [of _ q] exI [of _ "loop_threshold ?M"]) simp
  next
    case False
    have "take_loop silent L = take_loop silent ?M" using False M(6) by (simp add: take_loop.simps [of silent L] p Let_def)
    moreover obtain q' th' where IH: "take_loop silent ?M = ?M\<lparr>lp := (lp ?M)\<lparr>p_queue := q'\<rparr>, loop_batch := loop_batch ?M @ ds,
        loop_flags := fold (\<lambda>d f. f OR flags d) ds (loop_flags ?M), loop_threshold := th'\<rparr>"
      "poll_entry q' = None" "read_idx q' = read_idx (p_queue (lp ?M)) + of_nat (length ds)"
      using Cons.IH [of ?M] rest th M Cons.prems(2-4) by auto
    moreover have "?M\<lparr>lp := (lp ?M)\<lparr>p_queue := q'\<rparr>, loop_batch := loop_batch ?M @ ds,
        loop_flags := fold (\<lambda>d f. f OR flags d) ds (loop_flags ?M), loop_threshold := th'\<rparr>
      = L\<lparr>lp := (lp L)\<lparr>p_queue := q'\<rparr>, loop_batch := loop_batch L @ d # ds,
        loop_flags := fold (\<lambda>d f. f OR flags d) (d # ds) (loop_flags L), loop_threshold := th'\<rparr>" by (simp add: take_entry_def)
    ultimately show ?thesis using M(1) idx by (intro exI [of _ q'] exI [of _ th']) (simp add: add.assoc)
  qed
qed

lemma fold_flags: "has_flag (fold (\<lambda>d f. f OR flags d) ds fl) m \<longleftrightarrow> has_flag fl m \<or> (\<exists>d\<in>set ds. has_flag (flags d) m)"
  by (induction ds arbitrary: fl) (auto simp: has_flag_or)

text \<open>Waiting issues no copies.\<close>

lemma wait_issues:
  assumes "all_succeed drv"
  shows "issues p (ce_do (wait_completion drv) p) []"
proof -
  have "copies (map (\<lambda>ch. EventSynchronize (ce_events ce ch)) chs) = []" for ce chs by (induction chs) simp_all
  then show ?thesis using assms
    by (auto simp: issues_def ce_do_def wait_completion_def sync_events_success ce_return_def pop_calls_def)
qed

lemma finish_issues:
  assumes "all_succeed drv"
  shows "issues p (finish_async drv p) []" "p_mem (finish_async drv p) = p_mem p"
proof -
  let ?p1 = "if 0 < staging_inflight_count p then (ce_do (wait_completion drv) p)\<lparr>staging_inflight_count := 0\<rparr> else p"
  have "issues p ?p1 []" using wait_issues [OF assms, of p] by (simp add: issues_def)
  from issues_trans [OF this wait_issues [OF assms, of ?p1]] show "issues p (finish_async drv p) []"
    by (simp add: finish_async_def set_done_def issues_def Let_def)
  show "p_mem (finish_async drv p) = p_mem p" by (simp add: finish_async_def set_done_def Let_def)
qed

section \<open>Delivery\<close>

text \<open>Two iterations of the loop on a published batch with a last-in-batch mark: submitted, waited for, announced.\<close>

lemma batch_delivered:
  assumes drv: "all_succeed drv" and ok: "loop_ok L" "loop_batch L = []" and mode: "\<not> tiled_set (lp L)" "\<not> sg_set (lp L)"
    and ds: "ready_entries ds (p_queue (lp L))" "ds \<noteq> []" "length ds \<le> BATCH_THRESHOLD_SMALL"
      "\<exists>d\<in>set ds. has_flag (flags d) FLAG_LAST_IN_BATCH" and bo: "batch_ok (lp L) (map sg_of ds)"
    and L': "L' = poll_iteration drv silent (poll_iteration drv silent L)"
  shows "done_idx (p_queue (lp L')) = read_idx (p_queue (lp L)) + of_nat (length ds)" "all_settled (lp L')"
    and "a \<notin> region (staging_bufs (lp L) (staging_cur (lp L))) (unat (staging_buffer_size (lp L))) \<Longrightarrow>
       after_dma (lp L) (lp L') a = dmas (map sg_of ds) (p_mem (lp L)) a"
proof -
  obtain q th where t: "take_loop silent L = L\<lparr>lp := (lp L)\<lparr>p_queue := q\<rparr>, loop_batch := loop_batch L @ ds,
      loop_flags := fold (\<lambda>d f. f OR flags d) ds (loop_flags L), loop_threshold := th\<rparr>"
    and q: "poll_entry q = None" "read_idx q = read_idx (p_queue (lp L)) + of_nat (length ds)"
    using take_all [OF ds(1) mode] ok(2) ds(3) by auto
  define L1 where "L1 = take_loop silent L"
  let ?p = "(lp L)\<lparr>p_queue := q\<rparr>" and ?r = "read_idx q"
  have L1: "lp L1 = ?p" "loop_batch L1 = ds" "loop_flags L1 = fold (\<lambda>d f. f OR flags d) ds (loop_flags L)"
    unfolding L1_def t using ok(2) by simp_all
  have flag: "has_flag (loop_flags L1) (FLAG_LAST_IN_BATCH OR FLAG_URGENT OR FLAG_LAST_IN_TILE)"
  proof -
    have "has_flag f (a OR b)" if "has_flag f a" for f a b
      using that has_flag_or [of a b f] by (simp add: has_flag_def and.commute)
    then show ?thesis using ds(4) by (auto simp: L1(3) fold_flags)
  qed
  have ne: "poll_entry (p_queue (lp L)) \<noteq> None" using ds(1,2) by (cases ds) (auto split: option.splits)
  have "poll_iteration drv silent L = flush drv L1" using flag ne by (simp add: poll_iteration_def Let_def L1_def)
  then have M: "poll_iteration drv silent L = L1\<lparr>lp := flush_batch drv ds (loop_flags L1) ?p, loop_batch := [], loop_flags := 0\<rparr>"
    using ds(2) by (simp add: flush_def L1)
  let ?q1 = "snd (process_batch drv ds ?p)"
  have pok: "poller_ok ?p" "ce_mode ?p" using ok(1) by (simp_all add: loop_ok_def)
  have u: "use_ce ?p" using pok(2) by (simp add: ce_mode_def)
  have pb: "process_batch drv ds ?p = (True, ?q1)" by (simp add: process_batch_def Let_def prod_eq_iff)
  have fb: "flush_batch drv ds (loop_flags L1) ?p = set_async ?r ?q1"
    using u mode ds(2) unfolding flush_batch_def by (subst pb) (simp add: Let_def)
  note fg = flush_batch_good [OF drv pok ds(2) fb [symmetric]]
  have pq: "p_queue (set_async ?r ?q1) = q" using fg(1) by (simp add: good_def same_setup_def)
  let ?M = "poll_iteration drv silent L"
  have m: "lp ?M = set_async ?r ?q1" "loop_batch ?M = []" by (simp_all add: M fb)
  have mok: "poller_ok (lp ?M)" "ce_mode (lp ?M)" using fg(1) pok(2) ce_mode_setup [of ?p "set_async ?r ?q1"] by (simp_all add: m(1) good_def)
  have "has_async_dma (lp ?M)" "tile_events_inflight (lp ?M) = 0" using fg(2) mok(2) by (simp_all add: m(1) ce_mode_def)
  then have L'': "L' = ?M\<lparr>lp := finish_async drv (lp ?M)\<rparr>"
    using q(1) unfolding L' by (subst poll_iteration_def) (simp add: m pq idle_work_def)
  note fa = finish_async_ok [OF drv mok refl]
  show "done_idx (p_queue (lp L')) = read_idx (p_queue (lp L)) + of_nat (length ds)" using fa(5) q(2) fg(3) by (simp add: L'' m(1))
  show "all_settled (lp L')" using fa(3) by (simp add: L'')
  assume a: "a \<notin> region (staging_bufs (lp L) (staging_cur (lp L))) (unat (staging_buffer_size (lp L)))"
  have "ce_wf (p_ce ?p)" "batch_ok ?p (map sg_of ds)" using pok(1) bo by (simp_all add: poller_ok_def batch_ok_def staging_apart_def)
  from process_batch_transfers(2) [OF drv this(1) ds(2) this(2)]
  obtain cs where cs: "issues ?p ?q1 cs" "after_dma ?p ?q1 a = dmas (map sg_of ds) (p_mem ?p) a" using a by (auto simp: transfers_def)
  have "issues (lp L) (lp L') cs"
    using cs(1) finish_issues(1) [OF drv, of "lp ?M"] unfolding L'' m(1) by (auto simp: issues_def set_async_def)
  moreover have "p_mem (lp L') = p_mem ?q1" by (simp add: L'' finish_issues(2) [OF drv] m(1) set_async_def)
  ultimately show "after_dma (lp L) (lp L') a = dmas (map sg_of ds) (p_mem (lp L)) a"
    using cs issues_after [of ?p ?q1 cs] issues_after [of "lp L" "lp L'" cs] by simp
qed

definition token_entries :: "TransferArgs \<Rightarrow> SGEntry list" where
  "token_entries ka = map (\<lambda>t. \<lparr>sg_dst = ta_buffer ka + of_nat t * ucast (ta_size ka), sg_src = cpu_addr (ta_tokens ka t),
     sg_size = ucast (ta_size ka)\<rparr>) [0..<ta_num ka]"

lemma tokens_delivered_lemma:
  assumes drv: "all_succeed drv" and ok: "loop_ok L" "loop_batch L = []" and mode: "\<not> tiled_set (lp L)" "\<not> sg_set (lp L)"
    and ka: "ta_base ka = read_idx (p_queue (lp L))" "0 < ta_num ka" "ta_num ka \<le> BATCH_THRESHOLD_SMALL"
    and idle: "sequence (entry_at (ta_base ka + of_nat (ta_num ka)) (p_queue (lp L))) \<noteq> ta_base ka + of_nat (ta_num ka) + 1"
    and acts: "interleaved n acts" "ta_num ka \<le> n" and bo: "batch_ok (lp L) (token_entries ka)"
    and L': "L' = poll_iteration drv silent (poll_iteration drv silent (queue_env (fold (token_act payload ka) acts) L))"
  shows "wait_for_completion (ta_base ka + of_nat (ta_num ka)) (p_queue (lp L')) \<and> all_settled (lp L')"
    and "a \<notin> region (staging_bufs (lp L) (staging_cur (lp L))) (unat (staging_buffer_size (lp L))) \<Longrightarrow>
       after_dma (lp L) (lp L') a = dmas (token_entries ka) (p_mem (lp L)) a"
proof -
  let ?q = "p_queue (lp L)" let ?M = "queue_env (fold (token_act payload ka) acts) L"
  let ?ds = "block_entries (ta_base ka) (ta_num ka) (token_descriptor payload ka) ?q"
  have small: "ta_num ka < QUEUE_SIZE" using ka(3) by (simp add: BATCH_THRESHOLD_SMALL_def QUEUE_SIZE_def)
  have pub: "published_block (ta_base ka) (ta_num ka) (token_descriptor payload ka) ?q (p_queue (lp ?M))"
    using interleaving_published [OF acts] small by (simp add: queue_env_def)
  have ready: "ready_entries ?ds (p_queue (lp ?M))" using published_ready [of ?q] pub small idle by (simp add: ka(1))
  have sg: "map sg_of ?ds = token_entries ka" by (simp add: block_entries_def token_entries_def token_descriptor_def sg_of_def)
  have len: "length ?ds = ta_num ka" by (simp add: block_entries_def)
  have flag: "\<exists>d\<in>set ?ds. has_flag (flags d) FLAG_LAST_IN_BATCH"
  proof
    show "?ds ! (ta_num ka - 1) \<in> set ?ds" using ka(2) len by (intro nth_mem) simp
    show "has_flag (flags (?ds ! (ta_num ka - 1))) FLAG_LAST_IN_BATCH"
      using ka(2) by (simp add: block_entries_def token_descriptor_def has_flag_def FLAG_LAST_IN_BATCH_def)
  qed
  have M: "loop_ok ?M" "loop_batch ?M = []" "\<not> tiled_set (lp ?M)" "\<not> sg_set (lp ?M)"
    "read_idx (p_queue (lp ?M)) = ta_base ka"
    using ok mode ka(1) by (simp_all add: queue_env_def loop_ok_def token_acts_indices)
  have bo': "batch_ok (lp ?M) (map sg_of ?ds)" unfolding sg using bo by (simp add: queue_env_def batch_ok_def staging_apart_def)
  have ne: "?ds \<noteq> []" using ka(2) len by auto
  note d = batch_delivered [OF drv M(1-4) ready ne _ flag bo' L']
  show "wait_for_completion (ta_base ka + of_nat (ta_num ka)) (p_queue (lp L')) \<and> all_settled (lp L')"
    using d(1,2) len ka(3) M(5) by (simp add: wait_for_completion_def)
  show "a \<notin> region (staging_bufs (lp L) (staging_cur (lp L))) (unat (staging_buffer_size (lp L))) \<Longrightarrow>
       after_dma (lp L) (lp L') a = dmas (token_entries ka) (p_mem (lp L)) a"
    using d(3) len ka(3) by (simp add: sg queue_env_def after_dma_def)
qed

end
