(* ===== verification/Planned_Transfer.thy ===== *)
theory Planned_Transfer
  imports Direct_Submit Transition_Systems
begin

text \<open>
  The transfer that the GPU plans (\<open>examples/03_gpu_planned_transfer.cu\<close>) and its simpler relative (\<open>examples/02_direct_transfer.cu\<close>):
  one kernel compacts the tokens of an expert with an atomic counter, one turns them into scatter-gather entries, the CPU hands
  these to \<open>submit_direct\<close>, and a third kernel checks every byte that has arrived.
\<close>

section \<open>Compaction\<close>

datatype plan_pc = Plan_Start | Plan_Slot nat | Plan_Done

text \<open>\<open>plan_claimed\<close> is history: the threads in the order of their \<open>atomicAdd\<close>.\<close>

record PlanState =
  plan_counter :: nat
  plan_ids :: "nat \<Rightarrow> nat"
  plan_at :: "nat \<Rightarrow> plan_pc"
  plan_claimed :: "nat list"

definition plan_start :: "(nat \<Rightarrow> nat) \<Rightarrow> PlanState" where
  "plan_start ids = \<lparr>plan_counter = 0, plan_ids = ids, plan_at = (\<lambda>_. Plan_Start), plan_claimed = []\<rparr>"

definition plan_compact :: "(nat \<Rightarrow> int) \<Rightarrow> nat \<Rightarrow> int \<Rightarrow> nat \<Rightarrow> PlanState \<Rightarrow> PlanState option" where
  "plan_compact routing_table num_tokens target_expert tid s =
     (case plan_at s tid of
        Plan_Start \<Rightarrow>
          if num_tokens \<le> tid \<or> routing_table tid \<noteq> target_expert then Some (s\<lparr>plan_at := (plan_at s)(tid := Plan_Done)\<rparr>)
          else Some (s\<lparr>plan_counter := plan_counter s + 1, plan_claimed := plan_claimed s @ [tid],
            plan_at := (plan_at s)(tid := Plan_Slot (plan_counter s))\<rparr>)
      | Plan_Slot slot \<Rightarrow> Some (s\<lparr>plan_ids := (plan_ids s)(slot := tid), plan_at := (plan_at s)(tid := Plan_Done)\<rparr>)
      | Plan_Done \<Rightarrow> None)"

definition plan_step :: "(nat \<Rightarrow> int) \<Rightarrow> nat \<Rightarrow> int \<Rightarrow> nat \<Rightarrow> PlanState \<Rightarrow> PlanState \<Rightarrow> bool" where
  "plan_step rt n ex threads s s' \<longleftrightarrow> (\<exists>t<threads. plan_compact rt n ex t s = Some s')"

definition plan_final :: "nat \<Rightarrow> PlanState \<Rightarrow> bool" where
  "plan_final threads s \<longleftrightarrow> (\<forall>t<threads. plan_at s t = Plan_Done)"

text \<open>Slot \<open>k\<close> belongs to the \<open>k\<close>-th thread that claimed one.\<close>

definition plan_inv :: "(nat \<Rightarrow> int) \<Rightarrow> nat \<Rightarrow> int \<Rightarrow> nat \<Rightarrow> PlanState \<Rightarrow> bool" where
  "plan_inv rt n ex threads s \<longleftrightarrow> plan_counter s = length (plan_claimed s) \<and> distinct (plan_claimed s)
     \<and> set (plan_claimed s) = {t. t < threads \<and> t < n \<and> rt t = ex \<and> plan_at s t \<noteq> Plan_Start}
     \<and> (\<forall>k<length (plan_claimed s). plan_at s (plan_claimed s ! k) = Plan_Slot k
          \<or> plan_at s (plan_claimed s ! k) = Plan_Done \<and> plan_ids s k = plan_claimed s ! k)
     \<and> (\<forall>t k. plan_at s t = Plan_Slot k \<longrightarrow> t < threads \<and> k < length (plan_claimed s) \<and> plan_claimed s ! k = t)"

lemma plan_claim_inv:
  assumes "plan_inv rt n ex threads s" "t < threads" "plan_at s t = Plan_Start" "t < n" "rt t = ex"
  shows "plan_inv rt n ex threads (s\<lparr>plan_counter := plan_counter s + 1, plan_claimed := plan_claimed s @ [t],
    plan_at := (plan_at s)(t := Plan_Slot (plan_counter s))\<rparr>)" (is "plan_inv _ _ _ _ ?s")
proof -
  have new: "t \<notin> set (plan_claimed s)" and c: "plan_counter s = length (plan_claimed s)"
    using assms(1,3) by (auto simp: plan_inv_def)
  have slot: "u < threads \<and> k < length (plan_claimed s) \<and> plan_claimed s ! k = u" if "plan_at s u = Plan_Slot k" for u k
    using assms(1) that unfolding plan_inv_def by blast
  have old: "plan_claimed s ! k \<noteq> t" if "k < length (plan_claimed s)" for k using new nth_mem [OF that] by metis
  have "plan_at ?s (plan_claimed ?s ! k) = Plan_Slot k \<or> plan_at ?s (plan_claimed ?s ! k) = Plan_Done \<and> plan_ids ?s k = plan_claimed ?s ! k"
    if "k < length (plan_claimed ?s)" for k
    using that assms(1) old by (cases "k = length (plan_claimed s)") (auto simp: plan_inv_def nth_append c)
  moreover have "u < threads \<and> k < length (plan_claimed ?s) \<and> plan_claimed ?s ! k = u" if "plan_at ?s u = Plan_Slot k" for u k
    using that slot [of u k] assms(2) c by (cases "u = t") (auto simp: nth_append)
  moreover have "set (plan_claimed ?s) = {u. u < threads \<and> u < n \<and> rt u = ex \<and> plan_at ?s u \<noteq> Plan_Start}"
    using assms by (auto simp: plan_inv_def)
  ultimately show ?thesis using assms(1) new c by (simp add: plan_inv_def)
qed

lemma plan_store_inv:
  assumes "plan_inv rt n ex threads s" "plan_at s t = Plan_Slot k"
  shows "plan_inv rt n ex threads (s\<lparr>plan_ids := (plan_ids s)(k := t), plan_at := (plan_at s)(t := Plan_Done)\<rparr>)" (is "plan_inv _ _ _ _ ?s")
proof -
  have k: "k < length (plan_claimed s)" "plan_claimed s ! k = t" and d: "distinct (plan_claimed s)" using assms by (auto simp: plan_inv_def)
  have other: "plan_claimed s ! j \<noteq> t" if "j < length (plan_claimed s)" "j \<noteq> k" for j
    using d k that nth_eq_iff_index_eq by metis
  have "plan_at ?s (plan_claimed ?s ! j) = Plan_Slot j \<or> plan_at ?s (plan_claimed ?s ! j) = Plan_Done \<and> plan_ids ?s j = plan_claimed ?s ! j"
    if "j < length (plan_claimed ?s)" for j
    using that assms(1) k other by (cases "j = k") (auto simp: plan_inv_def)
  moreover have "u < threads \<and> j < length (plan_claimed ?s) \<and> plan_claimed ?s ! j = u" if "plan_at ?s u = Plan_Slot j" for u j
    using that assms(1) by (cases "u = t") (auto simp: plan_inv_def)
  moreover have "set (plan_claimed ?s) = {u. u < threads \<and> u < n \<and> rt u = ex \<and> plan_at ?s u \<noteq> Plan_Start}"
    using assms by (auto simp: plan_inv_def)
  ultimately show ?thesis using assms(1) by (simp add: plan_inv_def)
qed

lemma plan_skip_inv:
  assumes "plan_inv rt n ex threads s" "plan_at s t = Plan_Start" "n \<le> t \<or> rt t \<noteq> ex"
  shows "plan_inv rt n ex threads (s\<lparr>plan_at := (plan_at s)(t := Plan_Done)\<rparr>)"
proof -
  have "t \<notin> set (plan_claimed s)" using assms by (auto simp: plan_inv_def)
  then have "plan_claimed s ! k \<noteq> t" if "k < length (plan_claimed s)" for k using nth_mem [OF that] by metis
  then show ?thesis using assms by (auto simp: plan_inv_def)
qed

lemma plan_step_inv:
  assumes "plan_inv rt n ex threads s" "plan_step rt n ex threads s s'"
  shows "plan_inv rt n ex threads s'"
proof -
  obtain t where t: "t < threads" "plan_compact rt n ex t s = Some s'" using assms(2) by (auto simp: plan_step_def)
  show ?thesis
  proof (cases "plan_at s t")
    case Plan_Start
    show ?thesis
    proof (cases "n \<le> t \<or> rt t \<noteq> ex")
      case True
      then show ?thesis using plan_skip_inv [OF assms(1) Plan_Start] t(2) Plan_Start by (auto simp: plan_compact_def)
    next
      case False
      then show ?thesis using plan_claim_inv [OF assms(1) t(1) Plan_Start] t(2) Plan_Start by (simp add: plan_compact_def)
    qed
  next
    case (Plan_Slot k)
    then show ?thesis using plan_store_inv [OF assms(1) Plan_Slot] t(2) by (simp add: plan_compact_def)
  next
    case Plan_Done
    then show ?thesis using t(2) by (simp add: plan_compact_def)
  qed
qed

fun plan_left :: "plan_pc \<Rightarrow> nat" where
  "plan_left Plan_Start = 2"
| "plan_left (Plan_Slot k) = 1"
| "plan_left Plan_Done = 0"

lemma plan_compact_rank:
  assumes "plan_compact rt n ex t s = Some s'" "t < threads"
  shows "(\<Sum>u<threads. plan_left (plan_at s' u)) < (\<Sum>u<threads. plan_left (plan_at s u))"
proof (rule sum_strict_mono_ex1)
  have at: "plan_at s' u = plan_at s u" if "u \<noteq> t" for u
    using assms(1) that by (auto simp: plan_compact_def split: plan_pc.splits if_splits)
  have less: "plan_left (plan_at s' t) < plan_left (plan_at s t)"
    using assms(1) by (auto simp: plan_compact_def split: plan_pc.splits if_splits)
  show "\<forall>u\<in>{..<threads}. plan_left (plan_at s' u) \<le> plan_left (plan_at s u)" using at less by (metis nat_less_le order.refl)
  show "\<exists>u\<in>{..<threads}. plan_left (plan_at s' u) < plan_left (plan_at s u)" using less assms(2) by blast
qed simp

interpretation planning: terminating_steps "plan_step rt n ex threads" "\<lambda>s. \<exists>ids. s = plan_start ids" "plan_inv rt n ex threads"
  "\<lambda>s. \<Sum>t<threads. plan_left (plan_at s t)" "plan_final threads" for rt n ex threads
proof unfold_locales
  show "plan_inv rt n ex threads s" if "\<exists>ids. s = plan_start ids" for s using that by (auto simp: plan_inv_def plan_start_def)
  show "(\<Sum>t<threads. plan_left (plan_at s' t)) < (\<Sum>t<threads. plan_left (plan_at s t))" if "plan_step rt n ex threads s s'" for s s'
    using that plan_compact_rank by (auto simp: plan_step_def)
  show "\<exists>s'. plan_step rt n ex threads s s'" if unfinished: "\<not> plan_final threads s" for s
  proof -
    obtain t where "t < threads" "plan_at s t \<noteq> Plan_Done" using unfinished by (auto simp: plan_final_def)
    then have "plan_compact rt n ex t s \<noteq> None" by (auto simp: plan_compact_def split: plan_pc.split)
    then show ?thesis using \<open>t < threads\<close> unfolding plan_step_def by blast
  qed
qed (rule plan_step_inv)

definition planned_ids :: "PlanState \<Rightarrow> nat list" where
  "planned_ids s = map (plan_ids s) [0..<plan_counter s]"

text \<open>When all threads are done, the array holds each token of the expert once.\<close>

lemma plan_result:
  assumes "plan_inv rt n ex threads s" "plan_final threads s" "n \<le> threads"
  shows "distinct (planned_ids s)" "set (planned_ids s) = {t. t < n \<and> rt t = ex}"
proof -
  have fin: "plan_at s t = Plan_Done" if "t \<in> set (plan_claimed s)" for t using that assms(1,2) by (auto simp: plan_inv_def plan_final_def)
  have c: "plan_counter s = length (plan_claimed s)" using assms(1) by (simp add: plan_inv_def)
  have "plan_ids s k = plan_claimed s ! k" if "k < length (plan_claimed s)" for k
  proof -
    have "plan_at s (plan_claimed s ! k) = Plan_Slot k \<or> plan_ids s k = plan_claimed s ! k" using assms(1) that unfolding plan_inv_def by blast
    then show ?thesis using fin [OF nth_mem [OF that]] by simp
  qed
  then have eq: "planned_ids s = plan_claimed s" by (intro nth_equalityI) (simp_all add: planned_ids_def c)
  have members: "set (plan_claimed s) = {t. t < threads \<and> t < n \<and> rt t = ex \<and> plan_at s t \<noteq> Plan_Start}"
    and "distinct (plan_claimed s)" using assms(1) by (simp_all add: plan_inv_def)
  then show "distinct (planned_ids s)" by (simp add: eq)
  have "t < n \<Longrightarrow> t < threads \<and> plan_at s t \<noteq> Plan_Start" for t using assms(2,3) by (simp add: plan_final_def)
  then show "set (planned_ids s) = {t. t < n \<and> rt t = ex}" unfolding eq members by blast
qed

section \<open>Entries\<close>

definition plan_build_sg :: "(nat \<Rightarrow> nat) \<Rightarrow> nat \<Rightarrow> u64 \<Rightarrow> u64 \<Rightarrow> int \<Rightarrow> int \<Rightarrow> nat \<Rightarrow> (nat \<Rightarrow> SGEntry) \<Rightarrow> (nat \<Rightarrow> SGEntry)" where
  "plan_build_sg token_ids num_entries gpu_buf cpu_buf tsize scatter_stride tid out =
     (if num_entries \<le> tid then out
      else let tok_id = token_ids tid
           in out(tid := \<lparr>sg_dst = gpu_buf + of_nat tid * of_int tsize,
                sg_src = cpu_buf + of_nat tok_id * of_int tsize * of_int scatter_stride, sg_size = of_int tsize\<rparr>))"

definition build_sg :: "(nat \<Rightarrow> nat) \<Rightarrow> nat \<Rightarrow> u64 \<Rightarrow> u64 \<Rightarrow> int \<Rightarrow> int \<Rightarrow> nat list \<Rightarrow> (nat \<Rightarrow> SGEntry) \<Rightarrow> SGEntry list" where
  "build_sg ids n gpu cpu tsize stride order out = map (fold (plan_build_sg ids n gpu cpu tsize stride) order out) [0..<n]"

lemma build_sg_order:
  assumes "set order = {..<threads}" "n \<le> threads"
  shows "build_sg ids n gpu cpu tsize stride order out
    = map (\<lambda>i. \<lparr>sg_dst = gpu + of_nat i * of_int tsize, sg_src = cpu + of_nat (ids i) * of_int tsize * of_int stride, sg_size = of_int tsize\<rparr>) [0..<n]"
proof -
  have at: "fold (plan_build_sg ids n gpu cpu tsize stride) xs es i = (if i \<in> set xs \<and> i < n
      then \<lparr>sg_dst = gpu + of_nat i * of_int tsize, sg_src = cpu + of_nat (ids i) * of_int tsize * of_int stride, sg_size = of_int tsize\<rparr> else es i)"
    for xs es i by (induction xs arbitrary: es) (auto simp: plan_build_sg_def Let_def)
  show ?thesis using assms by (auto simp: build_sg_def at)
qed

section \<open>Source data and verification\<close>

definition memset_bytes :: "u64 \<Rightarrow> u8 \<Rightarrow> nat \<Rightarrow> mem \<Rightarrow> mem" where
  "memset_bytes d v n m = (\<lambda>a. if unat (a - d) < n then v else m a)"

definition fill_tokens :: "u64 \<Rightarrow> int \<Rightarrow> int \<Rightarrow> nat \<Rightarrow> mem \<Rightarrow> mem" where
  "fill_tokens cpu_buf tsize scatter_stride num =
     fold (\<lambda>i. memset_bytes (cpu_buf + of_nat i * of_int tsize * of_int scatter_stride) (ucast ((of_nat i :: u32) AND 0xFF)) (nat tsize))
       [0..<num]"

definition verify_token :: "mem \<Rightarrow> u64 \<Rightarrow> (nat \<Rightarrow> nat) \<Rightarrow> nat \<Rightarrow> u32 \<Rightarrow> nat \<Rightarrow> int \<Rightarrow> int" where
  "verify_token m gpu_buf token_ids num_entries tsize tid result =
     (if num_entries \<le> tid then result
      else let token = gpu_buf + of_nat tid * ucast tsize; expected = (ucast ((of_nat (token_ids tid) :: u32) AND 0xFF) :: u8)
           in if list_ex (\<lambda>j. m (token + of_nat j) \<noteq> expected) [0..<unat tsize] then 1 else result)"

definition verify_kernel :: "mem \<Rightarrow> u64 \<Rightarrow> (nat \<Rightarrow> nat) \<Rightarrow> nat \<Rightarrow> u32 \<Rightarrow> nat list \<Rightarrow> int" where
  "verify_kernel m gpu ids n tsize order = fold (verify_token m gpu ids n tsize) order 0"

lemma verify_kernel_iff:
  assumes "set order = {..<threads}" "n \<le> threads"
  shows "verify_kernel m gpu ids n tsize order = 0 \<longleftrightarrow>
    (\<forall>i<n. \<forall>j<unat tsize. m (gpu + of_nat i * ucast tsize + of_nat j) = ucast ((of_nat (ids i) :: u32) AND 0xFF))"
proof -
  have "fold (verify_token m gpu ids n tsize) xs r = 0 \<longleftrightarrow> r = 0 \<and>
      (\<forall>i\<in>set xs. i < n \<longrightarrow> (\<forall>j<unat tsize. m (gpu + of_nat i * ucast tsize + of_nat j) = ucast ((of_nat (ids i) :: u32) AND 0xFF)))"
    if "r = 0 \<or> r = 1" for xs r
    using that
  proof (induction xs arbitrary: r)
    case (Cons i xs)
    have "verify_token m gpu ids n tsize i r = 0 \<or> verify_token m gpu ids n tsize i r = 1"
      using Cons.prems by (auto simp: verify_token_def Let_def)
    then have "fold (verify_token m gpu ids n tsize) (i # xs) r = 0 \<longleftrightarrow> verify_token m gpu ids n tsize i r = 0 \<and>
      (\<forall>i\<in>set xs. i < n \<longrightarrow> (\<forall>j<unat tsize. m (gpu + of_nat i * ucast tsize + of_nat j) = ucast ((of_nat (ids i) :: u32) AND 0xFF)))"
      by (simp add: Cons.IH)
    moreover have "verify_token m gpu ids n tsize i r = 0 \<longleftrightarrow> r = 0 \<and>
        (i < n \<longrightarrow> (\<forall>j<unat tsize. m (gpu + of_nat i * ucast tsize + of_nat j) = ucast ((of_nat (ids i) :: u32) AND 0xFF)))"
      using Cons.prems by (auto simp: verify_token_def Let_def list_ex_iff)
    ultimately show ?case by auto
  qed simp
  from this [of 0 order] assms show ?thesis by (auto simp: verify_kernel_def)
qed

section \<open>The whole transfer\<close>

text \<open>
  Where \<open>main\<close> puts its buffers: \<open>n\<close> tokens of \<open>T\<close> bytes at \<open>gpu\<close>, \<open>num\<close> of them every \<open>T * stride\<close> bytes at \<open>cpu\<close>, both
  apart from each other and from the staging buffers of the polling thread.
\<close>

definition plan_layout :: "u64 \<Rightarrow> u64 \<Rightarrow> nat \<Rightarrow> nat \<Rightarrow> nat \<Rightarrow> nat \<Rightarrow> PollerObject \<Rightarrow> bool" where
  "plan_layout gpu cpu T stride n num obj \<longleftrightarrow> T < 2 ^ 31 \<and> 0 < stride \<and> unat gpu + n * T < 2 ^ 64 \<and> unat cpu + num * (T * stride) < 2 ^ 64
     \<and> (unat gpu + n * T \<le> unat cpu \<or> unat cpu + num * (T * stride) \<le> unat gpu)
     \<and> (let buffer = \<lambda>b. region (staging_bufs (po obj) b) (unat (staging_buffer_size (po obj))) in
        (\<forall>b<num_staging_bufs (po obj). disjnt (region cpu (num * (T * stride))) (buffer b) \<and> disjnt (region gpu (n * T)) (buffer b))
        \<and> (\<forall>c<num_staging_bufs (po obj). \<forall>b<c. disjnt (buffer b) (buffer c)))"

definition plan_entry :: "(nat \<Rightarrow> nat) \<Rightarrow> u64 \<Rightarrow> u64 \<Rightarrow> nat \<Rightarrow> nat \<Rightarrow> nat \<Rightarrow> SGEntry" where
  "plan_entry ids gpu cpu T stride i = \<lparr>sg_dst = gpu + of_nat (i * T), sg_src = cpu + of_nat (ids i * (T * stride)), sg_size = of_nat T\<rparr>"

lemma build_sg_entries:
  "set order = {..<threads} \<Longrightarrow> n \<le> threads \<Longrightarrow>
   build_sg ids n gpu cpu (int T) (int stride) order out = map (plan_entry ids gpu cpu T stride) [0..<n]"
  by (simp add: build_sg_order plan_entry_def mult.assoc)

lemma offset_unat: "unat a + k < 2 ^ 64 \<Longrightarrow> unat (a + of_nat k) = unat a + k" for a :: u64
  by (subst unat_add_u64) (simp_all add: unat_of_nat_u64)

lemma slot_end: "(i :: nat) < n \<Longrightarrow> i * T + T \<le> n * T"
  using mult_le_mono1 [of "Suc i" n T] by simp

lemma strided_end: "i < num \<Longrightarrow> 0 < stride \<Longrightarrow> i * (T * stride) + T \<le> num * (T * stride)" for i num :: nat
  using slot_end [of i num "T * stride"] by (cases stride) auto

lemma strided_apart: "i < j \<Longrightarrow> 0 < stride \<Longrightarrow> i * (T * stride) + T \<le> j * (T * stride)" for i j :: nat
  using strided_end [of i j] by simp

lemma plan_entry_regions:
  assumes "plan_layout gpu cpu T stride n num obj" "i < n" "ids i < num"
  shows "dst_region (plan_entry ids gpu cpu T stride i) = region (gpu + of_nat (i * T)) T"
    and "src_region (plan_entry ids gpu cpu T stride i) = region (cpu + of_nat (ids i * (T * stride))) T"
    and "unat (gpu + of_nat (i * T)) = unat gpu + i * T" "unat (cpu + of_nat (ids i * (T * stride))) = unat cpu + ids i * (T * stride)"
    and "dst_region (plan_entry ids gpu cpu T stride i) \<subseteq> region gpu (n * T)"
    and "src_region (plan_entry ids gpu cpu T stride i) \<subseteq> region cpu (num * (T * stride))"
proof -
  have b: "T < 2 ^ 31" "0 < stride" "unat gpu + n * T < 2 ^ 64" "unat cpu + num * (T * stride) < 2 ^ 64"
    using assms(1) by (simp_all add: plan_layout_def)
  have T: "unat (of_nat T :: u64) = T" using b(1) by (intro unat_of_nat_u64) simp
  note e1 = slot_end [OF assms(2), of T] and e2 = strided_end [OF assms(3) b(2), of T]
  show d: "dst_region (plan_entry ids gpu cpu T stride i) = region (gpu + of_nat (i * T)) T"
    and s: "src_region (plan_entry ids gpu cpu T stride i) = region (cpu + of_nat (ids i * (T * stride))) T"
    by (simp_all add: plan_entry_def T del: of_nat_mult)
  show u: "unat (gpu + of_nat (i * T)) = unat gpu + i * T" "unat (cpu + of_nat (ids i * (T * stride))) = unat cpu + ids i * (T * stride)"
    using e1 e2 b by (intro offset_unat; linarith)+
  show "dst_region (plan_entry ids gpu cpu T stride i) \<subseteq> region gpu (n * T)" unfolding d using e1 b by (intro region_within) (simp_all only: u)
  show "src_region (plan_entry ids gpu cpu T stride i) \<subseteq> region cpu (num * (T * stride))" unfolding s using e2 b by (intro region_within) (simp_all only: u)
qed

lemma plan_direct_ok:
  assumes lay: "plan_layout gpu cpu T stride n num obj" and ids: "\<And>i. i < n \<Longrightarrow> ids i < num"
  shows "direct_ok obj (map (plan_entry ids gpu cpu T stride) [0..<n])"
proof -
  let ?e = "plan_entry ids gpu cpu T stride"
  note r = plan_entry_regions [OF lay, of _ ids]
  have b: "unat gpu + n * T < 2 ^ 64" "unat cpu + num * (T * stride) < 2 ^ 64"
    and ap: "unat gpu + n * T \<le> unat cpu \<or> unat cpu + num * (T * stride) \<le> unat gpu" using lay by (simp_all add: plan_layout_def)
  have dd: "disjnt (dst_region (?e i)) (dst_region (?e j))" if ij: "i < j" "j < n" for i j
  proof -
    have i: "i < n" using ij by simp
    have "unat (gpu + of_nat (i * T)) + T \<le> unat (gpu + of_nat (j * T))" "unat (gpu + of_nat (j * T)) + T \<le> 2 ^ 64"
      using slot_end [of i j T] slot_end [of j n T] ij b(1) unfolding r(3) [OF i ids [OF i]] r(3) [OF ij(2) ids [OF ij(2)]] by linarith+
    then show ?thesis unfolding r(1) [OF i ids [OF i]] r(1) [OF ij(2) ids [OF ij(2)]] by (rule region_apart)
  qed
  have "disjnt (region gpu (n * T)) (region cpu (num * (T * stride)))" using ap b by (intro region_apart_either) auto
  then have sd: "disjnt (src_region (?e i)) (dst_region (?e j))" if "i < n" "j < n" for i j
    using r(5) [OF that(2) ids [OF that(2)]] r(6) [OF that(1) ids [OF that(1)]] unfolding disjnt_iff by blast
  have "bytes (map ?e [0..<k]) = k * T" for k
    using lay by (induction k) (simp_all add: plan_entry_def plan_layout_def unat_of_nat_u64)
  moreover have "dst_disjoint (map ?e [0..<n])" using dd by (auto simp: dst_disjoint_def sorted_wrt_iff_nth_less)
  moreover have "src_dst_disjoint (map ?e [0..<n])" using sd by (auto simp: src_dst_disjoint_def)
  moreover have "disjnt (src_region (?e i)) B \<and> disjnt (dst_region (?e i)) B"
    if "i < n" "disjnt (region cpu (num * (T * stride))) B \<and> disjnt (region gpu (n * T)) B" for i B
    using that r(5,6) [OF that(1) ids [OF that(1)]] unfolding disjnt_iff by blast
  ultimately show ?thesis using lay b(1) by (auto simp: direct_ok_def separate_def plan_layout_def Let_def)
qed

text \<open>The fill loop leaves each token's pattern at its place.\<close>

lemma filled:
  assumes "T < 2 ^ 31" "0 < stride" "unat cpu + num * (T * stride) < 2 ^ 64" "i < num" "a \<in> region (cpu + of_nat (i * (T * stride))) T"
  shows "fill_tokens cpu (int T) (int stride) num m a = ucast ((of_nat i :: u32) AND 0xFF)"
  using assms(3-5)
proof (induction num)
  case (Suc k)
  let ?set = "memset_bytes (cpu + of_nat (k * (T * stride))) (ucast ((of_nat k :: u32) AND 0xFF)) T"
  have fill: "fill_tokens cpu (int T) (int stride) (Suc k) m = ?set (fill_tokens cpu (int T) (int stride) k m)"
    by (simp add: fill_tokens_def mult.assoc)
  show ?case
  proof (cases "i = k")
    case True
    then show ?thesis using Suc.prems(3) by (simp add: fill memset_bytes_def in_region)
  next
    case False
    then have i: "i < k" using Suc.prems(2) by simp
    have e: "i * (T * stride) + T \<le> k * (T * stride)" "k * (T * stride) + T \<le> Suc k * (T * stride)"
      using strided_apart [OF i assms(2)] strided_end [of k "Suc k" stride T] assms(2) by simp_all
    have u: "unat (cpu + of_nat (i * (T * stride))) = unat cpu + i * (T * stride)" "unat (cpu + of_nat (k * (T * stride))) = unat cpu + k * (T * stride)"
      using e Suc.prems(1) by (intro offset_unat; linarith)+
    have "disjnt (region (cpu + of_nat (i * (T * stride))) T) (region (cpu + of_nat (k * (T * stride))) T)"
      using e Suc.prems(1) by (intro region_apart; unfold u; linarith)
    then have "a \<notin> region (cpu + of_nat (k * (T * stride))) T" using Suc.prems(3) by (auto simp: disjnt_iff)
    then have "?set (fill_tokens cpu (int T) (int stride) k m) a = fill_tokens cpu (int T) (int stride) k m a" by (simp add: memset_bytes_def in_region)
    moreover have "unat cpu + k * (T * stride) < 2 ^ 64" using Suc.prems(1) by simp
    ultimately show ?thesis using Suc.IH [OF _ i Suc.prems(3)] by (simp add: fill)
  qed
qed simp

text \<open>After a direct submission of the planned entries the verification finds nothing wrong.\<close>

lemma planned_entries_verify:
  assumes drv: "all_succeed drv" "ce_wf (direct_ce obj)" and lay: "plan_layout gpu cpu T stride n num obj"
    and ids: "\<And>i. i < n \<Longrightarrow> ids i < num" and src: "p_mem (po obj) = fill_tokens cpu (int T) (int stride) num m0"
    and run: "submit_direct drv (map (plan_entry ids gpu cpu T stride) [0..<n]) obj = (ok, obj')" and order: "set order = {..<threads}" "n \<le> threads"
  shows "verify_kernel (after_dma (po obj) (po obj')) gpu ids n (of_nat T) order = 0"
proof -
  let ?es = "map (plan_entry ids gpu cpu T stride) [0..<n]"
  have b: "T < 2 ^ 31" "0 < stride" "unat cpu + num * (T * stride) < 2 ^ 64" using lay by (simp_all add: plan_layout_def)
  have T32: "unat (of_nat T :: u32) = T" using b(1) by (intro unat_of_nat_u32) simp
  then have T: "(ucast (of_nat T :: u32) :: u64) = of_nat T" using b(1) by (simp add: word_unat_eq_iff unat_of_nat_u64)
  have dok: "direct_ok obj ?es" using plan_direct_ok [OF lay ids] .
  have "after_dma (po obj) (po obj') (gpu + of_nat i * ucast (of_nat T :: u32) + of_nat j) = ucast ((of_nat (ids i) :: u32) AND 0xFF)"
    if i: "i < n" and j: "j < T" for i j
  proof -
    let ?e = "plan_entry ids gpu cpu T stride i" let ?a = "gpu + of_nat (i * T) + of_nat j"
    note r = plan_entry_regions [OF lay i, of ids, OF ids [OF i]]
    have jj: "unat (of_nat j :: u64) = j" using j b(1) by (intro unat_of_nat_u64) simp
    have a: "?a \<in> dst_region ?e" using j by (simp add: r(1) in_region jj)
    have out: "\<not> in_buffers obj ?a"
    proof
      assume "in_buffers obj ?a"
      then obtain k where "k < num_staging_bufs (po obj)" "?a \<in> region (staging_bufs (po obj) k) (unat (staging_buffer_size (po obj)))"
        by (auto simp: in_buffers_def)
      moreover have "?a \<in> region gpu (n * T)" using a r(5) by blast
      ultimately show False using lay by (auto simp: plan_layout_def Let_def disjnt_iff)
    qed
    have "?es \<noteq> []" using i by simp
    from submit_direct_delivers(2) [OF drv dok this run out]
    have "after_dma (po obj) (po obj') ?a = dmas ?es (p_mem (po obj)) ?a" .
    also have "\<dots> = p_mem (po obj) (sg_src ?e + (?a - sg_dst ?e))" using dok i a by (intro dmas_in) (simp_all add: direct_ok_def)
    also have "\<dots> = ucast ((of_nat (ids i) :: u32) AND 0xFF)"
      unfolding src using src_of_dst [OF a] r(2) by (intro filled b ids i) simp
    finally show ?thesis by (simp add: T)
  qed
  then show ?thesis using verify_kernel_iff [OF order, of "after_dma (po obj) (po obj')" gpu ids "of_nat T"] T32 by simp
qed

end
