(* ===== verification/Dynamic_Submit.thy ===== *)
theory Dynamic_Submit
  imports Sg_Warp_Spec
begin

text \<open>
  The kernel of \<open>examples/09_sg_warp_spec.cu\<close> that submits lists while it runs (\<open>dynamic_moe_kernel\<close>; the test
  \<open>test_sg_gpu_submit.cu\<close> has the same three warps): warp 2 turns a routing table into one list per expert and puts it into the
  task queue, warp 0 takes the lists out and requests the transfers, warp 1 computes. \<open>prog\<close> is what warp 2 submits: for each
  list its identifier and its entries. \<open>dy_sent\<close> is history: the identifier and the entries of each list as warp 0 turned it
  into descriptors.
\<close>

section \<open>Routing\<close>

type_synonym submission = "(u32 \<times> DeviceSGEntry list) list"

definition expert_count :: "(nat \<Rightarrow> int) \<Rightarrow> nat \<Rightarrow> int \<Rightarrow> nat" where
  "expert_count routing total_tokens expert = fold (\<lambda>t k. if routing t = expert then k + 1 else k) [0..<total_tokens] 0"

definition moe_entry :: "u64 \<Rightarrow> u64 \<Rightarrow> u32 \<Rightarrow> int \<Rightarrow> nat \<Rightarrow> DeviceSGEntry" where
  "moe_entry cpu_base gpu_base tsize expert t = \<lparr>de_src = cpu_base + of_nat t * ucast tsize, de_dst = gpu_base + of_nat t * ucast tsize,
     de_size = tsize, de_tag = of_int expert\<rparr>"

definition moe_write :: "(nat \<Rightarrow> int) \<Rightarrow> nat \<Rightarrow> nat \<Rightarrow> int \<Rightarrow> u64 \<Rightarrow> u64 \<Rightarrow> u32 \<Rightarrow> u64 \<Rightarrow> SGTaskQueue \<Rightarrow> SGTaskQueue" where
  "moe_write routing total_tokens n expert cpu_base gpu_base tsize po sq =
     fst (fold (\<lambda>t (sq, idx). if idx < n \<and> routing t = expert
         then (store_entry (po + of_nat idx) (moe_entry cpu_base gpu_base tsize expert t) sq, idx + 1) else (sq, idx)) [0..<total_tokens] (sq, 0))"

definition moe_lists :: "(nat \<Rightarrow> int) \<Rightarrow> nat \<Rightarrow> nat \<Rightarrow> u64 \<Rightarrow> u64 \<Rightarrow> u32 \<Rightarrow> submission" where
  "moe_lists routing total_tokens num_experts cpu_base gpu_base tsize =
     map (\<lambda>e. (of_nat e, map (moe_entry cpu_base gpu_base tsize (int e)) (filter (\<lambda>t. routing t = int e) [0..<total_tokens])))
       (filter (\<lambda>e. expert_count routing total_tokens (int e) \<noteq> 0) [0..<num_experts])"

text \<open>The lists of the test, which are of one length and cover a range of tokens.\<close>

definition test_lists :: "u64 \<Rightarrow> u64 \<Rightarrow> u32 \<Rightarrow> nat \<Rightarrow> nat \<Rightarrow> submission" where
  "test_lists cpu_base gpu_base esize entries_per_list num_lists =
     map (\<lambda>l. (of_nat l, map (\<lambda>i. let global_idx = l * entries_per_list + i in
           \<lparr>de_src = cpu_base + of_nat global_idx * ucast esize, de_dst = gpu_base + of_nat global_idx * ucast esize,
            de_size = esize, de_tag = of_nat l\<rparr>) [0..<entries_per_list])) [0..<num_lists]"

section \<open>The block\<close>

datatype submit_pc = Sub_Space nat | Sub_Alloc nat | Sub_Write nat u64 | Sub_List_Space nat u64 | Sub_Alloc_List nat u64
  | Sub_Commit nat u64 u64 | Sub_Drain | Sub_Exit

record DynBlock =
  dy_block :: SGBlock
  dy_at :: submit_pc
  dy_sent :: submission

definition dyn_start :: "DescriptorQueue \<Rightarrow> SGTaskQueue \<Rightarrow> DynBlock" where
  "dyn_start dq sq = \<lparr>dy_block = sg_block_start dq sq, dy_at = Sub_Space 0, dy_sent = []\<rparr>"

text \<open>The room is computed in \<open>uint32_t\<close>, and \<open>write_idx\<close> already includes the list.\<close>

definition dyn_room :: "u32 \<Rightarrow> DescriptorQueue \<Rightarrow> bool" where
  "dyn_room n q \<longleftrightarrow> write_idx q - read_idx q < ucast (of_nat QUEUE_SIZE - n * 2)"

definition sent_list :: "SGTaskQueue \<Rightarrow> SGListView \<Rightarrow> u32 \<times> DeviceSGEntry list" where
  "sent_list sq view = (lv_list_id view, map (\<lambda>i. list_entry sq (lv_pool_offset view) (of_nat i)) [0..<unat (lv_count view)])"

text \<open>
  Warp 0. It differs from \<open>sg_transfer_act\<close>: the list is only looked at when it is claimed, and counted as read when its header has
  been cleared. The three stores that free the list are one step; between them warp 2 would see older indices and wait longer.
\<close>

definition dyn_transfer_act :: "DynBlock \<Rightarrow> DynBlock option" where
  "dyn_transfer_act d =
     (let s = dy_block d in
      case sb_transfer s of
        SG_Claim \<Rightarrow> Some (d\<lparr>dy_block := s\<lparr>sb_transfer := SG_Poll (list_read_idx (sb_sq s))\<rparr>\<rparr>)
      | SG_Space k b \<Rightarrow>
          if dyn_room (lv_count (sb_view s)) (sb_dq s)
          then Some (d\<lparr>dy_block := s\<lparr>sb_dq := convert_list (sb_sq s) (sb_view s) b (sb_dq s), sb_transfer := SG_Clear k\<rparr>,
                       dy_sent := dy_sent d @ [sent_list (sb_sq s) (sb_view s)]\<rparr>) else None
      | SG_Clear k \<Rightarrow> Some (d\<lparr>dy_block := s\<lparr>sb_sq := sg_consume (lv_pool_offset (sb_view s)) (lv_count (sb_view s))
          ((set_list k (\<lambda>l. l\<lparr>list_sequence := 0\<rparr>) (sb_sq s))\<lparr>list_read_idx := k + 1\<rparr>), sb_transfer := SG_Await_Done\<rparr>\<rparr>)
      | _ \<Rightarrow> map_option (\<lambda>s. d\<lparr>dy_block := s\<rparr>) (sg_transfer_act s))"

text \<open>Warp 2. A polling loop is a test that must hold for the step.\<close>

definition submit_to_queue :: "SGTaskQueue \<Rightarrow> submit_pc \<Rightarrow> DynBlock \<Rightarrow> DynBlock" where
  "submit_to_queue sq pc d = d\<lparr>dy_block := (dy_block d)\<lparr>sb_sq := sq\<rparr>, dy_at := pc\<rparr>"

definition dyn_submit_act :: "submission \<Rightarrow> DynBlock \<Rightarrow> DynBlock option" where
  "dyn_submit_act prog d =
     (let sq = sb_sq (dy_block d); size_of = \<lambda>k. of_nat (length (snd (prog ! k))) in
      case dy_at d of
        Sub_Space k \<Rightarrow>
          if length prog \<le> k then Some (d\<lparr>dy_at := Sub_Drain\<rparr>)
          else if sg_wait_entry_space sq (size_of k) then Some (d\<lparr>dy_at := Sub_Alloc k\<rparr>) else None
      | Sub_Alloc k \<Rightarrow> (let (po, sq') = sg_alloc_entries (size_of k) sq in Some (submit_to_queue sq' (Sub_Write k po) d))
      | Sub_Write k po \<Rightarrow> Some (submit_to_queue (stored po (nth (snd (prog ! k))) [0..<length (snd (prog ! k))] sq) (Sub_List_Space k po) d)
      | Sub_List_Space k po \<Rightarrow> if sg_wait_list_space sq then Some (d\<lparr>dy_at := Sub_Alloc_List k po\<rparr>) else None
      | Sub_Alloc_List k po \<Rightarrow> (let (ls, sq') = sg_alloc_list sq in Some (submit_to_queue sq' (Sub_Commit k po ls) d))
      | Sub_Commit k po ls \<Rightarrow>
          Some (submit_to_queue (sg_commit_list ls (ucast po) (size_of k) (fst (prog ! k)) SG_FLAG_NONE sq) (Sub_Space (k + 1)) d)
      | Sub_Drain \<Rightarrow>
          if list_alloc_idx sq \<le> list_read_idx sq then Some (submit_to_queue (sq\<lparr>sg_terminate := True\<rparr>) Sub_Exit d) else None
      | Sub_Exit \<Rightarrow> None)"

text \<open>The polling thread may change the descriptor ring and the completion signals at any time.\<close>

inductive dyn_step :: "submission \<Rightarrow> DynBlock \<Rightarrow> DynBlock \<Rightarrow> bool" for prog where
  dyn_transfer: "dyn_transfer_act d = Some d' \<Longrightarrow> dyn_step prog d d'"
| dyn_compute: "sg_compute_act (dy_block d) = Some s \<Longrightarrow> dyn_step prog d (d\<lparr>dy_block := s\<rparr>)"
| dyn_submit: "dyn_submit_act prog d = Some d' \<Longrightarrow> dyn_step prog d d'"
| dyn_poller: "dyn_step prog d (d\<lparr>dy_block := (dy_block d)\<lparr>sb_dq := dq,
    sb_sq := (sb_sq (dy_block d))\<lparr>sg_lists_completed := c, d_list_done := dones\<rparr>\<rparr>\<rparr>)"

text \<open>Runs to evaluate.\<close>

datatype dyn_action = Dyn_Transfer | Dyn_Compute | Dyn_Submit | Dyn_Poller DescriptorQueue u64 "(nat \<Rightarrow> u64) option"

fun dyn_act :: "submission \<Rightarrow> dyn_action \<Rightarrow> DynBlock \<Rightarrow> DynBlock option" where
  "dyn_act prog Dyn_Transfer d = dyn_transfer_act d"
| "dyn_act prog Dyn_Compute d = map_option (\<lambda>s. d\<lparr>dy_block := s\<rparr>) (sg_compute_act (dy_block d))"
| "dyn_act prog Dyn_Submit d = dyn_submit_act prog d"
| "dyn_act prog (Dyn_Poller dq c dones) d = Some (d\<lparr>dy_block := (dy_block d)\<lparr>sb_dq := dq,
    sb_sq := (sb_sq (dy_block d))\<lparr>sg_lists_completed := c, d_list_done := dones\<rparr>\<rparr>\<rparr>)"

fun dyn_run :: "submission \<Rightarrow> dyn_action list \<Rightarrow> DynBlock \<Rightarrow> DynBlock option" where
  "dyn_run prog [] d = Some d"
| "dyn_run prog (a # as) d = Option.bind (dyn_act prog a d) (dyn_run prog as)"

lemma dyn_act_step: "dyn_act prog a d = Some d' \<Longrightarrow> dyn_step prog d d'"
  by (cases a) (auto intro: dyn_step.intros)

lemma dyn_run_reach: "dyn_run prog as d = Some d' \<Longrightarrow> (dyn_step prog)\<^sup>*\<^sup>* d d'"
proof (induction as arbitrary: d)
  case (Cons a as)
  then obtain d1 where d1: "dyn_act prog a d = Some d1" "dyn_run prog as d1 = Some d'" by (auto split: bind_splits)
  from dyn_act_step [OF d1(1)] Cons.IH [OF d1(2)] show ?case by (rule converse_rtranclp_into_rtranclp)
qed simp

section \<open>What the submitter writes\<close>

lemma expert_count_filter: "expert_count routing n e = length (filter (\<lambda>t. routing t = e) [0..<n])"
proof -
  have "fold (\<lambda>t k. if routing t = e then k + 1 else k) ts c = c + length (filter (\<lambda>t. routing t = e) ts)" for ts c
    by (induction ts arbitrary: c) simp_all
  then show ?thesis by (simp add: expert_count_def)
qed

text \<open>The loop over the tokens stores what \<open>Sub_Write\<close> does.\<close>

lemma moe_write_stored:
  fixes routing n e cpu gpu tsize
  defines "es \<equiv> map (moe_entry cpu gpu tsize e) (filter (\<lambda>t. routing t = e) [0..<n])"
  shows "moe_write routing n (expert_count routing n e) e cpu gpu tsize po sq = stored po (nth es) [0..<length es] sq"
proof -
  let ?f = "\<lambda>t (sq, idx). if idx < length es \<and> routing t = e then (store_entry (po + of_nat idx) (moe_entry cpu gpu tsize e t) sq, idx + 1) else (sq, idx)"
  let ?pre = "\<lambda>m. length (filter (\<lambda>t. routing t = e) [0..<m])"
  have split: "filter (\<lambda>t. routing t = e) [0..<n] = filter (\<lambda>t. routing t = e) [0..<m] @ filter (\<lambda>t. routing t = e) [m..<n]" if "m \<le> n" for m
    using that upt_add_eq_append [of 0 m "n - m"] by (simp add: filter_append)
  have "fold ?f [0..<m] (sq, 0) = (stored po (nth es) [0..<?pre m] sq, ?pre m)" if "m \<le> n" for m
    using that
  proof (induction m)
    case (Suc m)
    have es: "es ! ?pre m = moe_entry cpu gpu tsize e m" "?pre m < length es" if "routing m = e"
      using split [of m] that Suc.prems by (simp_all add: es_def nth_append upt_conv_Cons)
    show ?case using Suc es by (auto simp: stored_def)
  qed (simp add: stored_def)
  from this [of n] show ?thesis by (simp add: moe_write_def expert_count_filter es_def)
qed

lemma moe_lists_tokens:
  "mset (concat (map snd (moe_lists routing n experts cpu gpu tsize)))
   = mset (map (\<lambda>t. moe_entry cpu gpu tsize (routing t) t) (filter (\<lambda>t. 0 \<le> routing t \<and> routing t < int experts) [0..<n]))"
proof (induction experts)
  case (Suc m)
  let ?now = "map (\<lambda>t. moe_entry cpu gpu tsize (routing t) t) (filter (\<lambda>t. routing t = int m) [0..<n])"
  have new: "map (moe_entry cpu gpu tsize (int m)) (filter (\<lambda>t. routing t = int m) [0..<n]) = ?now" by simp
  have step: "concat (map snd (moe_lists routing n (Suc m) cpu gpu tsize)) = concat (map snd (moe_lists routing n m cpu gpu tsize)) @ ?now"
    by (auto simp: moe_lists_def new expert_count_filter)
  have split: "mset (filter (\<lambda>t. 0 \<le> routing t \<and> routing t < int (Suc m)) ts)
      = mset (filter (\<lambda>t. 0 \<le> routing t \<and> routing t < int m) ts) + mset (filter (\<lambda>t. routing t = int m) ts)" for ts
    by (induction ts) auto
  show ?case unfolding step mset_append Suc mset_map split image_mset_union ..
qed (simp add: moe_lists_def)

section \<open>The queue between the warps\<close>

text \<open>
  \<open>offs prog j\<close> entries come before list \<open>j\<close>. Of the lists of \<open>prog\<close>, \<open>R\<close> have been freed, \<open>C\<close> have their header
  committed, \<open>W\<close> have their entries written, and \<open>E\<close> and \<open>A\<close> have room reserved in the pool and in the ring.
\<close>

definition offs :: "submission \<Rightarrow> nat \<Rightarrow> nat" where
  "offs prog j = length (concat (map snd (take j prog)))"

definition prog_ok :: "submission \<Rightarrow> bool" where
  "prog_ok prog \<longleftrightarrow> (\<forall>l\<in>set prog. length (snd l) \<le> MAX_SG_POOL_ENTRIES) \<and> length prog < 2 ^ 32 \<and> offs prog (length prog) < 2 ^ 63"

definition header_is :: "submission \<Rightarrow> nat \<Rightarrow> SGList \<Rightarrow> bool" where
  "header_is prog j l \<longleftrightarrow> list_sequence l = of_nat j + 1 \<and> list_id l = fst (prog ! j) \<and> list_count l = of_nat (length (snd (prog ! j)))
     \<and> pool_offset l = ucast (of_nat (offs prog j) :: u64) mod of_nat MAX_SG_POOL_ENTRIES"

definition entries_are :: "submission \<Rightarrow> nat \<Rightarrow> SGTaskQueue \<Rightarrow> bool" where
  "entries_are prog j sq \<longleftrightarrow> (\<forall>i<length (snd (prog ! j)). sg_entries sq ((offs prog j + i) mod MAX_SG_POOL_ENTRIES) = snd (prog ! j) ! i)"

definition ring_inv :: "submission \<Rightarrow> nat \<Rightarrow> nat \<Rightarrow> nat \<Rightarrow> nat \<Rightarrow> nat \<Rightarrow> SGTaskQueue \<Rightarrow> bool" where
  "ring_inv prog R C W E A sq \<longleftrightarrow> R \<le> C \<and> C \<le> W \<and> W \<le> E \<and> E \<le> length prog \<and> C \<le> A \<and> A \<le> length prog \<and> A < R + MAX_SG_LISTS
     \<and> list_read_idx sq = of_nat R \<and> list_alloc_idx sq = of_nat A \<and> entry_alloc_idx sq = of_nat (offs prog E)
     \<and> unat (entry_consumed_idx sq) \<le> offs prog R \<and> offs prog E \<le> offs prog R + MAX_SG_POOL_ENTRIES
     \<and> (\<forall>j. R \<le> j \<and> j < C \<longrightarrow> header_is prog j (sg_lists sq (j mod MAX_SG_LISTS)))
     \<and> (\<forall>k. list_sequence (sg_lists sq k) = 0 \<or> (\<exists>j. R \<le> j \<and> j < C \<and> k = j mod MAX_SG_LISTS \<and> list_sequence (sg_lists sq k) = of_nat j + 1))
     \<and> (\<forall>j. R \<le> j \<and> j < W \<longrightarrow> entries_are prog j sq)"

lemma offs_Suc: "k < length prog \<Longrightarrow> offs prog (Suc k) = offs prog k + length (snd (prog ! k))"
  by (simp add: offs_def take_Suc_conv_app_nth)

lemma offs_mono: "i \<le> j \<Longrightarrow> offs prog i \<le> offs prog j"
proof (induction rule: inc_induct)
  case (step n)
  have "offs prog n \<le> offs prog (Suc n)" by (cases "n < length prog") (simp_all add: offs_Suc, simp add: offs_def)
  then show ?case using step by simp
qed simp

lemma offs_bound: "prog_ok prog \<Longrightarrow> offs prog j < 2 ^ 63"
  using offs_mono [of j "length prog" prog] by (cases "j \<le> length prog") (auto simp: prog_ok_def offs_def)

lemma offs_unat: "prog_ok prog \<Longrightarrow> unat (of_nat (offs prog j) :: u64) = offs prog j"
  using offs_bound [of prog j] by (intro unat_of_nat_u64) simp

lemma index_unat: "prog_ok prog \<Longrightarrow> j \<le> length prog \<Longrightarrow> unat (of_nat j :: u64) = j"
  by (intro unat_of_nat_u64) (simp add: prog_ok_def)

lemma prog_count:
  assumes "prog_ok prog" "k < length prog"
  shows "unat (of_nat (length (snd (prog ! k))) :: u32) = length (snd (prog ! k))" "length (snd (prog ! k)) \<le> MAX_SG_POOL_ENTRIES"
proof -
  show le: "length (snd (prog ! k)) \<le> MAX_SG_POOL_ENTRIES" using assms by (auto simp: prog_ok_def)
  then show "unat (of_nat (length (snd (prog ! k))) :: u32) = length (snd (prog ! k))"
    by (intro unat_of_nat_u32) (simp add: MAX_SG_POOL_ENTRIES_def)
qed

lemma prog_slots:
  assumes "prog_ok prog" "j \<le> length prog"
  shows "list_slot (of_nat j) = j mod MAX_SG_LISTS" "pool_slot (of_nat (offs prog j) + of_nat i) = (offs prog j + i) mod MAX_SG_POOL_ENTRIES"
  using assms by (simp_all add: list_slot_def index_unat pool_slot_add offs_unat)

text \<open>Signals are not part of it, and freeing lists only helps.\<close>

lemma ring_inv_cong:
  assumes "sg_lists sq' = sg_lists sq" "sg_entries sq' = sg_entries sq" "list_read_idx sq' = list_read_idx sq"
    "list_alloc_idx sq' = list_alloc_idx sq" "entry_alloc_idx sq' = entry_alloc_idx sq" "entry_consumed_idx sq' = entry_consumed_idx sq"
  shows "ring_inv prog R C W E A sq' = ring_inv prog R C W E A sq"
  by (simp add: ring_inv_def entries_are_def assms)

text \<open>The guards of the submitter say what they are meant to.\<close>

lemma entry_room:
  assumes "prog_ok prog" "ring_inv prog R C k k A sq" "k < length prog" "sg_wait_entry_space sq (of_nat (length (snd (prog ! k))))"
  shows "offs prog (Suc k) \<le> offs prog R + MAX_SG_POOL_ENTRIES"
proof -
  note n = prog_count [OF assms(1,3)]
  have c: "unat (entry_consumed_idx sq) \<le> offs prog R" "R \<le> k" "entry_alloc_idx sq = of_nat (offs prog k)"
    using assms(2) by (simp_all add: ring_inv_def)
  have "unat (entry_alloc_idx sq) = offs prog k" by (simp add: c(3) offs_unat [OF assms(1)])
  moreover have "unat (entry_consumed_idx sq) \<le> unat (entry_alloc_idx sq)" using c(1) offs_mono [OF c(2), of prog] calculation by simp
  ultimately have "unat (entry_alloc_idx sq - entry_consumed_idx sq) = offs prog k - unat (entry_consumed_idx sq)"
    by (simp add: unat_sub word_le_nat_alt)
  then have "offs prog k - unat (entry_consumed_idx sq) + length (snd (prog ! k)) \<le> MAX_SG_POOL_ENTRIES"
    using assms(4) n sg_wait_entry_space_fits [of "of_nat (length (snd (prog ! k)))" sq] by simp
  then show ?thesis using c(1) offs_mono [OF c(2), of prog] by (simp add: offs_Suc [OF assms(3)])
qed

lemma list_room:
  assumes "prog_ok prog" "ring_inv prog R C W E A sq" "sg_wait_list_space sq"
  shows "A + 1 < R + MAX_SG_LISTS"
proof -
  have ra: "R \<le> A" "A \<le> length prog" "list_alloc_idx sq = of_nat A" "list_read_idx sq = of_nat R" using assms(2) by (auto simp: ring_inv_def)
  then have "unat (list_alloc_idx sq - list_read_idx sq) = A - R"
    using index_unat [OF assms(1)] by (simp add: unat_sub word_le_nat_alt)
  then show ?thesis using assms(3) ra(1) by (simp add: sg_wait_list_space_def word_less_nat_alt MAX_SG_LISTS_def)
qed

section \<open>Its steps\<close>

lemma ring_alloc_entries:
  assumes "prog_ok prog" "ring_inv prog R C k k A sq" "k < length prog" "offs prog (Suc k) \<le> offs prog R + MAX_SG_POOL_ENTRIES"
  shows "ring_inv prog R C k (Suc k) A (sq\<lparr>entry_alloc_idx := entry_alloc_idx sq + ucast (of_nat (length (snd (prog ! k))) :: u32)\<rparr>)"
proof -
  have "(ucast (of_nat (length (snd (prog ! k))) :: u32) :: u64) = of_nat (length (snd (prog ! k)))"
    using prog_count [OF assms(1,3)] by (simp add: word_unat_eq_iff unat_ucast_u32_u64 unat_of_nat_u64 MAX_SG_POOL_ENTRIES_def)
  then show ?thesis using assms(2-4) by (auto simp: ring_inv_def entries_are_def offs_Suc)
qed

lemma ring_write:
  assumes "prog_ok prog" "ring_inv prog R C k (Suc k) A sq" "k < length prog"
  shows "ring_inv prog R C (Suc k) (Suc k) A (stored (of_nat (offs prog k)) (nth (snd (prog ! k))) [0..<length (snd (prog ! k))] sq)"
    (is "ring_inv _ _ _ _ _ _ ?sq")
proof -
  note n = prog_count [OF assms(1,3)]
  have ps: "pool_slot (of_nat (offs prog k) + of_nat i) = (offs prog k + i) mod MAX_SG_POOL_ENTRIES" for i
    using prog_slots(2) [OF assms(1)] assms(3) by simp
  have new: "entries_are prog k ?sq"
    using n by (auto simp: entries_are_def ps [symmetric] intro!: stored_at)
  have old: "entries_are prog j ?sq" if j: "R \<le> j" "j < k" for j
  proof -
    have room: "offs prog (Suc k) \<le> offs prog R + MAX_SG_POOL_ENTRIES" using assms(2) by (simp add: ring_inv_def)
    have jl: "j < length prog" using j assms(3) by simp
    have apart: "(offs prog j + i) mod MAX_SG_POOL_ENTRIES \<noteq> pool_slot (of_nat (offs prog k) + of_nat i')"
      if "i < length (snd (prog ! j))" "i' < length (snd (prog ! k))" for i i'
    proof -
      have "offs prog j + i < offs prog k" using that(1) offs_mono [of "Suc j" k prog] j(2) jl by (simp add: offs_Suc)
      moreover have "offs prog R \<le> offs prog j + i" using offs_mono [OF j(1), of prog] by simp
      moreover have "offs prog k + i' < offs prog R + MAX_SG_POOL_ENTRIES" using that(2) room assms(3) by (simp add: offs_Suc)
      ultimately obtain a b where "offs prog j + i = offs prog R + a" "offs prog k + i' = offs prog R + b" "a < b" "b < MAX_SG_POOL_ENTRIES"
        by (auto simp: le_iff_add dest!: less_imp_le_nat)
      then show ?thesis unfolding ps using mod_offset_inj [of "offs prog R" a MAX_SG_POOL_ENTRIES b] by auto
    qed
    have "sg_entries ?sq ((offs prog j + i) mod MAX_SG_POOL_ENTRIES) = sg_entries sq ((offs prog j + i) mod MAX_SG_POOL_ENTRIES)"
      if "i < length (snd (prog ! j))" for i using apart that by (intro stored_other) auto
    then show ?thesis using assms(2) j by (simp add: ring_inv_def entries_are_def)
  qed
  have "entries_are prog j ?sq" if "R \<le> j" "j < Suc k" for j using new old that less_Suc_eq by auto
  then show ?thesis using assms(2,3) by (simp add: ring_inv_def)
qed

lemma ring_alloc_list:
  assumes "ring_inv prog R k (Suc k) (Suc k) k sq" "k < length prog" "k + 1 < R + MAX_SG_LISTS"
  shows "ring_inv prog R k (Suc k) (Suc k) (Suc k) (sq\<lparr>list_alloc_idx := list_alloc_idx sq + 1\<rparr>)"
  using assms by (auto simp: ring_inv_def entries_are_def add.commute)

lemma ring_slot_apart:
  assumes "R \<le> i" "i < j" "j < R + MAX_SG_LISTS"
  shows "i mod MAX_SG_LISTS \<noteq> j mod MAX_SG_LISTS"
proof -
  obtain a b where "i = R + a" "j = R + b" using assms le_Suc_ex [of R i] le_Suc_ex [of R j] by auto
  then show ?thesis using assms mod_offset_inj [of R a MAX_SG_LISTS b] by auto
qed

lemma ring_commit:
  assumes ok: "prog_ok prog" and inv: "ring_inv prog R k (Suc k) (Suc k) (Suc k) sq" and k: "k < length prog"
  shows "ring_inv prog R (Suc k) (Suc k) (Suc k) (Suc k)
    (sg_commit_list (of_nat k) (ucast (of_nat (offs prog k) :: u64)) (of_nat (length (snd (prog ! k)))) (fst (prog ! k)) fl sq)"
    (is "ring_inv _ _ _ _ _ _ ?sq")
proof -
  have slot: "list_slot (of_nat k) = k mod MAX_SG_LISTS" using prog_slots(1) [OF ok] k by simp
  note h = sg_commit_list_header [where sq' = ?sq, OF refl, unfolded slot]
  have R: "R \<le> k" "k < R + MAX_SG_LISTS" using inv by (simp_all add: ring_inv_def)
  have new: "header_is prog k (sg_lists ?sq (k mod MAX_SG_LISTS))"
    using h(1-4) by (simp add: header_is_def list_committed_def slot)
  have other: "sg_lists ?sq s = sg_lists sq s" if "s \<noteq> k mod MAX_SG_LISTS" for s using h(5) that by simp
  have hdr: "header_is prog j (sg_lists ?sq (j mod MAX_SG_LISTS))" if "R \<le> j" "j < Suc k" for j
  proof (cases "j = k")
    case False
    then have "j mod MAX_SG_LISTS \<noteq> k mod MAX_SG_LISTS" using ring_slot_apart [of R j k] R(2) that by simp
    then show ?thesis using inv that False by (simp add: other ring_inv_def)
  qed (use new in simp)
  have seq: "list_sequence (sg_lists ?sq s) = 0
      \<or> (\<exists>j. R \<le> j \<and> j < Suc k \<and> s = j mod MAX_SG_LISTS \<and> list_sequence (sg_lists ?sq s) = of_nat j + 1)" for s
  proof (cases "s = k mod MAX_SG_LISTS")
    case True
    then show ?thesis using new R(1) by (auto simp: header_is_def)
  next
    case False
    have "list_sequence (sg_lists sq s) = 0 \<or> (\<exists>j. R \<le> j \<and> j < k \<and> s = j mod MAX_SG_LISTS \<and> list_sequence (sg_lists sq s) = of_nat j + 1)"
      using inv by (simp add: ring_inv_def)
    then show ?thesis unfolding other [OF False] using less_Suc_eq by blast
  qed
  have frame: "list_read_idx ?sq = list_read_idx sq" "entry_consumed_idx ?sq = entry_consumed_idx sq" by (simp_all add: sg_commit_list_def)
  show ?thesis using inv hdr seq R(1) k by (simp add: ring_inv_def entries_are_def frame)
qed

definition view_is :: "submission \<Rightarrow> nat \<Rightarrow> SGListView \<Rightarrow> bool" where
  "view_is prog j v \<longleftrightarrow> lv_list_id v = fst (prog ! j) \<and> lv_count v = of_nat (length (snd (prog ! j)))
     \<and> lv_pool_offset v = ucast (of_nat (offs prog j) :: u64) mod of_nat MAX_SG_POOL_ENTRIES"

lemma consumed_bound:
  assumes "prog_ok prog" "j < length prog" "view_is prog j v"
  shows "unat (ucast (lv_pool_offset v) + ucast (lv_count v) :: u64) \<le> offs prog (Suc j)"
proof -
  let ?off = "ucast (of_nat (offs prog j) :: u64) mod of_nat MAX_SG_POOL_ENTRIES :: u32"
  note n = prog_count [OF assms(1,2)]
  have off: "unat ?off = offs prog j mod MAX_SG_POOL_ENTRIES"
    using reader_slot [of "of_nat (offs prog j)" 0] assms(2) prog_slots(2) [OF assms(1), of j 0] by (simp add: unat_mod)
  have "offs prog j mod MAX_SG_POOL_ENTRIES < MAX_SG_POOL_ENTRIES" by (simp add: MAX_SG_POOL_ENTRIES_def)
  then have "unat (ucast ?off + ucast (of_nat (length (snd (prog ! j))) :: u32) :: u64) = offs prog j mod MAX_SG_POOL_ENTRIES + length (snd (prog ! j))"
    using n off by (subst unat_add_u64) (simp_all add: unat_ucast_u32_u64 MAX_SG_POOL_ENTRIES_def)
  then show ?thesis using assms(2,3) mod_less_eq_dividend [of "offs prog j" MAX_SG_POOL_ENTRIES] by (simp add: view_is_def offs_Suc)
qed

lemma ring_free:
  assumes ok: "prog_ok prog" and inv: "ring_inv prog R C W E A sq" and R: "R < C" and v: "view_is prog R v"
  shows "ring_inv prog (Suc R) C W E A (sg_consume (lv_pool_offset v) (lv_count v)
    ((set_list (of_nat R) (\<lambda>l. l\<lparr>list_sequence := 0\<rparr>) sq)\<lparr>list_read_idx := of_nat R + 1\<rparr>))" (is "ring_inv _ _ _ _ _ _ ?sq")
proof -
  have Rl: "R < length prog" and A: "A < R + MAX_SG_LISTS" "C \<le> A" using inv R by (simp_all add: ring_inv_def)
  have lists: "sg_lists ?sq s = (if s = R mod MAX_SG_LISTS then (sg_lists sq s)\<lparr>list_sequence := 0\<rparr> else sg_lists sq s)" for s
    using Rl by (simp add: sg_consume_def Let_def set_list_at prog_slots(1) [OF ok])
  have frame: "sg_entries ?sq = sg_entries sq" "list_alloc_idx ?sq = list_alloc_idx sq" "entry_alloc_idx ?sq = entry_alloc_idx sq"
    "list_read_idx ?sq = 1 + of_nat R" by (simp_all add: sg_consume_def Let_def)
  have mono: "offs prog R \<le> offs prog (Suc R)" by (rule offs_mono) simp
  have consumed: "unat (entry_consumed_idx ?sq) \<le> offs prog (Suc R)"
    using consumed_bound [OF ok Rl v] inv mono by (simp add: sg_consume_def Let_def ring_inv_def)
  have seq: "list_sequence (sg_lists ?sq s) = 0
      \<or> (\<exists>j. Suc R \<le> j \<and> j < C \<and> s = j mod MAX_SG_LISTS \<and> list_sequence (sg_lists ?sq s) = of_nat j + 1)" for s
  proof (cases "s = R mod MAX_SG_LISTS")
    case False
    have "list_sequence (sg_lists sq s) = 0 \<or> (\<exists>j. R \<le> j \<and> j < C \<and> s = j mod MAX_SG_LISTS \<and> list_sequence (sg_lists sq s) = of_nat j + 1)"
      using inv by (simp add: ring_inv_def)
    then show ?thesis using False by (auto simp: lists) (metis Suc_leI le_neq_implies_less)
  qed (simp add: lists)
  have hdr: "header_is prog j (sg_lists ?sq (j mod MAX_SG_LISTS))" if "Suc R \<le> j" "j < C" for j
    using inv that A ring_slot_apart [of R R j] by (simp add: lists ring_inv_def)
  show ?thesis using inv R mono consumed seq hdr by (simp add: ring_inv_def frame entries_are_def)
qed

lemma stored_terminate [simp]: "sg_terminate (stored off es is sq) = sg_terminate sq"
  by (induction "is" arbitrary: sq) (simp_all add: stored_def store_entry_def)

text \<open>What warp 0 reads when the header at its index says committed.\<close>

lemma ring_committed:
  assumes ok: "prog_ok prog" and inv: "ring_inv prog R C W E A sq" and c: "list_committed (of_nat R) sq"
  shows "R < C" "view_is prog R (view_of (sg_lists sq (list_slot (of_nat R))))"
proof -
  have Rl: "R \<le> length prog" "C \<le> length prog" using inv by (simp_all add: ring_inv_def)
  have slot: "list_slot (of_nat R) = R mod MAX_SG_LISTS" using prog_slots(1) [OF ok Rl(1)] .
  have s: "list_sequence (sg_lists sq (R mod MAX_SG_LISTS)) = of_nat R + 1" using c by (simp add: list_committed_def slot)
  have "unat (of_nat R + 1 :: u64) = R + 1" using index_unat [OF ok Rl(1)] Rl(1) ok by (subst unat_add_u64) (simp_all add: prog_ok_def)
  then have "list_sequence (sg_lists sq (R mod MAX_SG_LISTS)) \<noteq> 0" unfolding s by auto
  then obtain j where j: "R \<le> j" "j < C" "of_nat j + 1 = (of_nat R + 1 :: u64)"
    using inv s unfolding ring_inv_def by metis
  then have "unat (of_nat j :: u64) = unat (of_nat R :: u64)" by simp
  then have "j = R" using index_unat [OF ok] Rl j(2) by simp
  with j(2) show "R < C" by simp
  then show "view_is prog R (view_of (sg_lists sq (list_slot (of_nat R))))"
    using inv by (simp add: ring_inv_def slot view_is_def header_is_def view_of_def)
qed

lemma ring_sent:
  assumes ok: "prog_ok prog" and inv: "ring_inv prog R C W E A sq" and R: "R < C" and v: "view_is prog R v"
  shows "sent_list sq v = prog ! R"
proof -
  have Rl: "R < length prog" and e: "entries_are prog R sq" using inv R by (simp_all add: ring_inv_def)
  have "list_entry sq (lv_pool_offset v) (of_nat i) = snd (prog ! R) ! i" if "i < length (snd (prog ! R))" for i
  proof -
    have "list_entry sq (lv_pool_offset v) (of_nat i) = sg_entries sq (pool_slot (of_nat (offs prog R) + of_nat i))"
      using v by (simp add: list_entry_def view_is_def reader_slot)
    also have "\<dots> = sg_entries sq ((offs prog R + i) mod MAX_SG_POOL_ENTRIES)" using prog_slots(2) [OF ok, of R i] Rl by simp
    finally show ?thesis using e that by (simp add: entries_are_def)
  qed
  then have "map (\<lambda>i. list_entry sq (lv_pool_offset v) (of_nat i)) [0..<unat (lv_count v)] = snd (prog ! R)"
    using v prog_count(1) [OF ok Rl] by (intro nth_equalityI) (simp_all add: view_is_def)
  then show ?thesis using v by (simp add: sent_list_def view_is_def prod_eq_iff)
qed

section \<open>The invariant of the block\<close>

fun committed_lists :: "submission \<Rightarrow> submit_pc \<Rightarrow> nat" where
  "committed_lists prog (Sub_Space k) = k"
| "committed_lists prog (Sub_Alloc k) = k"
| "committed_lists prog (Sub_Write k po) = k"
| "committed_lists prog (Sub_List_Space k po) = k"
| "committed_lists prog (Sub_Alloc_List k po) = k"
| "committed_lists prog (Sub_Commit k po ls) = k"
| "committed_lists prog Sub_Drain = length prog"
| "committed_lists prog Sub_Exit = length prog"

text \<open>Warp 2, by the place where it is.\<close>

fun sub_inv :: "submission \<Rightarrow> nat \<Rightarrow> SGTaskQueue \<Rightarrow> submit_pc \<Rightarrow> bool" where
  "sub_inv prog R sq (Sub_Space k) \<longleftrightarrow> \<not> sg_terminate sq \<and> ring_inv prog R k k k k sq"
| "sub_inv prog R sq (Sub_Alloc k) \<longleftrightarrow> \<not> sg_terminate sq \<and> k < length prog \<and> offs prog (Suc k) \<le> offs prog R + MAX_SG_POOL_ENTRIES
     \<and> ring_inv prog R k k k k sq"
| "sub_inv prog R sq (Sub_Write k po) \<longleftrightarrow> \<not> sg_terminate sq \<and> k < length prog \<and> po = of_nat (offs prog k) \<and> ring_inv prog R k k (Suc k) k sq"
| "sub_inv prog R sq (Sub_List_Space k po) \<longleftrightarrow> \<not> sg_terminate sq \<and> k < length prog \<and> po = of_nat (offs prog k)
     \<and> ring_inv prog R k (Suc k) (Suc k) k sq"
| "sub_inv prog R sq (Sub_Alloc_List k po) \<longleftrightarrow> \<not> sg_terminate sq \<and> k < length prog \<and> po = of_nat (offs prog k) \<and> k + 1 < R + MAX_SG_LISTS
     \<and> ring_inv prog R k (Suc k) (Suc k) k sq"
| "sub_inv prog R sq (Sub_Commit k po ls) \<longleftrightarrow> \<not> sg_terminate sq \<and> k < length prog \<and> po = of_nat (offs prog k) \<and> ls = of_nat k
     \<and> ring_inv prog R k (Suc k) (Suc k) (Suc k) sq"
| "sub_inv prog R sq Sub_Drain \<longleftrightarrow> \<not> sg_terminate sq \<and> ring_inv prog R (length prog) (length prog) (length prog) (length prog) sq"
| "sub_inv prog R sq Sub_Exit \<longleftrightarrow> R = length prog \<and> ring_inv prog R (length prog) (length prog) (length prog) (length prog) sq"

definition history_is :: "submission \<Rightarrow> nat \<Rightarrow> nat \<Rightarrow> DynBlock \<Rightarrow> bool" where
  "history_is prog m n d \<longleftrightarrow> dy_sent d = take m prog \<and> map lv_list_id (sb_arrived (dy_block d)) = map fst (take n prog)"

text \<open>Warp 0, which has freed \<open>R\<close> of the \<open>C\<close> committed lists.\<close>

fun tr_inv :: "submission \<Rightarrow> nat \<Rightarrow> nat \<Rightarrow> sg_transfer_pc \<Rightarrow> DynBlock \<Rightarrow> bool" where
  "tr_inv prog R C SG_Claim d \<longleftrightarrow> history_is prog R R d"
| "tr_inv prog R C (SG_Poll k) d \<longleftrightarrow> k = of_nat R \<and> history_is prog R R d"
| "tr_inv prog R C (SG_Slots k) d \<longleftrightarrow> k = of_nat R \<and> R < C \<and> view_is prog R (sb_view (dy_block d)) \<and> history_is prog R R d"
| "tr_inv prog R C (SG_Space k b) d \<longleftrightarrow> k = of_nat R \<and> R < C \<and> view_is prog R (sb_view (dy_block d)) \<and> history_is prog R R d"
| "tr_inv prog R C (SG_Clear k) d \<longleftrightarrow> k = of_nat R \<and> R < C \<and> view_is prog R (sb_view (dy_block d)) \<and> history_is prog (Suc R) R d"
| "tr_inv prog R C SG_Await_Done d \<longleftrightarrow> 0 < R \<and> view_is prog (R - 1) (sb_view (dy_block d)) \<and> history_is prog R (R - 1) d"
| "tr_inv prog R C SG_Await_Compute d \<longleftrightarrow> history_is prog R R d"
| "tr_inv prog R C SG_Exit d \<longleftrightarrow> R = length prog \<and> history_is prog R R d"

definition dyn_inv :: "submission \<Rightarrow> DynBlock \<Rightarrow> bool" where
  "dyn_inv prog d \<longleftrightarrow> sg_inv (dy_block d)
     \<and> (\<exists>R. sub_inv prog R (sb_sq (dy_block d)) (dy_at d) \<and> tr_inv prog R (committed_lists prog (dy_at d)) (sb_transfer (dy_block d)) d)"

lemma ring_indices:
  assumes "ring_inv prog R C W E A sq"
  shows "list_read_idx sq = of_nat R" "list_alloc_idx sq = of_nat A" "entry_alloc_idx sq = of_nat (offs prog E)" "R \<le> length prog"
  using assms by (simp_all add: ring_inv_def)

lemma sub_inv_ring: "sub_inv prog R sq pc \<Longrightarrow> \<exists>W E A. ring_inv prog R (committed_lists prog pc) W E A sq"
  by (cases pc) auto

lemma sub_inv_free:
  assumes "prog_ok prog" "sub_inv prog R sq pc" "R < committed_lists prog pc" "view_is prog R v"
  shows "sub_inv prog (Suc R) (sg_consume (lv_pool_offset v) (lv_count v)
    ((set_list (of_nat R) (\<lambda>l. l\<lparr>list_sequence := 0\<rparr>) sq)\<lparr>list_read_idx := of_nat R + 1\<rparr>)) pc" (is "sub_inv _ _ ?sq _")
proof -
  have t: "sg_terminate ?sq = sg_terminate sq" by (simp add: sg_consume_def Let_def set_list_def)
  have mono: "offs prog R \<le> offs prog (Suc R)" by (rule offs_mono) simp
  note free = ring_free [OF assms(1) _ _ assms(4)]
  show ?thesis using assms(2,3) t mono by (cases pc) (auto intro!: free)
qed

lemma sub_inv_cong:
  assumes "sg_lists sq' = sg_lists sq" "sg_entries sq' = sg_entries sq" "list_read_idx sq' = list_read_idx sq"
    "list_alloc_idx sq' = list_alloc_idx sq" "entry_alloc_idx sq' = entry_alloc_idx sq" "entry_consumed_idx sq' = entry_consumed_idx sq"
    "sg_terminate sq' = sg_terminate sq"
  shows "sub_inv prog R sq' pc = sub_inv prog R sq pc"
  using ring_inv_cong [OF assms(1-6)] assms(7) by (cases pc) simp_all

lemma tr_inv_frame:
  assumes "sb_view (dy_block d') = sb_view (dy_block d)" "sb_arrived (dy_block d') = sb_arrived (dy_block d)" "dy_sent d' = dy_sent d"
    and "C \<le> C'" "tr_inv prog R C pc d"
  shows "tr_inv prog R C' pc d'"
  using assms by (cases pc) (auto simp: history_is_def)

text \<open>Taking a list out of the program.\<close>

lemma history_sent:
  "history_is prog R R d \<Longrightarrow> R < length prog \<Longrightarrow>
   history_is prog (Suc R) R (d\<lparr>dy_block := s, dy_sent := dy_sent d @ [prog ! R]\<rparr>)" if "sb_arrived s = sb_arrived (dy_block d)"
  using that by (simp add: history_is_def take_Suc_conv_app_nth)

section \<open>Warp 2 keeps it\<close>

lemma dyn_submit_inv:
  assumes ok: "prog_ok prog" and act: "dyn_submit_act prog d = Some d'" and sub: "sub_inv prog R (sb_sq (dy_block d)) (dy_at d)"
  shows "sub_inv prog R (sb_sq (dy_block d')) (dy_at d')" "committed_lists prog (dy_at d) \<le> committed_lists prog (dy_at d')"
proof -
  have "sub_inv prog R (sb_sq (dy_block d')) (dy_at d') \<and> committed_lists prog (dy_at d) \<le> committed_lists prog (dy_at d')"
  proof (cases "dy_at d")
    case (Sub_Space k)
    then have inv: "ring_inv prog R k k k k (sb_sq (dy_block d))" and t: "\<not> sg_terminate (sb_sq (dy_block d))" using sub by simp_all
    show ?thesis
    proof (cases "length prog \<le> k")
      case True
      then have "k = length prog" using inv by (simp add: ring_inv_def)
      then show ?thesis using act Sub_Space inv t by (auto simp: dyn_submit_act_def)
    next
      case False
      then show ?thesis using act Sub_Space inv t entry_room [OF ok inv] by (auto simp: dyn_submit_act_def split: if_splits)
    qed
  next
    case (Sub_Alloc k)
    with sub have k: "k < length prog" "offs prog (Suc k) \<le> offs prog R + MAX_SG_POOL_ENTRIES" "\<not> sg_terminate (sb_sq (dy_block d))"
      and inv: "ring_inv prog R k k k k (sb_sq (dy_block d))" by simp_all
    from act Sub_Alloc k ring_alloc_entries [OF ok inv k(1,2)] show ?thesis
      by (auto simp: dyn_submit_act_def submit_to_queue_def sg_alloc_entries_def ring_indices(3) [OF inv])
  next
    case (Sub_Write k po)
    with sub have k: "k < length prog" "po = of_nat (offs prog k)" "\<not> sg_terminate (sb_sq (dy_block d))"
      and inv: "ring_inv prog R k k (Suc k) k (sb_sq (dy_block d))" by simp_all
    from act Sub_Write k ring_write [OF ok inv k(1)] show ?thesis
      by (auto simp: dyn_submit_act_def submit_to_queue_def)
  next
    case (Sub_List_Space k po)
    then show ?thesis using act sub list_room [OF ok] by (auto simp: dyn_submit_act_def split: if_splits)
  next
    case (Sub_Alloc_List k po)
    with sub have k: "k < length prog" "po = of_nat (offs prog k)" "k + 1 < R + MAX_SG_LISTS" "\<not> sg_terminate (sb_sq (dy_block d))"
      and inv: "ring_inv prog R k (Suc k) (Suc k) k (sb_sq (dy_block d))" by simp_all
    from act Sub_Alloc_List k ring_alloc_list [OF inv k(1,3)] show ?thesis
      by (auto simp: dyn_submit_act_def submit_to_queue_def sg_alloc_list_def ring_indices(2) [OF inv])
  next
    case (Sub_Commit k po ls)
    with sub have k: "k < length prog" "po = of_nat (offs prog k)" "ls = of_nat k" "\<not> sg_terminate (sb_sq (dy_block d))"
      and inv: "ring_inv prog R k (Suc k) (Suc k) (Suc k) (sb_sq (dy_block d))" by simp_all
    have "sg_terminate (sg_commit_list a b c e f sq) = sg_terminate sq" for a b c e f sq by (simp add: sg_commit_list_def set_list_def)
    with act Sub_Commit k ring_commit [OF ok inv k(1)] show ?thesis
      by (auto simp: dyn_submit_act_def submit_to_queue_def)
  next
    case Sub_Drain
    with sub have inv: "ring_inv prog R (length prog) (length prog) (length prog) (length prog) (sb_sq (dy_block d))" by simp
    have "(of_nat (length prog) :: u64) \<le> of_nat R \<Longrightarrow> R = length prog"
      using index_unat [OF ok] ring_indices(4) [OF inv] by (simp add: word_le_nat_alt)
    moreover have "ring_inv prog R C W E A (sq\<lparr>sg_terminate := True\<rparr>) = ring_inv prog R C W E A sq" for C W E A sq by (rule ring_inv_cong) simp_all
    ultimately show ?thesis using act Sub_Drain inv
      by (auto simp: dyn_submit_act_def submit_to_queue_def ring_indices(1,2) [OF inv] split: if_splits)
  next
    case Sub_Exit
    then show ?thesis using act by (simp add: dyn_submit_act_def)
  qed
  then show "sub_inv prog R (sb_sq (dy_block d')) (dy_at d')" "committed_lists prog (dy_at d) \<le> committed_lists prog (dy_at d')" by simp_all
qed

section \<open>Warp 0 keeps it\<close>

lemma dyn_transfer_cases:
  assumes "dyn_transfer_act d = Some d'"
  shows "dy_at d' = dy_at d"
  using assms by (auto simp: dyn_transfer_act_def Let_def split: sg_transfer_pc.splits if_splits)

lemma dyn_transfer_inv:
  assumes ok: "prog_ok prog" and act: "dyn_transfer_act d = Some d'"
    and sub: "sub_inv prog R (sb_sq (dy_block d)) (dy_at d)" and tr: "tr_inv prog R (committed_lists prog (dy_at d)) (sb_transfer (dy_block d)) d"
  shows "\<exists>R'. sub_inv prog R' (sb_sq (dy_block d')) (dy_at d) \<and> tr_inv prog R' (committed_lists prog (dy_at d)) (sb_transfer (dy_block d')) d'"
proof -
  let ?C = "committed_lists prog (dy_at d)" let ?sq = "sb_sq (dy_block d)"
  obtain W E A where ring: "ring_inv prog R ?C W E A ?sq" using sub_inv_ring [OF sub] by blast
  have Cl: "?C \<le> length prog" using ring by (simp add: ring_inv_def)
  show ?thesis
  proof (cases "sb_transfer (dy_block d)")
    case SG_Claim
    then show ?thesis using act sub tr by (intro exI [of _ R]) (auto simp: dyn_transfer_act_def Let_def history_is_def ring_indices(1) [OF ring])
  next
    case (SG_Poll k)
    with tr have k: "k = of_nat R" and h: "history_is prog R R d" by simp_all
    show ?thesis
    proof (cases "list_committed k ?sq")
      case True
      note c = ring_committed [OF ok ring True [unfolded k]]
      show ?thesis using act SG_Poll True k c sub h
        by (intro exI [of _ R]) (auto simp: dyn_transfer_act_def Let_def sg_transfer_act_def history_is_def)
    next
      case False
      have "sg_terminate ?sq \<Longrightarrow> R = length prog" using sub by (cases "dy_at d") simp_all
      then show ?thesis using act SG_Poll False sub h
        by (intro exI [of _ R]) (auto simp: dyn_transfer_act_def Let_def sg_transfer_act_def history_is_def split: if_splits)
    qed
  next
    case (SG_Slots k)
    then show ?thesis using act sub tr by (intro exI [of _ R]) (auto simp: dyn_transfer_act_def Let_def sg_transfer_act_def history_is_def)
  next
    case (SG_Space k b)
    with tr have R: "k = of_nat R" "R < ?C" "view_is prog R (sb_view (dy_block d))" "history_is prog R R d" by simp_all
    note sent = ring_sent [OF ok ring R(2,3)]
    show ?thesis using act SG_Space R sub Cl
      by (intro exI [of _ R]) (auto simp: dyn_transfer_act_def Let_def sent history_is_def take_Suc_conv_app_nth split: if_splits)
  next
    case (SG_Clear k)
    with tr have R: "k = of_nat R" "R < ?C" "view_is prog R (sb_view (dy_block d))" "history_is prog (Suc R) R d" by simp_all
    show ?thesis using act SG_Clear R sub_inv_free [OF ok sub R(2,3)]
      by (intro exI [of _ "Suc R"]) (auto simp: dyn_transfer_act_def Let_def history_is_def)
  next
    case SG_Await_Done
    with tr have R: "0 < R" "view_is prog (R - 1) (sb_view (dy_block d))" "history_is prog R (R - 1) d" by simp_all
    have "R - 1 < length prog" using R(1) ring_indices(4) [OF ring] by simp
    then have "map fst (take R prog) = map fst (take (R - 1) prog) @ [fst (prog ! (R - 1))]"
      using R(1) take_Suc_conv_app_nth [of "R - 1" prog] by simp
    then have "history_is prog R R d'"
      using act SG_Await_Done R(2,3) by (auto simp: dyn_transfer_act_def Let_def sg_transfer_act_def history_is_def view_is_def split: if_splits)
    then show ?thesis using act SG_Await_Done sub
      by (intro exI [of _ R]) (auto simp: dyn_transfer_act_def Let_def sg_transfer_act_def split: if_splits)
  next
    case SG_Await_Compute
    then show ?thesis using act sub tr
      by (intro exI [of _ R]) (auto simp: dyn_transfer_act_def Let_def sg_transfer_act_def history_is_def split: if_splits)
  next
    case SG_Exit
    then show ?thesis using act by (simp add: dyn_transfer_act_def sg_transfer_act_def)
  qed
qed

section \<open>All steps\<close>

lemma dyn_handover:
  assumes "sg_inv (dy_block d)" "dyn_step prog d d'"
  shows "sg_inv (dy_block d')"
  using assms(2)
proof cases
  case dyn_transfer
  then show ?thesis using assms(1)
    by (cases "sb_transfer (dy_block d)"; cases "sb_compute (dy_block d)")
      (auto simp: dyn_transfer_act_def Let_def sg_transfer_act_def sg_inv_def split: if_splits)
next
  case (dyn_compute s)
  then have "sg_step (dy_block d) s" by (auto simp: sg_step_def sg_act_def intro!: exI [of _ SG_Compute])
  then show ?thesis using sg_inv_step [OF assms(1)] dyn_compute by simp
next
  case dyn_submit
  then have "dy_block d' = (dy_block d)\<lparr>sb_sq := sb_sq (dy_block d')\<rparr>"
    by (auto simp: dyn_submit_act_def submit_to_queue_def sg_alloc_entries_def sg_alloc_list_def Let_def split: submit_pc.splits if_splits)
  then have "sg_step (dy_block d) (dy_block d')"
    unfolding sg_step_def by (intro exI [of _ "SG_Elsewhere (sb_dq (dy_block d)) (sb_sq (dy_block d'))"]) (simp add: sg_act_def)
  then show ?thesis using sg_inv_step [OF assms(1)] by simp
next
  case (dyn_poller dq c dones)
  then have "sg_step (dy_block d) (dy_block d')"
    unfolding sg_step_def sg_act_def by (intro exI [of _ "SG_Elsewhere _ _"]) auto
  then show ?thesis using sg_inv_step [OF assms(1)] by simp
qed

lemma dyn_inv_step:
  assumes ok: "prog_ok prog" and inv: "dyn_inv prog d" and step: "dyn_step prog d d'"
  shows "dyn_inv prog d'"
proof -
  obtain R where sub: "sub_inv prog R (sb_sq (dy_block d)) (dy_at d)"
    and tr: "tr_inv prog R (committed_lists prog (dy_at d)) (sb_transfer (dy_block d)) d" using inv by (auto simp: dyn_inv_def)
  have "\<exists>R. sub_inv prog R (sb_sq (dy_block d')) (dy_at d') \<and> tr_inv prog R (committed_lists prog (dy_at d')) (sb_transfer (dy_block d')) d'"
    using step
  proof cases
    case dyn_transfer
    then show ?thesis using dyn_transfer_inv [OF ok _ sub tr] dyn_transfer_cases by simp
  next
    case (dyn_compute s)
    then have s: "sb_sq s = sb_sq (dy_block d)" "sb_transfer s = sb_transfer (dy_block d)" "sb_view s = sb_view (dy_block d)"
      "sb_arrived s = sb_arrived (dy_block d)"
      by (auto simp: sg_compute_act_def split: sg_compute_pc.splits if_splits)
    have "tr_inv prog R (committed_lists prog (dy_at d)) (sb_transfer (dy_block d)) d'"
      using tr by (rule tr_inv_frame [rotated -1]) (simp_all add: dyn_compute(1) s)
    then show ?thesis using sub dyn_compute(1) s by auto
  next
    case dyn_submit
    then have frame: "sb_view (dy_block d') = sb_view (dy_block d)" "sb_arrived (dy_block d') = sb_arrived (dy_block d)" "dy_sent d' = dy_sent d"
      "sb_transfer (dy_block d') = sb_transfer (dy_block d)"
      by (auto simp: dyn_submit_act_def submit_to_queue_def sg_alloc_entries_def sg_alloc_list_def Let_def split: submit_pc.splits if_splits)
    note s = dyn_submit_inv [OF ok dyn_submit sub]
    show ?thesis using s(1) tr_inv_frame [OF frame(1-3) s(2) tr] frame(4) by auto
  next
    case (dyn_poller dq c dones)
    have "sub_inv prog R (sb_sq (dy_block d')) (dy_at d)" 
      unfolding dyn_poller by (subst sub_inv_cong [where sq = "sb_sq (dy_block d)"]) (simp_all add: sub)
    moreover have "tr_inv prog R (committed_lists prog (dy_at d)) (sb_transfer (dy_block d)) d'"
      using tr by (rule tr_inv_frame [rotated -1]) (simp_all add: dyn_poller)
    ultimately show ?thesis using dyn_poller by auto
  qed
  then show ?thesis using dyn_handover [OF _ step] inv by (auto simp: dyn_inv_def)
qed

text \<open>A queue as \<open>SGWarpSpecSession\<close> sets it up.\<close>

definition fresh_sg_queue :: "SGTaskQueue \<Rightarrow> bool" where
  "fresh_sg_queue sq \<longleftrightarrow> list_alloc_idx sq = 0 \<and> entry_alloc_idx sq = 0 \<and> list_read_idx sq = 0 \<and> entry_consumed_idx sq = 0 \<and> \<not> sg_terminate sq
     \<and> (\<forall>k. list_sequence (sg_lists sq k) = 0)"

interpretation dynamic: step_invariant "dyn_step prog" "\<lambda>d. prog_ok prog \<and> (\<exists>dq sq. fresh_sg_queue sq \<and> d = dyn_start dq sq)"
  "\<lambda>d. prog_ok prog \<and> dyn_inv prog d" for prog
proof unfold_locales
  fix d assume "prog_ok prog \<and> (\<exists>dq sq. fresh_sg_queue sq \<and> d = dyn_start dq sq)"
  then obtain dq sq where "prog_ok prog" "fresh_sg_queue sq" "d = dyn_start dq sq" by blast
  then show "prog_ok prog \<and> dyn_inv prog d"
    by (auto simp: dyn_inv_def dyn_start_def sg_block_start_def sg_inv_def ring_inv_def fresh_sg_queue_def history_is_def offs_def MAX_SG_LISTS_def
        intro!: exI [of _ 0])
qed (use dyn_inv_step in blast)

section \<open>What the invariant gives\<close>

lemma dyn_order:
  assumes "dyn_inv prog d"
  shows "\<exists>m\<le>length prog. dy_sent d = take m prog" "\<exists>m. map lv_list_id (sb_computed (dy_block d)) = map fst (take m prog)"
    and "sb_transfer (dy_block d) = SG_Exit \<Longrightarrow> dy_sent d = prog \<and> map lv_list_id (sb_computed (dy_block d)) = map fst prog"
proof -
  obtain R where sub: "sub_inv prog R (sb_sq (dy_block d)) (dy_at d)"
    and tr: "tr_inv prog R (committed_lists prog (dy_at d)) (sb_transfer (dy_block d)) d" using assms by (auto simp: dyn_inv_def)
  have h: "\<exists>m n. history_is prog m n d" using tr by (cases "sb_transfer (dy_block d)") auto
  then obtain m n where mn: "dy_sent d = take m prog" "map lv_list_id (sb_arrived (dy_block d)) = map fst (take n prog)"
    by (auto simp: history_is_def)
  then show "\<exists>m\<le>length prog. dy_sent d = take m prog" by (intro exI [of _ "min m (length prog)"]) (simp add: min_def)
  have order: "sb_computed (dy_block d) = sb_arrived (dy_block d) \<or> sb_computed (dy_block d) = butlast (sb_arrived (dy_block d))"
    using sg_inv_order assms by (auto simp: dyn_inv_def)
  then show "\<exists>m. map lv_list_id (sb_computed (dy_block d)) = map fst (take m prog)"
  proof
    assume "sb_computed (dy_block d) = butlast (sb_arrived (dy_block d))"
    then have "map lv_list_id (sb_computed (dy_block d)) = butlast (map fst (take n prog))" by (simp add: map_butlast mn(2))
    also have "\<dots> = map fst (take (length (take n prog) - 1) prog)" by (auto simp: butlast_conv_take take_map min_def)
    finally show ?thesis by blast
  qed (use mn in auto)
  assume e: "sb_transfer (dy_block d) = SG_Exit"
  then have "sb_computed (dy_block d) = sb_arrived (dy_block d)" using assms by (simp add: dyn_inv_def sg_inv_def)
  then show "dy_sent d = prog \<and> map lv_list_id (sb_computed (dy_block d)) = map fst prog" using tr e by (simp add: history_is_def)
qed

lemma moe_prog_ok:
  assumes "n \<le> MAX_SG_POOL_ENTRIES" "experts < 2 ^ 32"
  shows "prog_ok (moe_lists routing n experts cpu gpu tsize)" (is "prog_ok ?prog")
proof -
  have flt: "length (filter P [0..<m]) \<le> m" for P m using length_filter_le [of P "[0..<m]"] by simp
  have "size (mset (concat (map snd ?prog))) \<le> n" unfolding moe_lists_tokens size_mset length_map by (rule flt)
  then have total: "length (concat (map snd ?prog)) \<le> n" by simp
  have "length (snd l) \<le> n" if "l \<in> set ?prog" for l
    using that by (auto simp: moe_lists_def flt)
  moreover have "length ?prog \<le> experts" by (simp add: moe_lists_def flt)
  ultimately show ?thesis using assms total by (fastforce simp: prog_ok_def offs_def MAX_SG_POOL_ENTRIES_def)
qed

text \<open>With nothing else in the ring, \<open>write_idx - read_idx\<close> is the size of the list itself.\<close>

lemma dyn_room_iff:
  assumes "unat n \<le> QUEUE_SIZE" "unat n \<le> unat (write_idx q - read_idx q)" "unat (write_idx q - read_idx q) \<le> QUEUE_SIZE"
  shows "dyn_room n q \<longleftrightarrow> unat (write_idx q - read_idx q) + 2 * unat n < QUEUE_SIZE \<or> QUEUE_SIZE < 2 * unat n"
proof -
  have Q: "unat (of_nat QUEUE_SIZE :: u32) = QUEUE_SIZE" by (simp add: QUEUE_SIZE_def)
  have "unat (n * 2) = 2 * unat n" using assms(1) by (simp add: unat_word_ariths QUEUE_SIZE_def)
  then have "unat (of_nat QUEUE_SIZE - n * 2) = (if 2 * unat n \<le> QUEUE_SIZE then QUEUE_SIZE - 2 * unat n else 2 ^ 32 + QUEUE_SIZE - 2 * unat n)"
    using Q by (simp add: unat_sub_if') linarith
  then show ?thesis using assms by (auto simp: dyn_room_def word_less_nat_alt unat_ucast_u32_u64 QUEUE_SIZE_def)
qed

end
