(* ===== verification/Example_Compute.thy ===== *)
theory Example_Compute
  imports Dynamic_Submit
begin

text \<open>
  What the compute warps of the examples do with the data: \<open>VectorReduce\<close> of \<open>07_warp_spec_simple.cu\<close> (the same in 08), \<open>MoECompute\<close> of
  \<open>09_sg_warp_spec.cu\<close>, and the baseline kernel of 07 that the specialised kernel is compared with. Floating-point numbers and
  their operations are parameters, so that equal results mean the same operations in the same order; \<open>m\<close> is the float at an address.
\<close>

section \<open>Arithmetic\<close>

record 'f float_ops =
  f_zero :: 'f
  f_add :: "'f \<Rightarrow> 'f \<Rightarrow> 'f"
  f_mul :: "'f \<Rightarrow> 'f \<Rightarrow> 'f"
  f_div :: "'f \<Rightarrow> 'f \<Rightarrow> 'f"
  f_of_int :: "int \<Rightarrow> 'f"
  f_eps :: 'f
  f_sqrt :: "'f \<Rightarrow> 'f"
  f_rsqrt :: "'f \<Rightarrow> 'f"
  f_sin :: "'f \<Rightarrow> 'f"

definition float_at :: "(u64 \<Rightarrow> 'f) \<Rightarrow> u64 \<Rightarrow> nat \<Rightarrow> 'f" where
  "float_at m p d = m (p + 4 * of_nat d)"

definition square_sum :: "'f float_ops \<Rightarrow> (u64 \<Rightarrow> 'f) \<Rightarrow> u64 \<Rightarrow> nat \<Rightarrow> 'f" where
  "square_sum ops m p n = fold (\<lambda>d sq_sum. f_add ops sq_sum (f_mul ops (float_at m p d) (float_at m p d))) [0..<n] (f_zero ops)"

definition token_value :: "'f float_ops \<Rightarrow> (u64 \<Rightarrow> 'f) \<Rightarrow> nat \<Rightarrow> u64 \<Rightarrow> 'f" where
  "token_value ops m token_dim token =
     (let rms_inv = f_rsqrt ops (f_add ops (f_div ops (square_sum ops m token token_dim) (f_of_int ops (int token_dim))) (f_eps ops))
      in fold (\<lambda>d acc. let normed = f_mul ops (float_at m token d) rms_inv in f_add ops acc (f_mul ops (f_sin ops normed) normed))
           [0..<token_dim] (f_zero ops))"

section \<open>The tile kernel's computation and its baseline\<close>

definition vector_reduce :: "'f float_ops \<Rightarrow> (u64 \<Rightarrow> 'f) \<Rightarrow> nat \<Rightarrow> ChunkView \<Rightarrow> (nat \<Rightarrow> 'f) \<Rightarrow> (nat \<Rightarrow> 'f)" where
  "vector_reduce ops m token_dim chunk =
     fold (\<lambda>i output. output(unat (cv_global_idx chunk (of_nat i)) := token_value ops m token_dim (cv_data chunk (of_nat i))))
       (warp_indices (unat (cv_size chunk)))"

text \<open>One block per tile. Warp 0 submits a chunk and waits for it, then the next; there is no test for room in the ring.\<close>

datatype baseline_pc = Base_Submit nat | Base_Await nat | Base_Compute

record BaselineBlock =
  bb_tq :: TiledQueue
  bb_at :: baseline_pc
  bb_seen :: "nat list"

inductive baseline_step :: "KernelArgs \<Rightarrow> u32 \<Rightarrow> BaselineBlock \<Rightarrow> BaselineBlock \<Rightarrow> bool" for ka tile_id where
  base_submit: "bb_at s = Base_Submit k \<Longrightarrow> k < K_of ka \<Longrightarrow> acquire_chunk_slots (ka_C ka) (bb_tq s) = (b, tq) \<Longrightarrow>
    baseline_step ka tile_id s (s\<lparr>bb_tq := submit_to ka b tile_id k tq, bb_at := Base_Await k\<rparr>)"
| base_await: "bb_at s = Base_Await k \<Longrightarrow> chunk_arrived ka tile_id k (bb_tq s) \<Longrightarrow>
    baseline_step ka tile_id s (s\<lparr>bb_at := Base_Submit (k + 1), bb_seen := bb_seen s @ [k]\<rparr>)"
| base_sync: "bb_at s = Base_Submit k \<Longrightarrow> K_of ka \<le> k \<Longrightarrow> baseline_step ka tile_id s (s\<lparr>bb_at := Base_Compute\<rparr>)"
| base_elsewhere: "baseline_step ka tile_id s (s\<lparr>bb_tq := tq\<rparr>)"

text \<open>\<open>global_idx * token_dim\<close> is a product of two \<open>int\<close>s.\<close>

definition baseline_compute :: "'f float_ops \<Rightarrow> (u64 \<Rightarrow> 'f) \<Rightarrow> nat \<Rightarrow> u64 \<Rightarrow> nat \<Rightarrow> nat \<Rightarrow> nat list \<Rightarrow> (nat \<Rightarrow> 'f) \<Rightarrow> (nat \<Rightarrow> 'f)" where
  "baseline_compute ops m token_dim gpu_buffer T tile_id threads =
     fold (\<lambda>tid output. if tid < T then let global_idx = tile_id * T + tid
         in output(global_idx := token_value ops m token_dim (gpu_buffer + 4 * scast (of_nat global_idx * of_nat token_dim :: u32))) else output) threads"

definition baseline_start :: "TiledQueue \<Rightarrow> BaselineBlock" where
  "baseline_start tq = \<lparr>bb_tq = tq, bb_at = Base_Submit 0, bb_seen = []\<rparr>"

fun baseline_ok :: "nat \<Rightarrow> baseline_pc \<Rightarrow> nat list \<Rightarrow> bool" where
  "baseline_ok K (Base_Submit k) seen \<longleftrightarrow> k \<le> K \<and> seen = [0..<k]"
| "baseline_ok K (Base_Await k) seen \<longleftrightarrow> k < K \<and> seen = [0..<k]"
| "baseline_ok K Base_Compute seen \<longleftrightarrow> seen = [0..<K]"

interpretation baseline: step_invariant "baseline_step ka tile_id" "\<lambda>s. \<exists>tq. s = baseline_start tq"
  "\<lambda>s. baseline_ok (K_of ka) (bb_at s) (bb_seen s)" for ka tile_id
proof unfold_locales
  show "baseline_ok (K_of ka) (bb_at s') (bb_seen s')" if "baseline_ok (K_of ka) (bb_at s) (bb_seen s)" "baseline_step ka tile_id s s'" for s s'
    using that(2,1) by cases auto
qed (auto simp: baseline_start_def)

lemma fold_stores:
  assumes "\<And>x. x \<in> set xs \<Longrightarrow> P x \<Longrightarrow> v x = g (f x)"
  shows "fold (\<lambda>x out. if P x then out(f x := v x) else out) xs out = (\<lambda>k. if k \<in> f ` {x \<in> set xs. P x} then g k else out k)"
  using assms
proof (induction xs arbitrary: out)
  case (Cons x xs)
  then have "fold (\<lambda>x out. if P x then out(f x := v x) else out) xs o' = (\<lambda>k. if k \<in> f ` {x \<in> set xs. P x} then g k else o' k)" for o' by simp
  with Cons.prems [of x] show ?case by (auto simp: fun_eq_iff)
qed simp

text \<open>What any sequence of such stores leaves when its parts cover an index set.\<close>

lemma fold_parts:
  assumes "\<And>x out. x \<in> set xs \<Longrightarrow> F x out = (\<lambda>k. if k \<in> I x then g k else out k)"
  shows "fold F xs out = (\<lambda>k. if k \<in> (\<Union>x\<in>set xs. I x) then g k else out k)"
  using assms by (induction xs arbitrary: out) (auto simp: fun_eq_iff)

definition token_of :: "'f float_ops \<Rightarrow> (u64 \<Rightarrow> 'f) \<Rightarrow> nat \<Rightarrow> u64 \<Rightarrow> nat \<Rightarrow> 'f" where
  "token_of ops m token_dim gpu_buffer k = token_value ops m token_dim (gpu_buffer + 4 * of_nat (k * token_dim))"

lemma scast_index: "k < 2 ^ 31 \<Longrightarrow> (scast (of_nat k :: u32) :: u64) = of_nat k"
proof -
  assume "k < 2 ^ 31"
  then have "sint (of_nat k :: u32) = int k" by (simp add: signed_of_nat signed_take_bit_int_eq_self)
  then have "(of_int (sint (of_nat k :: u32)) :: u64) = of_nat k" by simp
  then show "(scast (of_nat k :: u32) :: u64) = of_nat k" by simp
qed

lemma baseline_compute_writes:
  assumes "set threads = {..<width}" "T \<le> width" "(t * T + T) * dim \<le> 2 ^ 31"
  shows "baseline_compute ops m dim gpu T t threads out = (\<lambda>k. if k \<in> {t * T..<t * T + T} then token_of ops m dim gpu k else out k)"
proof -
  have img: "(\<lambda>tid. t * T + tid) ` {tid \<in> set threads. tid < T} = {t * T..<t * T + T}"
  proof -
    have "{tid \<in> set threads. tid < T} = {0..<T}" unfolding assms(1) using assms(2) by (auto simp: set_eq_iff)
    then show ?thesis using image_add_atLeastLessThan [of "t * T" 0 T] by (simp only: add_0_left add_0_right add.commute [of T])
  qed
  have "baseline_compute ops m dim gpu T t threads out
      = (\<lambda>k. if k \<in> (\<lambda>tid. t * T + tid) ` {tid \<in> set threads. tid < T} then token_of ops m dim gpu k else out k)"
    unfolding baseline_compute_def Let_def
  proof (rule fold_stores)
    fix tid assume "tid < T"
    then have "(t * T + tid + 1) * dim \<le> (t * T + T) * dim" by (intro mult_le_mono1) simp
    then have "(t * T + tid) * dim < 2 ^ 31" using assms(3) by (cases dim) auto
    then show "token_value ops m dim (gpu + 4 * scast (of_nat (t * T + tid) * of_nat dim :: u32)) = token_of ops m dim gpu (t * T + tid)"
      using scast_index [of "(t * T + tid) * dim"] by (simp add: token_of_def)
  qed
  then show ?thesis unfolding img .
qed

lemma chunk_addresses:
  assumes "ka_token_size ka = 4 * of_nat dim" "dim < 2 ^ 29" "unat (ka_T ka) = T" "unat (ka_C ka) = C" "unat t * T + c * C + i < 2 ^ 32"
  shows "unat (cv_global_idx (chunk_view ka t (of_nat c)) (of_nat i)) = unat t * T + c * C + i"
    and "cv_data (chunk_view ka t (of_nat c)) (of_nat i) = ka_gpu_buffer ka + 4 * of_nat ((unat t * T + c * C + i) * dim)"
proof -
  have w: "ka_T ka = of_nat T" "ka_C ka = of_nat C" using assms(3,4) by (simp_all flip: assms(3,4))
  have u: "(ucast (of_nat k :: u32) :: u64) = of_nat k" if "k < 2 ^ 32" for k
    using that by (simp add: word_unat_eq_iff unat_ucast_u32_u64 unat_of_nat_u32 unat_of_nat_u64)
  have g: "t * ka_T ka + of_nat c * ka_C ka = (of_nat (unat t * T + c * C) :: u32)" by (simp add: w)
  have ts: "ka_token_size ka = of_nat (4 * dim)" using assms(1) by simp
  show "unat (cv_global_idx (chunk_view ka t (of_nat c)) (of_nat i)) = unat t * T + c * C + i"
    using assms(5) unat_of_nat_u32 [of "unat t * T + c * C + i"] by (simp add: cv_global_idx_def chunk_view_def g flip: of_nat_add)
  have "cv_data (chunk_view ka t (of_nat c)) (of_nat i)
      = ka_gpu_buffer ka + of_nat (unat t * T + c * C) * of_nat (4 * dim) + of_nat i * of_nat (4 * dim)"
    unfolding cv_data_def chunk_view_def g ts using assms(2,5) by (simp add: u del: of_nat_mult of_nat_add)
  then show "cv_data (chunk_view ka t (of_nat c)) (of_nat i) = ka_gpu_buffer ka + 4 * of_nat ((unat t * T + c * C + i) * dim)"
    by (simp add: algebra_simps)
qed

lemma vector_reduce_writes:
  assumes "ka_token_size ka = 4 * of_nat dim" "dim < 2 ^ 29" "unat (ka_T ka) = T" "unat (ka_C ka) = C" "unat t * T + c * C + C \<le> 2 ^ 32"
  shows "vector_reduce ops m dim (chunk_view ka t (of_nat c)) out
    = (\<lambda>k. if k \<in> {unat t * T + c * C..<unat t * T + c * C + C} then token_of ops m dim (ka_gpu_buffer ka) k else out k)"
proof -
  let ?view = "chunk_view ka t (of_nat c)" let ?I = "{..<C}"
  have at: "unat (cv_global_idx ?view (of_nat i)) = unat t * T + c * C + i"
    "cv_data ?view (of_nat i) = ka_gpu_buffer ka + 4 * of_nat ((unat t * T + c * C + i) * dim)" if "i < C" for i
    using chunk_addresses [OF assms(1-4), of t c i] assms(5) that by simp_all
  have size: "unat (cv_size ?view) = C" using assms(4) by (simp add: chunk_view_def)
  have "vector_reduce ops m dim ?view out
      = fold (\<lambda>i out. if True then out(unat (cv_global_idx ?view (of_nat i)) := token_value ops m dim (cv_data ?view (of_nat i))) else out)
          (warp_indices C) out" by (simp add: vector_reduce_def size)
  also have "\<dots> = (\<lambda>k. if k \<in> (\<lambda>i. unat (cv_global_idx ?view (of_nat i))) ` {i \<in> set (warp_indices C). True}
      then token_of ops m dim (ka_gpu_buffer ka) k else out k)"
    by (rule fold_stores) (simp add: at token_of_def)
  also have "(\<lambda>i. unat (cv_global_idx ?view (of_nat i))) ` {i \<in> set (warp_indices C). True} = (\<lambda>i. (unat t * T + c * C) + i) ` {0..<C}"
    by (intro image_cong) (auto simp: at)
  also have "\<dots> = {unat t * T + c * C..<unat t * T + c * C + C}" using image_add_atLeastLessThan [of "unat t * T + c * C" 0 C] by (simp add: add.commute)
  finally show ?thesis .
qed

text \<open>All chunks of all tiles, in any order, against all tiles of the baseline.\<close>

lemma blocks_cover: "(\<Union>c<n. {a + c * k..<a + c * k + k}) = {a..<a + n * k}" for a k n :: nat
proof (induction n)
  case (Suc n)
  have "{a..<a + n * k} \<union> {a + n * k..<a + n * k + k} = {a..<a + n * k + k}" by (rule ivl_disj_un_two(3)) simp_all
  then show ?case using Suc by (simp add: lessThan_Suc Un_commute ac_simps)
qed simp

lemma baseline_writes_all:
  assumes "set threads = {..<width}" "T \<le> width" "tiles * T * dim \<le> 2 ^ 31"
  shows "fold (\<lambda>t. baseline_compute ops m dim gpu T t threads) [0..<tiles] out = (\<lambda>k. if k < tiles * T then token_of ops m dim gpu k else out k)"
proof -
  have "fold (\<lambda>t. baseline_compute ops m dim gpu T t threads) [0..<tiles] out
      = (\<lambda>k. if k \<in> (\<Union>t\<in>set [0..<tiles]. {t * T..<t * T + T}) then token_of ops m dim gpu k else out k)"
  proof (rule fold_parts)
    fix t out assume "t \<in> set [0..<tiles]"
    then have "(t * T + T) * dim \<le> tiles * T * dim" using mult_le_mono1 [of "Suc t" tiles T] by (intro mult_le_mono1) simp
    then show "baseline_compute ops m dim gpu T t threads out = (\<lambda>k. if k \<in> {t * T..<t * T + T} then token_of ops m dim gpu k else out k)"
      using assms(3) by (intro baseline_compute_writes [OF assms(1,2)]) (rule order.trans)
  qed
  moreover have "(\<Union>t\<in>set [0..<tiles]. {t * T..<t * T + T}) = {..<tiles * T}"
    using blocks_cover [of 0 T tiles] by (simp add: atLeast0LessThan)
  ultimately show ?thesis by (simp only: lessThan_iff)
qed

lemma vector_reduce_writes_all:
  assumes "ka_token_size ka = 4 * of_nat dim" "dim < 2 ^ 29" "unat (ka_C ka) = C" "unat (ka_T ka) = K * C" "tiles * (K * C) \<le> 2 ^ 32"
    and all: "set chunks = {(t, c). unat t < tiles \<and> c < K}" "tiles \<le> 2 ^ 32"
  shows "fold (\<lambda>(t, c). vector_reduce ops m dim (chunk_view ka t (of_nat c))) chunks out
    = (\<lambda>k. if k < tiles * (K * C) then token_of ops m dim (ka_gpu_buffer ka) k else out k)"
proof -
  let ?I = "\<lambda>x. {unat (fst x :: u32) * (K * C) + snd x * C..<unat (fst x) * (K * C) + snd x * C + C}"
  have "fold (\<lambda>(t, c). vector_reduce ops m dim (chunk_view ka t (of_nat c))) chunks out
    = (\<lambda>k. if k \<in> (\<Union>x\<in>set chunks. ?I x) then token_of ops m dim (ka_gpu_buffer ka) k else out k)"
  proof (rule fold_parts)
    fix x out assume "x \<in> set chunks"
    then obtain t c where x: "x = (t, c)" "unat t < tiles" "c < K" using all by auto
    have "c * C + C \<le> K * C" "unat t * (K * C) + K * C \<le> tiles * (K * C)"
      using mult_le_mono1 [of "Suc c" K C] mult_le_mono1 [of "Suc (unat t)" tiles "K * C"] x by simp_all
    then have "unat t * (K * C) + c * C + C \<le> 2 ^ 32" using assms(5) by linarith
    from vector_reduce_writes [OF assms(1,2,4,3) this]
    show "(case x of (t, c) \<Rightarrow> vector_reduce ops m dim (chunk_view ka t (of_nat c))) out
      = (\<lambda>k. if k \<in> ?I x then token_of ops m dim (ka_gpu_buffer ka) k else out k)" by (simp only: x prod.case fst_conv snd_conv)
  qed
  moreover have "(\<Union>x\<in>set chunks. ?I x) = {..<tiles * (K * C)}"
  proof -
    have "(\<Union>x\<in>set chunks. ?I x) = (\<Union>t\<in>{t :: u32. unat t < tiles}. \<Union>c<K. {unat t * (K * C) + c * C..<unat t * (K * C) + c * C + C})"
      unfolding all by fastforce
    also have "\<dots> = (\<Union>t\<in>{t :: u32. unat t < tiles}. {unat t * (K * C)..<unat t * (K * C) + K * C})" by (simp only: blocks_cover)
    also have "\<dots> = (\<Union>t\<in>unat ` {t :: u32. unat t < tiles}. {t * (K * C)..<t * (K * C) + K * C})" by simp
    also have "unat ` {t :: u32. unat t < tiles} = {..<tiles}"
    proof -
      have "t \<in> unat ` {t :: u32. unat t < tiles}" if "t < tiles" for t
        using that all(2) unat_of_nat_u32 [of t] by (intro image_eqI [of _ _ "of_nat t"]) simp_all
      then show ?thesis by auto
    qed
    finally show ?thesis using blocks_cover [of 0 "K * C" tiles] by (simp add: atLeast0LessThan)
  qed
  ultimately show ?thesis by (simp only: lessThan_iff)
qed

section \<open>Computing on lists\<close>

definition moe_norm :: "'f float_ops \<Rightarrow> (u64 \<Rightarrow> 'f) \<Rightarrow> DeviceSGEntry \<Rightarrow> 'f" where
  "moe_norm ops m e = f_sqrt ops (square_sum ops m (de_dst e) (unat (de_size e) div 4))"

definition moe_compute :: "'f float_ops \<Rightarrow> (u64 \<Rightarrow> 'f) \<Rightarrow> SGTaskQueue \<Rightarrow> SGListView \<Rightarrow> (nat \<Rightarrow> 'f) \<Rightarrow> (nat \<Rightarrow> 'f)" where
  "moe_compute ops m sq view =
     fold (\<lambda>i output. output(unat (lv_list_id view * lv_count view + of_nat i) := moe_norm ops m (get_entry sq view (of_nat i))))
       (warp_indices (unat (lv_count view)))"

definition moe_slots :: "u32 \<Rightarrow> u32 \<Rightarrow> nat set" where
  "moe_slots lid n = {unat lid * unat n..<unat lid * unat n + unat n}"

lemma moe_index:
  assumes "unat lid * unat n + unat n \<le> 2 ^ 32" "i < unat n"
  shows "unat (lid * n + of_nat i :: u32) = unat lid * unat n + i"
proof -
  have "lid * n + of_nat i = (of_nat (unat lid * unat n + i) :: u32)" by simp
  then show ?thesis using assms unat_of_nat_u32 [of "unat lid * unat n + i"] by simp
qed

text \<open>A list writes its own slots, one per entry.\<close>

lemma moe_compute_at:
  assumes "unat (lv_list_id v) * unat (lv_count v) + unat (lv_count v) \<le> 2 ^ 32"
  shows "i < unat (lv_count v) \<Longrightarrow> moe_compute ops m sq v out (unat (lv_list_id v) * unat (lv_count v) + i) = moe_norm ops m (get_entry sq v (of_nat i))"
    and "k \<notin> moe_slots (lv_list_id v) (lv_count v) \<Longrightarrow> moe_compute ops m sq v out k = out k"
proof -
  let ?b = "unat (lv_list_id v) * unat (lv_count v)"
  let ?g = "\<lambda>k. moe_norm ops m (get_entry sq v (of_nat (k - ?b)))"
  have idx: "unat (lv_list_id v * lv_count v + of_nat i) = ?b + i" if "i < unat (lv_count v)" for i using moe_index [OF assms that] .
  have "moe_compute ops m sq v out
      = fold (\<lambda>i out. if True then out(unat (lv_list_id v * lv_count v + of_nat i) := moe_norm ops m (get_entry sq v (of_nat i))) else out)
          (warp_indices (unat (lv_count v))) out" by (simp add: moe_compute_def)
  also have "\<dots> = (\<lambda>k. if k \<in> (\<lambda>i. unat (lv_list_id v * lv_count v + of_nat i)) ` {i \<in> set (warp_indices (unat (lv_count v))). True} then ?g k else out k)"
    by (rule fold_stores) (simp add: idx)
  also have "(\<lambda>i. unat (lv_list_id v * lv_count v + of_nat i)) ` {i \<in> set (warp_indices (unat (lv_count v))). True} = (\<lambda>i. ?b + i) ` {0..<unat (lv_count v)}"
    by (intro image_cong) (auto simp: idx)
  also have "\<dots> = moe_slots (lv_list_id v) (lv_count v)"
    using image_add_atLeastLessThan [of ?b 0 "unat (lv_count v)"] by (simp add: moe_slots_def add.commute)
  finally have eq: "moe_compute ops m sq v out = (\<lambda>k. if k \<in> moe_slots (lv_list_id v) (lv_count v) then ?g k else out k)" .
  show "i < unat (lv_count v) \<Longrightarrow> moe_compute ops m sq v out (?b + i) = moe_norm ops m (get_entry sq v (of_nat i))"
    unfolding eq by (simp add: moe_slots_def)
  show "k \<notin> moe_slots (lv_list_id v) (lv_count v) \<Longrightarrow> moe_compute ops m sq v out k = out k" unfolding eq by (simp only: if_False)
qed

text \<open>Lists of one length keep out of each other's slots.\<close>

lemma moe_slots_apart: "lid \<noteq> lid' \<Longrightarrow> moe_slots lid n \<inter> moe_slots lid' n = {}"
proof -
  have "k div unat n = unat lid" if "k \<in> moe_slots lid n" for k lid
  proof -
    from that have "k = unat lid * unat n + (k - unat lid * unat n)" "k - unat lid * unat n < unat n" by (auto simp: moe_slots_def)
    then obtain i where "k = unat lid * unat n + i" "i < unat n" by blast
    then show ?thesis by simp
  qed
  then show "lid \<noteq> lid' \<Longrightarrow> moe_slots lid n \<inter> moe_slots lid' n = {}" unfolding word_unat_eq_iff by (metis IntE equals0I)
qed

lemma moe_outputs:
  assumes "distinct (map lv_list_id vs)" "\<And>v. v \<in> set vs \<Longrightarrow> lv_count v = n \<and> unat (lv_list_id v) * unat n + unat n \<le> 2 ^ 32"
    and "v \<in> set vs" "i < unat n"
  shows "fold (moe_compute ops m sq) vs out (unat (lv_list_id v) * unat n + i) = moe_norm ops m (get_entry sq v (of_nat i))"
  using assms
proof (induction vs arbitrary: out rule: rev_induct)
  case (snoc w ws)
  show ?case
  proof (cases "v = w")
    case True
    then show ?thesis using moe_compute_at(1) [of w i] snoc.prems by simp
  next
    case False
    then have v: "v \<in> set ws" "lv_list_id v \<noteq> lv_list_id w" using snoc.prems(1,3) by (auto simp: image_iff)
    have "unat (lv_list_id v) * unat n + i \<in> moe_slots (lv_list_id v) n" using snoc.prems(4) by (simp add: moe_slots_def)
    then have "unat (lv_list_id v) * unat n + i \<notin> moe_slots (lv_list_id w) (lv_count w)"
      using moe_slots_apart [OF v(2), of n] snoc.prems(2) [of w] by auto
    then have "moe_compute ops m sq w out' (unat (lv_list_id v) * unat n + i) = out' (unat (lv_list_id v) * unat n + i)" for out'
      using snoc.prems(2) [of w] by (intro moe_compute_at(2)) simp_all
    then show ?thesis using snoc v by simp
  qed
qed simp

end
