(* ===== verification/Client_Properties.thy ===== *)
theory Client_Properties
  imports Spin_Barrier Token_Delivery Planned_Transfer Example_Compute Sg_Session Direct_Properties Polling_Properties
begin

text \<open>
  The properties of the programs under \<open>examples/\<close> that run their own kernels on top of the library: a descriptor followed from the
  kernel that writes it to the completion it waits for, a transfer planned on the GPU, and the barrier of the benchmark threads.
\<close>

section \<open>From the kernel to its completion\<close>

text \<open>C4: End to end: when the threads of a transfer kernel, in any interleaving of their writes and commits, publish up to a batch of
  descriptors at the read index, two iterations of the polling loop take all of them as one batch, copy them and announce them: the
  kernel's wait holds, every copy of the engine is settled, and outside the current staging buffer memory is as after copying the
  tokens one by one.\<close>

theorem tokens_delivered:
  assumes "all_succeed drv" "loop_ok L" "loop_batch L = []" "\<not> tiled_set (lp L)" "\<not> sg_set (lp L)"
    and "ta_base ka = read_idx (p_queue (lp L))" "0 < ta_num ka" "ta_num ka \<le> BATCH_THRESHOLD_SMALL"
    and "sequence (entry_at (ta_base ka + of_nat (ta_num ka)) (p_queue (lp L))) \<noteq> ta_base ka + of_nat (ta_num ka) + 1"
    and "interleaved n acts" "ta_num ka \<le> n" "batch_ok (lp L) (token_entries ka)"
    and "L' = poll_iteration drv silent (poll_iteration drv silent (queue_env (fold (token_act data_of ka) acts) L))"
  shows "wait_for_completion (ta_base ka + of_nat (ta_num ka)) (p_queue (lp L')) \<and> all_settled (lp L')
    \<and> (\<forall>a. a \<notin> region (staging_bufs (lp L) (staging_cur (lp L))) (unat (staging_buffer_size (lp L))) \<longrightarrow>
         after_dma (lp L) (lp L') a = dmas (token_entries ka) (p_mem (lp L)) a)"
  using tokens_delivered_lemma [OF assms] by blast

definition token_loop :: PollLoop where
  "token_loop = example_loop\<lparr>lp := example_poller\<lparr>tiled_set := False\<rparr>, loop_batch := []\<rparr>"

definition one_token :: TransferArgs where
  "one_token = \<lparr>ta_tokens = (\<lambda>_. \<lparr>cpu_addr = 100, token_id = 0, expert_id = 0\<rparr>), ta_buffer = 4096, ta_num = 1, ta_size = 4, ta_base = 0\<rparr>"

lemma token_loop_ok: "loop_ok token_loop"
  using example_loop_ok by (simp add: loop_ok_def token_loop_def example_loop_def poller_ok_def events_apart_def ce_mode_def BATCH_THRESHOLD_def)
    (simp add: example_poller_def)

lemma one_token_batch: "batch_ok (lp token_loop) (token_entries one_token)"
  by (auto simp: batch_ok_def separate_def dst_disjoint_def src_dst_disjoint_def dst_no_wrap_def staging_apart_def token_entries_def
      one_token_def token_loop_def example_poller_def intro!: region_apart_either)

theorem tokens_delivered_witness:
  "wait_for_completion 1 (p_queue (lp (poll_iteration example_driver silent (poll_iteration example_driver silent
     (queue_env (fold (token_act fused_payload one_token) [Write_Desc 0, Commit_Desc 0]) token_loop)))))"
proof -
  have q: "p_queue (lp token_loop) = empty_queue" by (simp add: token_loop_def example_poller_def)
  have k: "ta_base one_token = 0" "ta_num one_token = 1" by (simp_all add: one_token_def)
  have "loop_batch token_loop = []" "\<not> tiled_set (lp token_loop)" "\<not> sg_set (lp token_loop)"
    by (simp_all add: token_loop_def example_poller_def)
  from tokens_delivered [OF example_driver_ok token_loop_ok this _ _ _ _ _ _ one_token_batch refl, of 1 "[Write_Desc 0, Commit_Desc 0]" fused_payload]
  show ?thesis by (simp add: q k empty_queue_def entry_at_def BATCH_THRESHOLD_SMALL_def interleaved_def)
qed

text \<open>C37: The fused kernel lets only the first thread of the grid wait and relies on \<open>__syncthreads\<close> to hold back the others, which joins the
  threads of one block. In every reachable state the threads of the first block have read transferred data only after the
  completion was seen; but in a launch of more than one block the first thread of the second block can read its token while
  \<open>done_idx\<close> still has its value from before the launch.\<close>

theorem fused_kernel_waits_in_first_block_only:
  assumes "2 \<le> blocks" "0 < dim" "dim < ta_num ka"
  shows "(\<forall>s. (fused_step ka blocks dim)\<^sup>*\<^sup>* (grid_start q) s \<longrightarrow> (\<forall>t\<in>set (tg_used s). t < dim \<longrightarrow> tg_seen s))
    \<and> (\<exists>s. (fused_step ka blocks dim)\<^sup>*\<^sup>* (grid_start q) s \<and> dim \<in> set (tg_used s) \<and> \<not> tg_seen s \<and> done_idx (tg_queue s) = done_idx q)"
proof (intro conjI allI impI)
  show "\<forall>t\<in>set (tg_used s). t < dim \<longrightarrow> tg_seen s" if "(fused_step ka blocks dim)\<^sup>*\<^sup>* (grid_start q) s" for s
    using first_block.inv_reach [OF that] by (auto simp: first_block_inv_def)
qed (use second_block_reads_early [OF assms, of q] in auto)

theorem fused_kernel_waits_in_first_block_only_witness:
  "\<exists>s. (fused_step (one_token\<lparr>ta_num := 1024\<rparr>) 4 256)\<^sup>*\<^sup>* (grid_start empty_queue) s \<and> 256 \<in> set (tg_used s)
     \<and> \<not> tg_seen s \<and> done_idx (tg_queue s) = 0"
proof -
  have "(256 :: nat) < ta_num (one_token\<lparr>ta_num := 1024\<rparr>)" by simp
  from fused_kernel_waits_in_first_block_only [OF _ _ this, of 4 empty_queue] show ?thesis by (simp add: empty_queue_def)
qed

section \<open>A transfer planned on the GPU\<close>

text \<open>C9: The planned transfer as a whole: after any finished run of the compaction kernel the array holds each token routed to the expert
  exactly once; the entries that the second kernel builds from it, in any order of its threads, pass through \<open>submit_direct\<close>; and
  the verification kernel finds every byte of every token in place.\<close>

theorem planned_transfer_verifies:
  assumes "all_succeed drv" "ce_wf (direct_ce obj)"
    and "(plan_step rt num ex threads)\<^sup>*\<^sup>* (plan_start ids0) s" "plan_final threads s" "num \<le> threads"
    and "n = card {t. t < num \<and> rt t = ex}" "plan_layout gpu cpu T stride n num obj"
    and "p_mem (po obj) = fill_tokens cpu (int T) (int stride) num m0"
    and "set order = {..<width}" "set order' = {..<width}" "n \<le> width"
    and "submit_direct drv (build_sg (plan_ids s) (plan_counter s) gpu cpu (int T) (int stride) order out) obj = (ok, obj')"
  shows "distinct (planned_ids s) \<and> set (planned_ids s) = {t. t < num \<and> rt t = ex}
    \<and> verify_kernel (after_dma (po obj) (po obj')) gpu (plan_ids s) (plan_counter s) (of_nat T) order' = 0"
proof -
  have inv: "plan_inv rt num ex threads s" using planning.inv_reach [OF assms(3)] by blast
  note r = plan_result [OF inv assms(4,5)]
  have "plan_counter s = length (planned_ids s)" by (simp add: planned_ids_def)
  then have n: "plan_counter s = n" using distinct_card [OF r(1)] unfolding assms(6) r(2) by simp
  have ids: "plan_ids s i < num" if "i < n" for i
  proof -
    have "plan_ids s i \<in> set (planned_ids s)" using that by (simp add: planned_ids_def n)
    then show ?thesis unfolding r(2) by simp
  qed
  have sub: "submit_direct drv (map (plan_entry (plan_ids s) gpu cpu T stride) [0..<n]) obj = (ok, obj')"
    using assms(12) unfolding n build_sg_entries [OF assms(9,11)] .
  have "verify_kernel (after_dma (po obj) (po obj')) gpu (plan_ids s) n (of_nat T) order' = 0"
    using assms(1,2,7) ids assms(8) sub assms(10,11) by (rule planned_entries_verify)
  with r show ?thesis unfolding n by blast
qed

definition planning_caller :: PollerObject where
  "planning_caller = direct_caller\<lparr>po := example_poller\<lparr>p_mem := fill_tokens 1000 4 2 1 (\<lambda>_. 9)\<rparr>\<rparr>"

theorem planned_transfer_verifies_witness:
  "\<exists>s. (plan_step (\<lambda>_. 3) 1 3 1)\<^sup>*\<^sup>* (plan_start (\<lambda>_. 7)) s \<and> planned_ids s = [0] \<and>
     verify_kernel (after_dma (po planning_caller) (po (snd (submit_direct example_driver
       (build_sg (plan_ids s) (plan_counter s) 4096 1000 4 2 [0] (\<lambda>_. example_entry)) planning_caller)))) 4096 (plan_ids s) (plan_counter s) 4 [0] = 0"
proof -
  let ?s0 = "plan_start (\<lambda>_. 7)"
  let ?s1 = "?s0\<lparr>plan_counter := 1, plan_claimed := [0], plan_at := (plan_at ?s0)(0 := Plan_Slot 0)\<rparr>"
  let ?s2 = "?s1\<lparr>plan_ids := (plan_ids ?s1)(0 := 0), plan_at := (plan_at ?s1)(0 := Plan_Done)\<rparr>"
  have "plan_step (\<lambda>_. 3) 1 3 1 ?s0 ?s1" "plan_step (\<lambda>_. 3) 1 3 1 ?s1 ?s2" by (simp_all add: plan_step_def plan_compact_def plan_start_def)
  then have run: "(plan_step (\<lambda>_. 3) 1 3 1)\<^sup>*\<^sup>* ?s0 ?s2" by simp
  have fin: "plan_final 1 ?s2" by (simp add: plan_final_def)
  have wf: "ce_wf (direct_ce planning_caller)" using example_engine_wf by (simp add: planning_caller_def direct_caller_fields)
  have n: "1 = card {t. t < (1 :: nat) \<and> (3 :: int) = 3}" by simp
  have lay: "plan_layout 4096 1000 4 2 1 1 planning_caller"
    by (auto simp: plan_layout_def Let_def planning_caller_def example_poller_def intro!: region_apart_either)
  have mem: "p_mem (po planning_caller) = fill_tokens 1000 (int 4) (int 2) 1 (\<lambda>_. 9)" by (simp add: planning_caller_def)
  obtain ok obj' where sub: "submit_direct example_driver
      (build_sg (plan_ids ?s2) (plan_counter ?s2) 4096 1000 (int 4) (int 2) [0] (\<lambda>_. example_entry)) planning_caller = (ok, obj')" by fastforce
  have one: "set [0 :: nat] = {..<1}" by auto
  from planned_transfer_verifies [OF example_driver_ok wf run fin order.refl n lay mem one one order.refl sub] sub run
  show ?thesis by (intro exI [of _ ?s2]) (simp add: planned_ids_def)
qed

section \<open>The barrier of the benchmark threads\<close>

text \<open>C21: \<open>SpinBarrier\<close> is a barrier that can be used again and again: in every reachable state no thread has come out of its \<open>k\<close>-th
  wait before every thread has entered its \<open>k\<close>-th, no thread is a whole round behind another, and when all threads are inside at least one
  of them can move.\<close>

theorem barrier_separates_rounds:
  assumes "barrier_step\<^sup>*\<^sup>* (new_barrier n) s" "t < n" "u < n"
  shows "passes s t \<le> waits s u \<and> passes s t \<le> passes s u + 1
    \<and> ((\<forall>v<n. barrier_at s v \<noteq> Outside) \<longrightarrow> (\<exists>v<n. barrier_wait v s \<noteq> None))"
proof -
  have inv: "barrier_inv s" using barrier.inv_reach [OF assms(1)] by blast
  have n: "barrier_count s = n" using barrier_count_reach [OF assms(1)] by (simp add: new_barrier_def)
  note r = barrier_rounds [OF inv]
  have "passes s t \<le> waits s u" "passes s t \<le> passes s u + 1"
    using r(1) [of t] r(2,3) [of u] assms(2,3) n by linarith+
  moreover have "\<exists>v<n. barrier_wait v s \<noteq> None" if "\<forall>v<n. barrier_at s v \<noteq> Outside"
    using barrier_progress [OF inv] that assms(2) n by simp
  ultimately show ?thesis by blast
qed

theorem barrier_separates_rounds_witness:
  "\<exists>s. barrier_step\<^sup>*\<^sup>* (new_barrier 2) s \<and> waits s 0 = 1 \<and> waits s 1 = 0 \<and> passes s 0 = 0"
proof -
  let ?s = "the (barrier_enter 0 (new_barrier 2))"
  have "barrier_enter 0 (new_barrier 2) = Some ?s" by (simp add: barrier_enter_def new_barrier_def)
  then have "barrier_step (new_barrier 2) ?s"
    unfolding barrier_step_def by (intro exI [of _ 0] conjI disjI1) (simp_all add: new_barrier_def)
  then have run: "barrier_step\<^sup>*\<^sup>* (new_barrier 2) ?s" by simp
  have w: "waits ?s 0 = 1" "waits ?s 1 = 0" by (simp_all add: barrier_enter_def new_barrier_def)
  from barrier_separates_rounds [OF run, of 0 1] have "passes ?s 0 = 0" using w by simp
  with run w show ?thesis by blast
qed

section \<open>Lists submitted by the kernel itself\<close>

text \<open>C5: The submitting kernel under every interleaving of its three warps and the polling thread: what warp 0 has turned into descriptors is
  a prefix of what warp 2 set out to submit, identifier and entries alike, so no list is lost, repeated, reordered or overwritten in
  the rings while both warps reuse them; lists are computed in that order; and warp 0 leaves only after all of them.\<close>

theorem dynamic_lists_in_order:
  assumes "prog_ok prog" "fresh_sg_queue sq" "(dyn_step prog)\<^sup>*\<^sup>* (dyn_start dq sq) d"
  shows "(\<exists>m\<le>length prog. dy_sent d = take m prog) \<and> (\<exists>m. map lv_list_id (sb_computed (dy_block d)) = map fst (take m prog))
    \<and> (sb_transfer (dy_block d) = SG_Exit \<longrightarrow> dy_sent d = prog \<and> map lv_list_id (sb_computed (dy_block d)) = map fst prog)"
proof -
  have "dyn_inv prog d" using dynamic.inv_reach [OF assms(3)] assms(1,2) by blast
  then show ?thesis using dyn_order by blast
qed

definition one_list :: submission where
  "one_list = moe_lists (\<lambda>_. 0) 1 1 100 4096 4"

definition one_list_run :: "dyn_action list" where
  "one_list_run = [Dyn_Submit, Dyn_Submit, Dyn_Submit, Dyn_Submit, Dyn_Submit, Dyn_Submit, Dyn_Submit, Dyn_Transfer, Dyn_Transfer, Dyn_Transfer,
     Dyn_Transfer, Dyn_Transfer, Dyn_Poller empty_queue 1 (Some (\<lambda>_. 1)), Dyn_Transfer, Dyn_Compute, Dyn_Compute, Dyn_Compute, Dyn_Compute,
     Dyn_Transfer, Dyn_Submit, Dyn_Transfer, Dyn_Transfer]"

lemma one_list_simp: "one_list = [(0, [moe_entry 100 4096 4 0 0])]"
  by (simp add: one_list_def moe_lists_def expert_count_def)

lemma one_list_finishes:
  "\<exists>d. dyn_run one_list one_list_run (dyn_start empty_queue zero_sg_queue) = Some d \<and> sb_transfer (dy_block d) = SG_Exit"
  by (simp add: one_list_simp one_list_run_def dyn_start_def sg_block_start_def dyn_submit_act_def submit_to_queue_def sg_alloc_entries_def
      sg_alloc_list_def sg_wait_entry_space_def sg_wait_list_space_def sg_commit_list_def set_list_def list_slot_def stored_def store_entry_def
      zero_sg_queue_def MAX_SG_POOL_ENTRIES_def MAX_SG_LISTS_def dyn_transfer_act_def sg_transfer_act_def sg_compute_act_def list_committed_def
      view_of_def dyn_room_def empty_queue_def sg_consume_def list_signalled_def sg_wait_list_id_done_def QUEUE_SIZE_def Let_def)

lemma zero_queue_fresh: "fresh_sg_queue zero_sg_queue"
  by (simp add: fresh_sg_queue_def zero_sg_queue_def)

theorem dynamic_lists_in_order_witness:
  "\<exists>d. (dyn_step one_list)\<^sup>*\<^sup>* (dyn_start empty_queue zero_sg_queue) d \<and> dy_sent d = one_list \<and> map lv_list_id (sb_computed (dy_block d)) = [0]"
proof -
  obtain d where d: "(dyn_step one_list)\<^sup>*\<^sup>* (dyn_start empty_queue zero_sg_queue) d" "sb_transfer (dy_block d) = SG_Exit"
    using one_list_finishes dyn_run_reach by blast
  have "prog_ok one_list" unfolding one_list_def by (rule moe_prog_ok) (simp_all add: MAX_SG_POOL_ENTRIES_def)
  from dynamic_lists_in_order [OF this zero_queue_fresh d(1)] d show ?thesis by (auto simp: one_list_simp)
qed

text \<open>C19: What that means for the routing table: when warp 0 has left, the entries that it has turned into descriptors of the ring are, as a multiset, one entry per
  token that is routed to an existing expert, from its place in host memory to its place in device memory, and no others.\<close>

theorem dynamic_kernel_routes_tokens:
  assumes "n \<le> MAX_SG_POOL_ENTRIES" "experts < 2 ^ 32" "fresh_sg_queue sq"
    and "(dyn_step (moe_lists routing n experts cpu gpu tsize))\<^sup>*\<^sup>* (dyn_start dq sq) d" "sb_transfer (dy_block d) = SG_Exit"
  shows "mset (concat (map snd (dy_sent d)))
    = mset (map (\<lambda>t. moe_entry cpu gpu tsize (routing t) t) (filter (\<lambda>t. 0 \<le> routing t \<and> routing t < int experts) [0..<n]))"
proof -
  have ok: "prog_ok (moe_lists routing n experts cpu gpu tsize)" using assms(1,2) by (rule moe_prog_ok)
  have "dyn_inv (moe_lists routing n experts cpu gpu tsize) d" using dynamic.inv_reach [OF assms(4)] ok assms(3) by blast
  then have "dy_sent d = moe_lists routing n experts cpu gpu tsize" using dyn_order(3) assms(5) by blast
  then show ?thesis by (simp only: moe_lists_tokens)
qed

theorem dynamic_kernel_routes_tokens_witness:
  "\<exists>d. (dyn_step one_list)\<^sup>*\<^sup>* (dyn_start empty_queue zero_sg_queue) d \<and> mset (concat (map snd (dy_sent d))) = {#moe_entry 100 4096 4 0 0#}"
proof -
  obtain d where d: "(dyn_step one_list)\<^sup>*\<^sup>* (dyn_start empty_queue zero_sg_queue) d" "sb_transfer (dy_block d) = SG_Exit"
    using one_list_finishes dyn_run_reach by blast
  from dynamic_kernel_routes_tokens [OF _ _ zero_queue_fresh d(1) [unfolded one_list_def] d(2)] d(1) show ?thesis
    by (auto simp: MAX_SG_POOL_ENTRIES_def)
qed

text \<open>The guard for room in the descriptor ring, which the submitting kernel evaluates after it has moved \<open>write_idx\<close>: with nothing else in
  the ring it holds exactly for lists of at most 5461 entries, as if a third of the ring were the limit, and again for more than
  8192, where the subtraction wraps around; for the lengths in between it never holds and the kernel waits for ever.\<close>

theorem dynamic_room_guard:
  assumes "unat n \<le> QUEUE_SIZE" "unat n \<le> unat (write_idx q - read_idx q)" "unat (write_idx q - read_idx q) \<le> QUEUE_SIZE"
  shows "(unat (write_idx q - read_idx q) = unat n \<longrightarrow> (dyn_room n q \<longleftrightarrow> unat n \<le> 5461 \<or> 8192 < unat n))
    \<and> (5461 < unat n \<and> unat n \<le> 8192 \<longrightarrow> \<not> dyn_room n q)"
  using dyn_room_iff [OF assms] assms by (auto simp: QUEUE_SIZE_def)

theorem dynamic_room_guard_witness: "\<not> dyn_room 6000 (empty_queue\<lparr>write_idx := 6000\<rparr>) \<and> dyn_room 9000 (empty_queue\<lparr>write_idx := 9000\<rparr>)"
  using dynamic_room_guard [of 6000 "empty_queue\<lparr>write_idx := 6000\<rparr>"] dynamic_room_guard [of 9000 "empty_queue\<lparr>write_idx := 9000\<rparr>"]
  by (simp add: empty_queue_def QUEUE_SIZE_def)

text \<open>C36: The entries of a list can be replaced before it is computed: warp 0 gives them back when it has made descriptors of them, although
  the compute warp reads them through its view later. After a list as long as the pool, the next submission passes every guard, and
  the view of the first list then shows the entries of the second.\<close>

theorem freed_entries_are_reused:
  assumes "entry_alloc_idx sq = 0" "entry_consumed_idx sq = 0" "list_read_idx sq = list_alloc_idx sq"
    and "sg_submit_list es (of_nat MAX_SG_POOL_ENTRIES) lid fl sq = Some (slot, sq1)" "v = view_of (sg_lists sq1 (list_slot slot))"
    and "sq2 = sg_consume (lv_pool_offset v) (lv_count v) ((set_list slot (\<lambda>l. l\<lparr>list_sequence := 0\<rparr>) sq1)\<lparr>list_read_idx := slot + 1\<rparr>)"
    and "unat n \<le> MAX_SG_POOL_ENTRIES"
  shows "\<exists>slot' sq3. sg_submit_list es' n lid' fl' sq2 = Some (slot', sq3) \<and> (\<forall>i<unat n. get_entry sq3 v (of_nat i) = es' i)"
proof -
  note sub = sg_submit_list_Some [OF assms(4)]
  have v: "lv_pool_offset v = 0" "lv_count v = of_nat MAX_SG_POOL_ENTRIES"
    using sg_commit_list_header(2,3) [OF sub(2)] by (simp_all add: assms(1,5) view_of_def MAX_SG_POOL_ENTRIES_def)
  have idx: "entry_alloc_idx sq2 = of_nat MAX_SG_POOL_ENTRIES" "entry_consumed_idx sq2 = of_nat MAX_SG_POOL_ENTRIES"
    "list_alloc_idx sq2 = slot + 1" "list_read_idx sq2 = slot + 1"
    unfolding assms(6) v sub(2)
    by (simp_all add: sg_consume_def Let_def sg_commit_list_def sg_write_entries_stored assms(1,2) sub(1) MAX_SG_POOL_ENTRIES_def)
  have space: "sg_wait_entry_space sq2 n" "sg_wait_list_space sq2"
    using sg_wait_entry_space_fits [OF assms(7), of sq2] assms(7) by (simp_all add: idx sg_wait_list_space_def MAX_SG_LISTS_def)
  then have "sg_submit_list es' n lid' fl' sq2 \<noteq> None" by (simp add: sg_submit_list_def Let_def split: prod.split)
  then obtain slot' sq3 where s3: "sg_submit_list es' n lid' fl' sq2 = Some (slot', sq3)" by auto
  have "get_entry sq3 v (of_nat i) = es' i" if "i < unat n" for i
    using list_entry_written [OF assms(7) that, of "of_nat MAX_SG_POOL_ENTRIES :: u64" es' "sq2\<lparr>entry_alloc_idx := entry_alloc_idx sq2 + ucast n\<rparr>"]
    unfolding get_entry_def v sg_submit_list_Some(2) [OF s3] idx by (simp add: list_entry_def MAX_SG_POOL_ENTRIES_def)
  with s3 show ?thesis by blast
qed

theorem freed_entries_are_reused_witness:
  "\<exists>sq1 slot' sq3 v. sg_submit_list (\<lambda>_. moe_entry 1 2 3 4 5) (of_nat MAX_SG_POOL_ENTRIES) 0 0 zero_sg_queue = Some (0, sq1)
     \<and> v = view_of (sg_lists sq1 0)
     \<and> sg_submit_list (\<lambda>_. moe_entry 6 7 8 9 10) 1 0 0
         (sg_consume (lv_pool_offset v) (lv_count v) ((set_list 0 (\<lambda>l. l\<lparr>list_sequence := 0\<rparr>) sq1)\<lparr>list_read_idx := 1\<rparr>)) = Some (slot', sq3)
     \<and> get_entry sq3 v 0 = moe_entry 6 7 8 9 10"
proof -
  let ?z = "zero_sg_queue" let ?N = "of_nat MAX_SG_POOL_ENTRIES :: u32"
  have z: "entry_alloc_idx ?z = 0" "entry_consumed_idx ?z = 0" "list_read_idx ?z = list_alloc_idx ?z" "list_alloc_idx ?z = 0"
    by (simp_all add: zero_sg_queue_def)
  have "sg_wait_entry_space ?z ?N" "sg_wait_list_space ?z" by (simp_all add: sg_wait_entry_space_def sg_wait_list_space_def z MAX_SG_LISTS_def)
  then have "sg_submit_list (\<lambda>_. moe_entry 1 2 3 4 5) ?N 0 0 ?z \<noteq> None" by (simp add: sg_submit_list_def Let_def split: prod.split)
  then obtain slot sq1 where s1: "sg_submit_list (\<lambda>_. moe_entry 1 2 3 4 5) ?N 0 0 ?z = Some (slot, sq1)" by auto
  have slot: "slot = 0" using sg_submit_list_Some(1) [OF s1] z by simp
  have ls: "list_slot slot = 0" using slot by (simp add: list_slot_def)
  have one: "unat (1 :: u32) \<le> MAX_SG_POOL_ENTRIES" by (simp add: MAX_SG_POOL_ENTRIES_def)
  from freed_entries_are_reused [OF z(1-3) s1 refl refl one, of "\<lambda>_. moe_entry 6 7 8 9 10" 0 0]
  obtain slot' sq3 where s3: "sg_submit_list (\<lambda>_. moe_entry 6 7 8 9 10) 1 0 0 (sg_consume (lv_pool_offset (view_of (sg_lists sq1 0)))
      (lv_count (view_of (sg_lists sq1 0))) ((set_list 0 (\<lambda>l. l\<lparr>list_sequence := 0\<rparr>) sq1)\<lparr>list_read_idx := 1\<rparr>)) = Some (slot', sq3)"
    "\<forall>i<unat (1 :: u32). get_entry sq3 (view_of (sg_lists sq1 0)) (of_nat i) = moe_entry 6 7 8 9 10"
    unfolding ls unfolding slot by auto
  then have "get_entry sq3 (view_of (sg_lists sq1 0)) 0 = moe_entry 6 7 8 9 10" by simp
  with s1 s3(1) slot show ?thesis by blast
qed

section \<open>What the compute warps leave\<close>

text \<open>C20: The specialised kernel and the baseline it is measured against compute the same: whatever the order in which the blocks get
  through the chunks of all tiles, \<open>VectorReduce\<close> on their views leaves the output that the baseline's threads leave tile by tile, by the
  same floating-point operations on the same addresses (as long as the baseline's 32-bit index does not overflow); and a baseline block computes after it has seen every chunk of its tile.\<close>

theorem specialised_kernel_matches_baseline:
  assumes "ka_token_size ka = 4 * of_nat dim" "dim < 2 ^ 29" "unat (ka_T ka) = K_of ka * unat (ka_C ka)"
    and "tiles * unat (ka_T ka) \<le> 2 ^ 32" "tiles \<le> 2 ^ 32" "set chunks = {(t, c). unat t < tiles \<and> c < K_of ka}"
    and "set threads = {..<width}" "unat (ka_T ka) \<le> width" "tiles * unat (ka_T ka) * dim \<le> 2 ^ 31"
  shows "fold (\<lambda>(t, c). vector_reduce ops m dim (chunk_view ka t (of_nat c))) chunks out
      = fold (\<lambda>t. baseline_compute ops m dim (ka_gpu_buffer ka) (unat (ka_T ka)) t threads) [0..<tiles] out
    \<and> (\<forall>tile tq s. (baseline_step ka tile)\<^sup>*\<^sup>* (baseline_start tq) s \<and> bb_at s = Base_Compute \<longrightarrow> bb_seen s = [0..<K_of ka])"
proof
  show "fold (\<lambda>(t, c). vector_reduce ops m dim (chunk_view ka t (of_nat c))) chunks out
      = fold (\<lambda>t. baseline_compute ops m dim (ka_gpu_buffer ka) (unat (ka_T ka)) t threads) [0..<tiles] out"
    using vector_reduce_writes_all [OF assms(1,2) refl assms(3) assms(4) [unfolded assms(3)] assms(6,5), folded assms(3)]
      baseline_writes_all [OF assms(7-9), symmetric] by (rule trans)
  show "\<forall>tile tq s. (baseline_step ka tile)\<^sup>*\<^sup>* (baseline_start tq) s \<and> bb_at s = Base_Compute \<longrightarrow> bb_seen s = [0..<K_of ka]"
    using baseline.inv_reach by (metis baseline_ok.simps(3))
qed

definition one_tile :: KernelArgs where
  "one_tile = \<lparr>ka_C = 2, ka_K = 1, ka_T = 2, ka_total_tiles = 1, ka_token_size = 4, ka_gpu_buffer = 4096, ka_cpu_base = 100\<rparr>"

definition int_ops :: "int float_ops" where
  "int_ops = \<lparr>f_zero = 0, f_add = (+), f_mul = (*), f_div = (div), f_of_int = (\<lambda>n. n), f_eps = 1, f_sqrt = (\<lambda>x. x), f_rsqrt = (\<lambda>x. x), f_sin = (\<lambda>x. x)\<rparr>"

theorem specialised_kernel_matches_baseline_witness:
  "fold (\<lambda>(t, c). vector_reduce int_ops uint 1 (chunk_view one_tile t (of_nat c))) [(0, 0)] (\<lambda>_. 0)
   = fold (\<lambda>t. baseline_compute int_ops uint 1 4096 2 t [1, 0]) [0] (\<lambda>_. 0)"
proof -
  have "set [(0 :: u32, 0 :: nat)] = {(t, c). unat t < 1 \<and> c < K_of one_tile}" by (auto simp: K_of_def one_tile_def unat_eq_0)
  moreover have "set [1, 0] = {..<2 :: nat}" by auto
  ultimately show ?thesis
    using specialised_kernel_matches_baseline [THEN conjunct1, of one_tile 1 1 "[(0, 0)]" "[1, 0]" 2 int_ops uint "\<lambda>_. 0"]
    by (simp add: one_tile_def K_of_def)
qed

text \<open>\<open>MoECompute\<close> writes the norm of entry \<open>i\<close> of a list to slot \<open>list_id * count + i\<close>: when all lists have the same length (and the
  slots fit in 32 bits), every entry's norm is still there after all lists have been computed, in any order.\<close>

theorem moe_outputs_kept:
  assumes "distinct (map lv_list_id vs)" "\<forall>v\<in>set vs. lv_count v = n \<and> unat (lv_list_id v) * unat n + unat n \<le> 2 ^ 32"
    and "v \<in> set vs" "i < unat n"
  shows "fold (moe_compute ops m sq) vs out (unat (lv_list_id v) * unat n + i) = moe_norm ops m (get_entry sq v (of_nat i))"
  using assms by (intro moe_outputs) auto

definition two_views :: "SGListView list" where
  "two_views = [\<lparr>lv_list_id = 1, lv_count = 2, lv_flags = 0, lv_pool_offset = 2\<rparr>, \<lparr>lv_list_id = 0, lv_count = 2, lv_flags = 0, lv_pool_offset = 0\<rparr>]"

theorem moe_outputs_kept_witness:
  "fold (moe_compute int_ops uint zero_sg_queue) two_views (\<lambda>_. 0) 3 = moe_norm int_ops uint (get_entry zero_sg_queue (hd two_views) 1)"
  using moe_outputs_kept [of two_views 2 "hd two_views" 1 int_ops uint zero_sg_queue "\<lambda>_. 0"] by (simp add: two_views_def)

end
