(* ===== verification/Engine_Safety.thy ===== *)
theory Engine_Safety
  imports Copy_Engine
begin

text \<open>
  The members of a \<open>CopyEngineManager\<close> stay in range whatever the driver answers: every operation, on its error paths too, leaves the
  channel count, the next channel and the dirty mask consistent.
\<close>

section \<open>Operations\<close>

datatype ce_op = Op_Submit "SGEntry list" | Op_Wait | Op_Submit_Wait "SGEntry list" | Op_Stream_Wait nat | Op_Last_Event nat | Op_Pin | Op_Unpin
  | Op_Shutdown

fun ce_apply :: "cu_driver \<Rightarrow> ce_op \<Rightarrow> CopyEngineManager \<times> trace \<Rightarrow> CopyEngineManager \<times> trace" where
  "ce_apply drv (Op_Submit es) (ce, tr) = snd (submit_scatter_gather drv es ce tr)"
| "ce_apply drv Op_Wait (ce, tr) = snd (wait_completion drv ce tr)"
| "ce_apply drv (Op_Submit_Wait es) (ce, tr) = snd (submit_and_wait drv es ce tr)"
| "ce_apply drv (Op_Stream_Wait st) (ce, tr) = snd (make_stream_wait_on_all drv st ce tr)"
| "ce_apply drv (Op_Last_Event ev) (ce, tr) = snd (record_event_on_last_stream drv ev ce tr)"
| "ce_apply drv Op_Pin (ce, tr) = snd (pin_context drv ce tr)"
| "ce_apply drv Op_Unpin (ce, tr) = unpin_context drv ce tr"
| "ce_apply drv Op_Shutdown (ce, tr) = ce_shutdown drv ce tr"

definition mask_below :: "nat \<Rightarrow> u32 \<Rightarrow> bool" where
  "mask_below n m \<longleftrightarrow> (\<forall>ch. bit m ch \<longrightarrow> ch < n)"

definition ce_shape :: "nat \<Rightarrow> CopyEngineManager \<Rightarrow> bool" where
  "ce_shape n ce \<longleftrightarrow> num_channels ce = n \<and> 0 < n \<and> n \<le> MAX_CE_CHANNELS \<and> next_channel ce < n \<and> mask_below n (dirty_mask ce)"

lemma mask_below_simps [simp]: "mask_below n 0" "mask_below n (a OR b) \<longleftrightarrow> mask_below n a \<and> mask_below n b" "ch < n \<Longrightarrow> mask_below n (2 ^ ch)"
  by (auto simp: mask_below_def bit_simps)

lemma ce_shape_frame [simp]:
  "ce_shape n (ce\<lparr>total_bytes := a\<rparr>) = ce_shape n ce" "ce_shape n (ce\<lparr>total_submissions := b\<rparr>) = ce_shape n ce"
  "ce_shape n (ce\<lparr>total_entries := b\<rparr>) = ce_shape n ce" "ce_shape n (ce\<lparr>context_pinned := c\<rparr>) = ce_shape n ce"
  "ce_shape n (ce\<lparr>ce_initialized := c\<rparr>) = ce_shape n ce" "ce_shape n (ce\<lparr>ce_streams := h\<rparr>) = ce_shape n ce"
  "ce_shape n (ce\<lparr>ce_events := h\<rparr>) = ce_shape n ce" "ce_shape n ce \<Longrightarrow> ce_shape n (ce\<lparr>dirty_mask := 0\<rparr>)"
  by (simp_all add: ce_shape_def)

section \<open>Every operation keeps the shape\<close>

named_theorems shape \<open>operations that keep a well-formed engine\<close>

lemma shape_check [shape]:
  "(\<And>ce tr. ce_shape n ce \<Longrightarrow> ce_shape n (fst (snd (k ce tr)))) \<Longrightarrow> ce_shape n ce \<Longrightarrow> ce_shape n (fst (snd (GFD_CU_CHECK drv c k ce tr)))"
  by (auto simp: GFD_CU_CHECK_def split: prod.split)

lemma shape_return [shape]: "ce_shape n ce \<Longrightarrow> ce_shape n (fst (snd (ce_return ce tr)))"
  by (simp add: ce_return_def)

lemma shape_push [shape]:
  "(\<And>ce tr. ce_shape n ce \<Longrightarrow> ce_shape n (fst (snd (k ce tr)))) \<Longrightarrow> ce_shape n ce \<Longrightarrow> ce_shape n (fst (snd (push_unless_pinned drv k ce tr)))"
  by (simp add: push_unless_pinned_def shape_check)

lemma shape_pop [shape]:
  "(\<And>ce tr. ce_shape n ce \<Longrightarrow> ce_shape n (fst (snd (k ce tr)))) \<Longrightarrow> ce_shape n ce \<Longrightarrow> ce_shape n (fst (snd (pop_unless_pinned drv k ce tr)))"
  by (simp add: pop_unless_pinned_def shape_check)

lemma shape_record [shape]: "ce_shape n ce \<Longrightarrow> ce_shape n (fst (snd (record_events drv chs ce tr)))"
  by (induction chs arbitrary: ce tr) (simp_all add: shape)

lemma shape_sync [shape]: "ce_shape n ce \<Longrightarrow> ce_shape n (fst (snd (sync_events drv chs ce tr)))"
  by (induction chs arbitrary: ce tr) (simp_all add: shape)

lemma shape_stream_wait [shape]: "ce_shape n ce \<Longrightarrow> ce_shape n (fst (snd (wait_on_channels drv st chs ce tr)))"
  by (induction chs arbitrary: ce tr) (simp_all add: shape)

lemma shape_range [shape]: "ce_shape n ce \<Longrightarrow> ce_shape n (fst (snd (submit_range drv ch es ce tr)))"
  by (induction es arbitrary: ce tr) (simp_all add: shape)

lemma shape_round_robin:
  "submit_round_robin drv es m ce tr = (r, m', ce', tr') \<Longrightarrow> ce_shape n ce \<Longrightarrow> mask_below n m \<Longrightarrow> ce_shape n ce' \<and> mask_below n m'"
proof (induction es arbitrary: m ce tr)
  case (Cons e es)
  let ?ce = "ce\<lparr>next_channel := (next_channel ce + 1) mod num_channels ce\<rparr>" let ?m = "m OR push_bit (next_channel ce) 1"
  have ok: "ce_shape n ?ce" "mask_below n ?m" using Cons.prems(2,3) by (simp_all add: ce_shape_def)
  obtain r1 x tr1 where c: "cu drv (copy_on (ce_streams ce (next_channel ce)) e) tr = (r1, x, tr1)" by (metis prod_cases3)
  show ?case
  proof (cases "r1 = CUDA_SUCCESS")
    case True
    with c Cons.prems(1) have "submit_round_robin drv es ?m (?ce\<lparr>total_bytes := total_bytes ?ce + unat (sg_size e)\<rparr>) tr1 = (r, m', ce', tr')"
      by (simp add: Let_def)
    from Cons.IH [OF this] ok show ?thesis by simp
  next
    case False
    with c Cons.prems(1) ok show ?thesis by (auto simp: Let_def)
  qed
qed simp

lemma shape_chunks:
  "submit_chunks drv es k chs m ce tr = (r, m', ce', tr') \<Longrightarrow> set chs \<subseteq> {..<n} \<Longrightarrow> ce_shape n ce \<Longrightarrow> mask_below n m \<Longrightarrow> ce_shape n ce' \<and> mask_below n m'"
proof (induction chs arbitrary: m ce tr)
  case (Cons ch chs)
  let ?es = "take (min (ch * k + k) (length es) - ch * k) (drop (ch * k) es)" let ?m = "m OR push_bit ch 1"
  obtain r1 ce1 tr1 where c: "submit_range drv ch ?es ce tr = (r1, ce1, tr1)" by (metis prod_cases3)
  have ok: "ce_shape n ce1" "mask_below n ?m" using shape_range [OF Cons.prems(3), of drv ch ?es tr] c Cons.prems(2,4) by simp_all
  consider "length es \<le> ch * k" | "\<not> length es \<le> ch * k" "r1 \<noteq> CUDA_SUCCESS" | "\<not> length es \<le> ch * k" "r1 = CUDA_SUCCESS" by blast
  then show ?case
  proof cases
    case 3
    with c Cons.prems(1) have "submit_chunks drv es k chs ?m ce1 tr1 = (r, m', ce', tr')" by (simp add: Let_def)
    from Cons.IH [OF this] ok Cons.prems(2) show ?thesis by simp
  qed (use c Cons.prems ok in \<open>auto simp: Let_def\<close>)
qed simp

lemma shape_issue:
  assumes "issue_copies drv es ce tr = (r, m, ce', tr')" "ce_shape n ce"
  shows "ce_shape n ce' \<and> mask_below n m"
proof -
  have "set [0..<num_channels ce] \<subseteq> {..<n}" using assms(2) by (auto simp: ce_shape_def)
  note chunks = shape_chunks [OF _ this assms(2) mask_below_simps(1)]
  show ?thesis
  proof (cases "length es \<le> num_channels ce")
    case True
    then show ?thesis using assms shape_round_robin [of drv es 0 ce tr r m ce' tr' n] by (simp add: issue_copies_def)
  next
    case False
    obtain r1 m1 ce1 tr1 where c: "submit_chunks drv es ((length es + num_channels ce - 1) div num_channels ce) [0..<num_channels ce] 0 ce tr = (r1, m1, ce1, tr1)"
      by (metis prod_cases4)
    have "ce_shape n (ce1\<lparr>next_channel := 0\<rparr>)" using chunks [OF c] by (simp add: ce_shape_def)
    then show ?thesis using chunks [OF c] False c assms(1) by (auto simp: issue_copies_def Let_def split: if_splits)
  qed
qed

lemma shape_submit [shape]: 
  assumes "ce_shape n ce" shows "ce_shape n (fst (snd (submit_scatter_gather drv es ce tr)))"
proof -
  have body: "ce_shape n (fst (snd (case issue_copies drv es ce tr of (r, this_mask, ce1, tr1) \<Rightarrow>
           if r \<noteq> CUDA_SUCCESS then (r, ce1, tr1)
           else case record_events drv (mask_channels this_mask)
                       (ce1\<lparr>dirty_mask := dirty_mask ce1 OR this_mask\<rparr>) tr1 of (r, ce2, tr2) \<Rightarrow>
             if r \<noteq> CUDA_SUCCESS then (r, ce2, tr2)
             else pop_unless_pinned drv
               (\<lambda>ce. ce_return (ce\<lparr>total_submissions := total_submissions ce + 1,
                             total_entries := total_entries ce + of_nat (length es)\<rparr>)) ce2 tr2)))"
    if ce: "ce_shape n ce" for ce tr
  proof -
    obtain r m ce1 tr1 where i: "issue_copies drv es ce tr = (r, m, ce1, tr1)" by (metis prod_cases4)
    note s = shape_issue [OF i ce]
    obtain r2 ce2 tr2 where rec: "record_events drv (mask_channels m) (ce1\<lparr>dirty_mask := dirty_mask ce1 OR m\<rparr>) tr1 = (r2, ce2, tr2)"
      by (metis prod_cases3)
    have "ce_shape n (ce1\<lparr>dirty_mask := dirty_mask ce1 OR m\<rparr>)" using s by (simp add: ce_shape_def)
    from shape_record [OF this, of drv "mask_channels m" tr1] rec have "ce_shape n ce2" by simp
    then have "ce_shape n (fst (snd (pop_unless_pinned drv (\<lambda>ce. ce_return (ce\<lparr>total_submissions := total_submissions ce + 1,
        total_entries := total_entries ce + of_nat (length es)\<rparr>)) ce2 tr2)))"
      by (intro shape_pop) (simp_all add: ce_return_def)
    then show ?thesis using s \<open>ce_shape n ce2\<close> by (simp add: i rec)
  qed
  show ?thesis using assms unfolding submit_scatter_gather_def by (auto intro!: shape_push shape_return body)
qed

lemma shape_wait [shape]:
  assumes "ce_shape n ce" shows "ce_shape n (fst (snd (wait_completion drv ce tr)))"
proof -
  have "ce_shape n (fst (snd (case sync_events drv (mask_channels (dirty_mask ce)) ce tr of (r, ce1, tr1) \<Rightarrow>
      if r \<noteq> CUDA_SUCCESS then (r, ce1, tr1) else pop_unless_pinned drv ce_return (ce1\<lparr>dirty_mask := 0\<rparr>) tr1)))" if "ce_shape n ce" for ce tr
    using shape_sync [OF that, of drv "mask_channels (dirty_mask ce)" tr] by (auto split: prod.split intro!: shape)
  then show ?thesis using assms unfolding wait_completion_def by (auto intro!: shape_push shape_return)
qed

lemma shape_stream_wait_all [shape]:
  assumes "ce_shape n ce" shows "ce_shape n (fst (snd (make_stream_wait_on_all drv st ce tr)))"
proof -
  have "ce_shape n (fst (snd (case wait_on_channels drv st (mask_channels (dirty_mask ce)) ce tr of (r, ce1, tr1) \<Rightarrow>
      if r \<noteq> CUDA_SUCCESS then (r, ce1, tr1) else pop_unless_pinned drv ce_return ce1 tr1)))" if "ce_shape n ce" for ce tr
    using shape_stream_wait [OF that, of drv st "mask_channels (dirty_mask ce)" tr] by (auto split: prod.split intro!: shape)
  then show ?thesis using assms unfolding make_stream_wait_on_all_def by (auto intro!: shape_push shape_return)
qed

lemma shape_submit_and_wait [shape]:
  assumes "ce_shape n ce" shows "ce_shape n (fst (snd (submit_and_wait drv es ce tr)))"
  using shape_submit [OF assms, of drv es tr] by (auto simp: submit_and_wait_def split: prod.split intro: shape_wait)

lemma shape_shutdown: "ce_shape n ce \<Longrightarrow> ce_shape n (fst (ce_shutdown drv ce tr))"
proof -
  have all: "ce_shape n (fst (shutdown_channels drv is ce tr)) = ce_shape n ce" for "is" ce tr
    by (induction "is" arbitrary: ce tr) (simp_all add: Let_def)
  assume "ce_shape n ce"
  then show ?thesis
  proof (cases "ce_initialized ce")
    case True
    let ?tr = "if context_pinned ce then tr else tr @ [CtxPushCurrent (ce_ctx ce)]"
    obtain ce2 tr2 where c: "shutdown_channels drv [0..<num_channels ce] ce ?tr = (ce2, tr2)" by fastforce
    have "ce_shape n ce2" using all [of "[0..<num_channels ce]" ce ?tr] c \<open>ce_shape n ce\<close> by simp
    then show ?thesis using True c by (simp add: ce_shutdown_def Let_def)
  qed (simp add: ce_shutdown_def)
qed

lemma shape_apply:
  assumes "ce_shape n (fst s)" shows "ce_shape n (fst (ce_apply drv op s))"
proof -
  obtain ce tr where s: "s = (ce, tr)" by fastforce
  then have ce: "ce_shape n ce" using assms by simp
  have "ce_shape n (fst (snd (record_event_on_last_stream drv ev ce tr)))" for ev
    unfolding record_event_on_last_stream_def Let_def using ce by (auto intro!: shape)
  moreover have "ce_shape n (fst (snd (pin_context drv ce tr)))"
  proof -
    have "ce_shape n (fst (snd (GFD_CU_CHECK drv (CtxPushCurrent (ce_ctx ce)) (\<lambda>ce. ce_return (ce\<lparr>context_pinned := True\<rparr>)) ce tr)))"
      using ce by (intro shape_check) (simp_all add: ce_return_def)
    then show ?thesis using ce shape_return by (simp add: pin_context_def)
  qed
  ultimately show ?thesis unfolding s
    using shape_submit [OF ce] shape_wait [OF ce] shape_submit_and_wait [OF ce] shape_stream_wait_all [OF ce] shape_shutdown [OF ce] ce
    by (cases op) (simp_all add: unpin_context_def)
qed

lemma shape_run: "ce_shape n (fst s) \<Longrightarrow> ce_shape n (fst (fold (ce_apply drv) ops s))"
  by (induction ops arbitrary: s) (simp_all add: shape_apply)

lemma shape_channels: "ce_shape n (fst (snd (init_channels drv prio is ce tr))) = ce_shape n ce"
  by (induction "is" arbitrary: ce tr) (auto simp: ce_return_def Let_def split: prod.split)

definition channels_for :: "int \<Rightarrow> nat" where
  "channels_for k = (if 0 < k \<and> k \<le> int MAX_CE_CHANNELS then nat k else MAX_CE_CHANNELS)"

lemma init_shape: "ce_shape (channels_for k) (fst (snd (ce_init drv ctx k new_manager tr)))"
proof -
  let ?n = "channels_for k"
  define ce where "ce = (if 0 < k \<and> k \<le> int MAX_CE_CHANNELS then new_manager\<lparr>ce_ctx := ctx\<rparr>\<lparr>num_channels := nat k\<rparr> else new_manager\<lparr>ce_ctx := ctx\<rparr>)"
  have ce: "ce_shape ?n ce" by (simp add: ce_def ce_shape_def channels_for_def new_manager_def) (auto simp: MAX_CE_CHANNELS_def)
  have body: "ce_shape ?n (fst (snd (case cu drv CtxGetStreamPriorityRange tr of (r, priority_high, tr1) \<Rightarrow>
                   if r \<noteq> CUDA_SUCCESS then (r, ce, tr1)
                   else case init_channels drv priority_high [0..<num_channels ce] ce tr1 of (r, ce', tr2) \<Rightarrow>
                     if r \<noteq> CUDA_SUCCESS then (r, ce', tr2)
                     else GFD_CU_CHECK drv CtxPopCurrent (\<lambda>ce. ce_return (ce\<lparr>ce_initialized := True\<rparr>)) ce' tr2)))"
    if "ce_shape ?n ce" for ce tr
  proof -
    obtain r prio tr1 where c: "cu drv CtxGetStreamPriorityRange tr = (r, prio, tr1)" by (metis prod_cases3)
    obtain r2 ce2 tr2 where i: "init_channels drv prio [0..<num_channels ce] ce tr1 = (r2, ce2, tr2)" by (metis prod_cases3)
    have ce2: "ce_shape ?n ce2" using shape_channels [of ?n drv prio "[0..<num_channels ce]" ce tr1] i that by simp
    then have "ce_shape ?n (fst (snd (GFD_CU_CHECK drv CtxPopCurrent (\<lambda>ce. ce_return (ce\<lparr>ce_initialized := True\<rparr>)) ce2 tr2)))"
      by (intro shape_check) (simp_all add: ce_return_def)
    then show ?thesis using c i ce2 that by simp
  qed
  have "\<not> ce_initialized new_manager" by (simp add: new_manager_def)
  then have "ce_init drv ctx k new_manager tr = GFD_CU_CHECK drv (CtxPushCurrent ctx)
                (\<lambda>ce tr. case cu drv CtxGetStreamPriorityRange tr of (r, priority_high, tr1) \<Rightarrow>
                   if r \<noteq> CUDA_SUCCESS then (r, ce, tr1)
                   else case init_channels drv priority_high [0..<num_channels ce] ce tr1 of (r, ce', tr2) \<Rightarrow>
                     if r \<noteq> CUDA_SUCCESS then (r, ce', tr2)
                     else GFD_CU_CHECK drv CtxPopCurrent (\<lambda>ce. ce_return (ce\<lparr>ce_initialized := True\<rparr>)) ce' tr2) ce tr"
    by (simp add: ce_init_def ce_def Let_def)
  also have "ce_shape ?n (fst (snd \<dots>))" using body ce by (rule shape_check)
  finally show ?thesis .
qed

section \<open>From construction to shutdown\<close>

text \<open>C26: Well-formedness of the copy engine without any assumption on the driver: after \<open>init\<close> of a new manager, successful or not, and any
  sequence of the public operations between \<open>init\<close> and \<open>shutdown\<close>, each succeeding or failing at any of its calls, the channel count is the requested one (or 3 for a
  request out of range), \<open>next_channel\<close> is a channel, and the dirty mask has bits of channels only, so that no operation indexes past
  its streams and events.\<close>

theorem engine_stays_in_range:
  "ce_shape (channels_for k) (fst (fold (ce_apply drv) ops (snd (ce_init drv ctx k new_manager tr))))"
  by (intro shape_run init_shape)

end
