(* ===== verification/Spec2Isabelle.thy ===== *)
theory Spec2Isabelle
  imports Transfer_Properties Queue_Properties Engine_Properties Batch_Properties Polling_Properties Direct_Properties
    Setup_Properties Kernel_Properties Client_Properties Engine_Safety
begin

text \<open>
  gfd, a library for transfers from host memory to a GPU that GPU kernels request by themselves. Kernels write descriptors
  into a ring in host-mapped memory; a polling thread on the CPU reads them in order, collects them into batches, merges and
  gathers them, and issues copies on a few streams (the copy engine); completion is signalled per descriptor ring, per tile or
  per list. On top of that are two kinds of kernels whose first warp requests data while the others compute, and sessions that
  set everything up and take it down.

  Parts and theories.

  \<^item> Prelude, Transition_Systems: words, address regions, the pieces of a list that workers share; interfaces for invariants,
    ranks and termination of step relations, which the concurrent parts below are instances of.
  \<^item> Scatter_Gather, Coalescing, Staging, Radix_Sort: copies as functions on memory (an address to a byte), the merge loops, runs
    of a staging buffer, and the sort of \<open>src/batch_processor.cpp\<close>. Memory is a total function; a DMA list is a fold of
    copies; \<open>separate\<close> says that no copy touches what another reads or writes.
  \<^item> Cuda_Driver, Copy_Engine: calls of the CUDA driver as a trace, with the documented order of streams and events as a relation
    on its positions; \<open>src/copy_engine.cpp\<close> over it. What the driver answers is a parameter (\<open>cu_driver\<close>), so it ranges
    over all outcomes; hypotheses like \<open>all_succeed\<close> or \<open>fresh_handles\<close> name documented behaviour.
  \<^item> Parallel_Gather: the handshake of \<open>src/parallel_gather.cpp\<close> as a transition system, thread by thread.
  \<^item> Bucketing, Poller, Tiled_Processor: \<open>process_batch\<close>, \<open>process_batch_tiled\<close> and \<open>process_batch_sg\<close>.
  \<^item> Descriptor_Queue, Ring_Protocol: \<open>descriptor_queue.h\<close>, \<open>tiled_queue.h\<close>, \<open>device.cuh\<close>,
    \<open>device_primitives.cuh\<close>; the ring with any number of producers and the guard \<open>wait_queue_space\<close>.
  \<^item> Cpu_Polling, Poll_Safety: the loop of \<open>src/cpu_polling.cpp\<close>, one iteration per step, with what the producers do
    before and during it, an idle poller included, as a parameter; the invariant of the loop.
  \<^item> Pcie_Topology: \<open>pcie_topology.h\<close>, over what sysfs answers.
  \<^item> Host_Memory, Staging_Pool, Poller_Setup: allocation calls with their outcomes as a parameter and an account of what is held;
    \<open>staging_pool.h\<close>; constructor, \<open>init_copy_engine\<close>, \<open>start\<close>, \<open>stop\<close> and destructor of the poller.
  \<^item> Direct_Submit: \<open>src/direct_submit.cpp\<close>, for a call made while the polling thread rests.
  \<^item> Sg_Task_Queue: \<open>sg_task_queue.h\<close> and \<open>sg_device_primitives.cuh\<close>.
  \<^item> Session, Sg_Session: \<open>warp_spec_session.h\<close> and the two files of \<open>src/\<close> that implement it.
  \<^item> Warp_Spec, Double_Buffer, Double_Buffer_Work, Sg_Warp_Spec: the kernels of \<open>warp_spec.cuh\<close> and \<open>sg_warp_spec.cuh\<close>, one thread block
    with its warps as a transition system. A step is what a warp does between two accesses to shared state, a spin is the absence
    of a step, and everything outside the block may change the queue at any time.
  \<^item> Token_Kernels, Token_Delivery: the kernels of \<open>examples/01_basic_transfer.cu\<close> and \<open>04_benchmark.cu\<close>, thread by thread, and
    the path of what they publish through two rounds of the polling loop.
  \<^item> Planned_Transfer: the three kernels of \<open>examples/03_gpu_planned_transfer.cu\<close> around a call of \<open>submit_direct\<close>.
  \<^item> Dynamic_Submit: \<open>dynamic_moe_kernel\<close> of \<open>examples/09_sg_warp_spec.cu\<close>, whose third warp submits lists while the first takes
    them out; the kernel of \<open>test/test_sg_gpu_submit.cu\<close> differs in the lists only (\<open>test_lists\<close>).
  \<^item> Example_Compute: the compute functions of \<open>examples/07_warp_spec_simple.cu\<close> and 09 and the baseline kernel of 07, over
    uninterpreted floating-point operations.
  \<^item> Spin_Barrier: the barrier that starts the threads of the multi-GPU benchmarks (05, 06 and 08) together.

  Properties.

  \<^item> Transfer_Properties: merging, sorting, staging and the gather leave the memory that the entries ask for; the gather
    terminates, and loses work when it is called again too soon.
  \<^item> Queue_Properties: a submitted tile read back, the ring as a first-in first-out queue, what its guard gives and does not give.
  \<^item> Engine_Properties: a submission issues its entries; a wait completes them; later work is ordered after them; errors.
  \<^item> Batch_Properties: each batch processor copies what the descriptors ask for, counts it, and signals it after the data.
  \<^item> Polling_Properties: the loop's invariant, what \<open>done_idx\<close> promises, quiescence, and what the drain leaves out.
  \<^item> Direct_Properties: every branch of the direct path delivers its entries.
  \<^item> Setup_Properties: disjoint cores, exclusive staging sets, the automatic configuration, a session's resources, and the
    agreement of host and device submission.
  \<^item> Kernel_Properties: each chunk computed once and after its arrival, progress, views and descriptors agree, the hand-over of
    lists; the double-buffered kernel computes nothing twice and can miss chunks of its last tile but one only; and the runs in
    which it does, the hand-over of a list is lost, and the entry pool runs dry.
  \<^item> Engine_Safety: the copy engine's members stay in range on every error path.
  \<^item> Client_Properties: tokens delivered end to end, a planned transfer that verifies, lists submitted by a running kernel transferred
    and computed in order, the specialised kernel equal to its baseline, the barrier; and what goes wrong in the fused kernel,
    in the room guard of 09, and with entries that are given back early.

  Conventions and bounds. Machine words have the width of the C++ type where wrap-around matters (indices of 64 bits, sizes and
  counters of 32); \<open>int\<close> members whose values stay small are integers. Arrays are functions from indices; a read or write outside
  an array is \<open>None\<close> where the code can reach it. Errors are results of the driver's type or \<open>None\<close>. Loops are recursions on
  lists or counters; \<open>round_pow2\<close> is a partial function with a result proved for every configuration, and the drain has as
  fuel the size of the ring plus one, which it cannot use up without more entries being ready than the ring holds.

  Not modelled. Weak memory: fences and volatile accesses are points of a sequentially consistent interleaving. Time: back-off,
  statistics in microseconds and \<open>get_stats\<close>. Logging, \<open>print_topology\<close> and the parsing of sysfs files. The pinning of a
  thread beyond the core it is planned for. The kernel-generating macros, which only call the loops. The main functions of
  examples, benchmarks and tests: allocation, launches, timing, percentiles and printed tables. Values of floating-point operations.
  The kernels' last exit from a claimed but uncommitted list changes no state that the poller reads. A direct submission at the same
  time as the polling thread works on the same staging buffers is outside the model of one call.

  Simplifications. In the batch processors a call of \<open>parallel_gather\<close> is one step that copies all entries (\<open>gather_into\<close>). That
  is what Transfer_Properties proves of the handshake when it starts with all workers at rest; when a call comes before a worker has
  gone back to rest it can lose work and hang (\<open>gather_lost_work\<close> there), and the theorems on batches say nothing of that
  case. In \<open>dyn_step\<close> the three stores with which warp 0 gives a list back are one step. In \<open>pool_use\<close> a list is no longer
  than the pool; \<open>sg_wait_entry_space_wraps\<close> shows what the guard does with longer ones. The mode in which a tiled queue has no signal
  buffer and tile signals are deferred to events is modelled (\<open>defer_tiles\<close>, \<open>poll_tile_events\<close>, \<open>retire_all\<close>), but the invariant
  of the loop and what follows from it (\<open>ce_mode\<close>) is for the other modes: with deferred events \<open>done_idx\<close> follows an event on one
  stream only.
\<close>

end
